(* ===== verification/Prelude.thy ===== *)
theory Prelude
  imports Main "HOL-Library.Word" "HOL-Library.Monad_Syntax" "HOL-Library.Multiset"
begin

text \<open>
  What the components share: the names of the C integer types, memory reads and writes
  with their bounds (\<open>None\<close> is undefined behaviour, never a result of the program), C
  strings in a buffer, reachability of a step relation with the locale that proves an
  invariant of it, and the facts about 32-bit loop counters that every counting loop needs.
\<close>

unbundle bit_operations_syntax

named_theorems mem_simps \<open>bounded reads and writes of memory\<close>
named_theorems word_loop \<open>32-bit loop counters that stay below a bound\<close>

section \<open>C integers\<close>

type_synonym u8 = "8 word"
type_synonym u32 = "32 word"   \<comment> \<open>\<open>uint32_t\<close>\<close>
type_synonym i32 = "32 word"   \<comment> \<open>\<open>int32_t\<close>, read with \<open>sint\<close>\<close>

abbreviation INT32_MAX :: i32 where
  "INT32_MAX \<equiv> 0x7FFFFFFF"

lemma unat_Suc_lt [word_loop]:
  fixes i n :: u32
  assumes "i < n"
  shows "unat (i + 1) = Suc (unat i)"
  using assms by unat_arith

lemma unat_lt [word_loop]:
  fixes i n :: u32
  assumes "i < n"
  shows "unat i < unat n"
  using assms by (simp add: word_less_nat_alt)

lemma unat_Suc_le [word_loop]:
  fixes i n :: u32
  assumes "i < n"
  shows "i + 1 \<le> n"
  using assms by unat_arith

lemma loop_measure [word_loop]:
  fixes i n :: u32
  assumes "i < n"
  shows "unat n - unat (i + 1) < unat n - unat i"
  using assms by (simp add: unat_Suc_lt unat_lt diff_less_mono2)

lemma down_loop_measure [word_loop]:
  fixes i n :: u32
  assumes "n < i"
  shows "unat (i - 1) < unat i"
  using assms by unat_arith

lemma unat_pred:
  fixes n :: u32
  assumes "n \<noteq> 0"
  shows "unat (n - 1) = unat n - 1"
  using assms by unat_arith

lemma unat_minus:
  fixes a b :: u32
  assumes "b \<le> a"
  shows "unat (a - b) = unat a - unat b"
  using assms by (rule unat_sub)

lemma unat_div_2:
  fixes a :: u32
  shows "unat (a div 2) = unat a div 2"
  by (simp add: unat_div)

lemma unat_less_32: "unat (n :: u32) < 4294967296"
proof -
  have "unat n < 2 ^ LENGTH(32)" by (rule unsigned_less)
  then show ?thesis by simp
qed

lemma unat_of_nat_lt:
  fixes n :: u32
  assumes "k \<le> unat n"
  shows "unat (word_of_nat k :: u32) = k"
  using assms unat_less_32 [of n] by (simp add: unat_of_nat)

section \<open>Memory\<close>

text \<open>
  An array is the list of its cells. Reading or writing outside the list is undefined in
  C and has no value here.
\<close>

definition rd :: "'a list \<Rightarrow> u32 \<Rightarrow> 'a option" where
  "rd xs i = (if unat i < length xs then Some (xs ! unat i) else None)"

definition wr :: "'a list \<Rightarrow> u32 \<Rightarrow> 'a \<Rightarrow> 'a list option" where
  "wr xs i v = (if unat i < length xs then Some (xs[unat i := v]) else None)"

lemma rd_in [mem_simps]: "unat i < length xs \<Longrightarrow> rd xs i = Some (xs ! unat i)"
  by (simp add: rd_def)

lemma rd_out [mem_simps]: "length xs \<le> unat i \<Longrightarrow> rd xs i = None"
  by (simp add: rd_def)

lemma wr_in [mem_simps]: "unat i < length xs \<Longrightarrow> wr xs i v = Some (xs[unat i := v])"
  by (simp add: wr_def)

lemma wr_out [mem_simps]: "length xs \<le> unat i \<Longrightarrow> wr xs i v = None"
  by (simp add: wr_def)

lemma drop_take_Cons [mem_simps]:
  "i < n \<Longrightarrow> n \<le> length xs \<Longrightarrow> drop i (take n xs) = xs ! i # drop (Suc i) (take n xs)"
  by (subst Cons_nth_drop_Suc [symmetric]) auto

lemma takeWhile_none: "(\<And>x. x \<in> set ys \<Longrightarrow> \<not> P x) \<Longrightarrow> takeWhile P ys = []"
  by (cases ys) auto

lemma dropWhile_none: "(\<And>x. x \<in> set ys \<Longrightarrow> \<not> P x) \<Longrightarrow> dropWhile P ys = ys"
  by (cases ys) auto

section \<open>C strings\<close>

abbreviation NUL :: char where
  "NUL \<equiv> CHR 0x00"

text \<open>The string a buffer holds: the characters before the first NUL.\<close>

definition cstr :: "char list \<Rightarrow> string" where
  "cstr s = takeWhile (\<lambda>c. c \<noteq> NUL) s"

text \<open>\<open>snprintf(buf, n, "%s", s)\<close>: the string left in \<open>buf\<close>, cut to \<open>n - 1\<close>.\<close>

definition snprintf_s :: "nat \<Rightarrow> string \<Rightarrow> string" where
  "snprintf_s n s = take (n - 1) (cstr s)"

lemma cstr_no_NUL [simp]: "NUL \<notin> set (cstr s)"
  by (auto simp: cstr_def dest: set_takeWhileD)

lemma cstr_id [simp]: "NUL \<notin> set s \<Longrightarrow> cstr s = s"
  unfolding cstr_def takeWhile_eq_all_conv by blast

lemma cstr_Nil [simp]: "cstr [] = []"
  by (simp add: cstr_def)

lemma cstr_Cons [simp]: "cstr (c # s) = (if c = NUL then [] else c # cstr s)"
  by (simp add: cstr_def)

lemma length_cstr_le: "length (cstr s) \<le> length s"
  by (simp add: cstr_def length_takeWhile_le)

lemma cstr_take_length: "take (length (cstr s)) s = cstr s"
  by (simp add: cstr_def takeWhile_eq_take [symmetric])

lemma nth_length_cstr: "length (cstr s) < length s \<Longrightarrow> s ! length (cstr s) = NUL"
  unfolding cstr_def by (drule nth_length_takeWhile) simp

lemma cstr_append_NUL [simp]: "NUL \<notin> set s \<Longrightarrow> cstr (s @ NUL # r) = s"
  unfolding cstr_def by (subst takeWhile_append2) auto

lemma cstr_append_replicate [simp]:
  "NUL \<notin> set s \<Longrightarrow> cstr (s @ replicate n NUL) = s"
  by (cases n) simp_all

lemma length_snprintf_s: "0 < n \<Longrightarrow> length (snprintf_s n s) < n"
  by (simp add: snprintf_s_def min_def) linarith

lemma snprintf_s_fits: "NUL \<notin> set s \<Longrightarrow> length s < n \<Longrightarrow> snprintf_s n s = s"
  by (simp add: snprintf_s_def)

section \<open>Decimal notation\<close>

text \<open>What \<open>printf\<close> writes for \<open>%u\<close> and \<open>%d\<close>.\<close>

definition digit :: "nat \<Rightarrow> char" where
  "digit d = char_of (48 + d)"

lemma digit_chars [simp]:
  "digit 0 = CHR ''0''" "digit 1 = CHR ''1''" "digit (Suc 0) = CHR ''1''" "digit 2 = CHR ''2''"
  "digit 3 = CHR ''3''" "digit 4 = CHR ''4''" "digit 5 = CHR ''5''" "digit 6 = CHR ''6''"
  "digit 7 = CHR ''7''" "digit 8 = CHR ''8''" "digit 9 = CHR ''9''"
  by code_simp+

fun show_nat :: "nat \<Rightarrow> string" where
  "show_nat n = (if n < 10 then [digit n] else show_nat (n div 10) @ [digit (n mod 10)])"

declare show_nat.simps [simp del]

definition show_int :: "int \<Rightarrow> string" where
  "show_int i = (if i < 0 then CHR ''-'' # show_nat (nat (- i)) else show_nat (nat i))"

lemma of_char_digit: "d < 10 \<Longrightarrow> (of_char (digit d) :: nat) = 48 + d"
  by (simp add: digit_def)

lemma digit_not_NUL: "d < 10 \<Longrightarrow> digit d \<noteq> NUL"
proof (rule notI)
  assume "digit d = NUL"
  then have "of_char (digit d) = (0 :: nat)" by simp
  moreover assume "d < 10"
  ultimately show False by (simp add: of_char_digit)
qed

lemma show_nat_nonempty: "show_nat n \<noteq> []"
  by (subst show_nat.simps) simp

lemma show_nat_digits: "c \<in> set (show_nat n) \<Longrightarrow> \<exists>d < 10. c = digit d"
proof (induction n rule: show_nat.induct)
  case (1 n)
  show ?case
  proof (cases "n < 10")
    case True
    with 1(2) show ?thesis by (subst (asm) show_nat.simps) auto
  next
    case False
    with 1 show ?thesis by (subst (asm) (2) show_nat.simps) (auto intro: exI [of _ "n mod 10"])
  qed
qed

lemma length_show_nat: "n < 10 ^ Suc k \<Longrightarrow> length (show_nat n) \<le> Suc k"
proof (induction k arbitrary: n)
  case 0
  then show ?case by (subst show_nat.simps) simp
next
  case (Suc k)
  then have "n div 10 < 10 ^ Suc k" by (simp add: less_mult_imp_div_less mult.commute)
  from Suc.IH [OF this] show ?case by (subst show_nat.simps) simp
qed

lemma show_nat_no_NUL: "NUL \<notin> set (show_nat n)"
  using show_nat_digits [of NUL n] digit_not_NUL by metis

section \<open>Sums over threads\<close>

lemma sum_one_changed:
  fixes f g :: "nat \<Rightarrow> nat"
  assumes "t < n" and "\<And>u. u \<noteq> t \<Longrightarrow> f u = g u"
  shows "(\<Sum>u < n. f u) + g t = (\<Sum>u < n. g u) + f t"
proof -
  have "(\<Sum>u \<in> {..<n} - {t}. f u) = (\<Sum>u \<in> {..<n} - {t}. g u)"
    using assms(2) by (intro sum.cong) auto
  then show ?thesis
    using assms(1) sum.remove [of "{..<n}" t f] sum.remove [of "{..<n}" t g] by simp
qed

section \<open>Step relations\<close>

inductive reachable :: "('s \<Rightarrow> bool) \<Rightarrow> ('s \<Rightarrow> 's \<Rightarrow> bool) \<Rightarrow> 's \<Rightarrow> bool"
  for I :: "'s \<Rightarrow> bool" and R :: "'s \<Rightarrow> 's \<Rightarrow> bool" where
  reach_init: "I s \<Longrightarrow> reachable I R s"
| reach_step: "reachable I R s \<Longrightarrow> R s t \<Longrightarrow> reachable I R t"

lemma reachable_trans:
  "reachable (\<lambda>u. u = s) R t \<Longrightarrow> reachable I R s \<Longrightarrow> reachable I R t"
  by (induction rule: reachable.induct) (auto intro: reachable.intros)

text \<open>
  The contract of an invariant: it holds initially and every step keeps it. Every
  concurrent component interprets this locale on its own step relation.
\<close>

locale invariant_of =
  fixes I :: "'s \<Rightarrow> bool" and R :: "'s \<Rightarrow> 's \<Rightarrow> bool" and P :: "'s \<Rightarrow> bool"
  assumes inv_init: "I s \<Longrightarrow> P s"
    and inv_step: "P s \<Longrightarrow> R s t \<Longrightarrow> P t"
begin

lemma reachable_inv: "reachable I R s \<Longrightarrow> P s"
  by (induction rule: reachable.induct) (auto intro: inv_init inv_step)

end

text \<open>
  Refinement: an abstraction function maps initial states to initial states, and each step to
  a step of the specification or to no change. So it maps reachable states to reachable ones.
\<close>

locale refines =
  fixes I :: "'s \<Rightarrow> bool" and R :: "'s \<Rightarrow> 's \<Rightarrow> bool"
    and J :: "'a \<Rightarrow> bool" and S :: "'a \<Rightarrow> 'a \<Rightarrow> bool" and abs :: "'s \<Rightarrow> 'a"
  assumes abs_init: "I s \<Longrightarrow> J (abs s)"
    and abs_step: "reachable I R s \<Longrightarrow> R s t \<Longrightarrow> abs t = abs s \<or> S (abs s) (abs t)"
begin

lemma abs_reachable: "reachable I R s \<Longrightarrow> reachable J S (abs s)"
proof (induction rule: reachable.induct)
  case (reach_init s)
  then show ?case by (intro reachable.reach_init abs_init)
next
  case (reach_step s t)
  then show ?case using abs_step [of s t] by (auto intro: reachable.reach_step)
qed

end

end
