(* ===== verification/StrUtils.thy ===== *)
theory StrUtils
  imports Prelude
begin

text \<open>
  \<open>1-GeneralKnowlegde/strutils.c\<close>: reversing, trimming and parsing a character buffer.
  A \<open>char *\<close> is \<open>None\<close> for \<open>NULL\<close>, else the cells from the pointer on; the functions
  return their code together with the buffer they leave. The loops are the code's, with
  32-bit counters; an access outside the buffer makes the whole call \<open>None\<close>.
\<close>

section \<open>Helpers\<close>

definition ERRNO_II :: u32 where
  "ERRNO_II = -1"

definition SUCCESS :: u32 where
  "SUCCESS = 0"

definition swap_character :: "char list \<Rightarrow> u32 \<Rightarrow> u32 \<Rightarrow> char list option" where
  "swap_character s x y =
     do { temp \<leftarrow> rd s x;
          cy \<leftarrow> rd s y;
          s' \<leftarrow> wr s x cy;
          wr s' y temp }"

definition validate_input :: "char list option \<Rightarrow> u32 \<Rightarrow> bool" where
  "validate_input str len \<longleftrightarrow> str \<noteq> None \<and> len > 0"

definition is_digit :: "char \<Rightarrow> bool" where
  "is_digit c \<longleftrightarrow> of_char c \<ge> (48 :: nat) \<and> of_char c \<le> (57 :: nat)"

definition is_null :: "char \<Rightarrow> bool" where
  "is_null c \<longleftrightarrow> c = NUL"

section \<open>\<open>str_reverse\<close>\<close>

text \<open>The first loop: the index of the first NUL below \<open>len\<close>, else \<open>len - 1\<close>.\<close>

function find_tail :: "char list \<Rightarrow> u32 \<Rightarrow> u32 \<Rightarrow> u32 option" where
  "find_tail str len idx =
     (if idx < len
      then do { c \<leftarrow> rd str idx;
                if is_null c then Some idx else find_tail str len (idx + 1) }
      else Some (len - 1))"
  by pat_completeness auto
termination
  by (relation "measure (\<lambda>(str, len, idx). unat len - unat idx)")
    (auto simp: loop_measure down_loop_measure)

text \<open>The second loop: swap \<open>idx\<close> with \<open>tail - idx - 1\<close> while \<open>idx < tail / 2\<close>.\<close>

function reverse_loop :: "char list \<Rightarrow> u32 \<Rightarrow> u32 \<Rightarrow> char list option" where
  "reverse_loop str tail idx =
     (if idx < tail div 2
      then do { str' \<leftarrow> swap_character str idx (tail - idx - 1);
                reverse_loop str' tail (idx + 1) }
      else Some str)"
  by pat_completeness auto
termination
  by (relation "measure (\<lambda>(str, tail, idx). unat (tail div 2) - unat idx)")
    (auto simp: loop_measure down_loop_measure)

definition str_reverse :: "char list option \<Rightarrow> u32 \<Rightarrow> (u32 \<times> char list option) option" where
  "str_reverse str len =
     (if \<not> validate_input str len then Some (ERRNO_II, str)
      else do { s \<leftarrow> str;
                tail \<leftarrow> find_tail s len 0;
                s' \<leftarrow> reverse_loop s tail 0;
                Some (SUCCESS, Some s') })"

section \<open>\<open>str_trim\<close>\<close>

function trim_start :: "char list \<Rightarrow> u32 \<Rightarrow> u32 \<Rightarrow> u32 option" where
  "trim_start str len start =
     (if start < len
      then do { c \<leftarrow> rd str start;
                if c = CHR '' '' then trim_start str len (start + 1) else Some start }
      else Some start)"
  by pat_completeness auto
termination
  by (relation "measure (\<lambda>(str, len, start). unat len - unat start)")
    (auto simp: loop_measure down_loop_measure)

function trim_end :: "char list \<Rightarrow> u32 \<Rightarrow> u32 \<Rightarrow> u32 option" where
  "trim_end str start end' =
     (if end' > start
      then do { c \<leftarrow> rd str end';
                if c = CHR '' '' then trim_end str start (end' - 1) else Some end' }
      else Some end')"
  by pat_completeness auto
termination
  by (relation "measure (\<lambda>(str, start, end'). unat end')") (auto simp: loop_measure down_loop_measure)

text \<open>The copy, in place; \<open>idx + start\<close> is a 32-bit sum.\<close>

function trim_copy :: "char list \<Rightarrow> u32 \<Rightarrow> u32 \<Rightarrow> u32 \<Rightarrow> u32 \<Rightarrow> char list option" where
  "trim_copy str len start end' idx =
     (if idx < len
      then do { c \<leftarrow> (if idx + start \<le> end' then rd str (idx + start) else Some NUL);
                str' \<leftarrow> wr str idx c;
                trim_copy str' len start end' (idx + 1) }
      else Some str)"
  by pat_completeness auto
termination
  by (relation "measure (\<lambda>(str, len, start, end', idx). unat len - unat idx)")
    (auto simp: loop_measure down_loop_measure)

definition str_trim :: "char list option \<Rightarrow> u32 \<Rightarrow> (u32 \<times> char list option) option" where
  "str_trim str len =
     (if \<not> validate_input str len then Some (ERRNO_II, str)
      else do { s \<leftarrow> str;
                start \<leftarrow> trim_start s len 0;
                end' \<leftarrow> trim_end s start (len - 1);
                s' \<leftarrow> trim_copy s len start end' 0;
                Some (SUCCESS, Some s') })"

section \<open>\<open>str_to_int\<close>\<close>

text \<open>The conversion loop: \<open>Inl\<close> is the early \<open>return INT32_MAX\<close>, \<open>Inr\<close> the value so far.\<close>

function to_int_loop :: "char list \<Rightarrow> u32 \<Rightarrow> u32 \<Rightarrow> u32 \<Rightarrow> (i32 + u32) option" where
  "to_int_loop str len idx ret =
     (if idx < len
      then do { c \<leftarrow> rd str idx;
                if is_null c then Some (Inr ret)
                else if \<not> is_digit c then Some (Inl INT32_MAX)
                else to_int_loop str len (idx + 1) (ret * 10 + (of_char c - of_char (CHR ''0''))) }
      else Some (Inr ret))"
  by pat_completeness auto
termination
  by (relation "measure (\<lambda>(str, len, idx, ret). unat len - unat idx)")
    (auto simp: loop_measure down_loop_measure)

definition str_to_int :: "char list option \<Rightarrow> u32 \<Rightarrow> i32 option" where
  "str_to_int str len =
     (if \<not> validate_input str len then Some ERRNO_II
      else do { s \<leftarrow> str;
                c0 \<leftarrow> rd s 0;
                r \<leftarrow> to_int_loop s len (if c0 = CHR ''-'' then 1 else 0) 0;
                (case r of
                   Inl early \<Rightarrow> Some early
                 | Inr ret \<Rightarrow> Some (if c0 = CHR ''-'' then - ret else ret)) })"

declare find_tail.simps [simp del] reverse_loop.simps [simp del] trim_start.simps [simp del]
  trim_end.simps [simp del] trim_copy.simps [simp del] to_int_loop.simps [simp del]

section \<open>What reversing does\<close>

lemma swap_character_eq:
  "unat x < length s \<Longrightarrow> unat y < length s \<Longrightarrow>
   swap_character s x y = Some (s[unat x := s ! unat y, unat y := s ! unat x])"
  by (simp add: swap_character_def mem_simps)

definition tail_of :: "char list \<Rightarrow> u32 \<Rightarrow> nat" where
  "tail_of s len =
     (let k = length (cstr (take (unat len) s)) in if k < unat len then k else unat len - 1)"

lemma find_tail_from:
  assumes "unat len \<le> length s" and "idx \<le> len"
  shows "find_tail s len idx = Some
    (let k = unat idx + length (cstr (drop (unat idx) (take (unat len) s)))
     in if k < unat len then word_of_nat k else len - 1)"
  using assms
proof (induction s len idx rule: find_tail.induct)
  case (1 s len idx)
  show ?case
  proof (cases "idx < len")
    case True
    then have d: "drop (unat idx) (take (unat len) s)
        = s ! unat idx # drop (Suc (unat idx)) (take (unat len) s)"
      and u: "unat idx < unat len"
      using "1.prems" by (simp_all add: mem_simps word_loop)
    then have "rd s idx = Some (s ! unat idx)"
      using "1.prems" by (simp add: mem_simps)
    with d u True 1 show ?thesis
      by (auto simp: find_tail.simps [of s len idx] is_null_def Let_def unat_Suc_lt unat_Suc_le)
  next
    case False
    with "1.prems" show ?thesis
      by (auto simp: find_tail.simps [of s len idx] word_less_nat_alt word_le_nat_alt)
  qed
qed

lemma find_tail_eq:
  assumes "unat len \<le> length s" and "0 < len"
  shows "find_tail s len 0 = Some (word_of_nat (tail_of s len))"
proof -
  have "word_of_nat (unat len - 1) = len - 1"
    using assms(2) by (metis unat_pred word_unat_eq_iff less_irrefl unat_of_nat_lt diff_le_self)
  then show ?thesis
    using find_tail_from [of len s 0] assms by (auto simp: tail_of_def Let_def)
qed

lemma unat_mirror:
  fixes tail idx :: u32
  assumes "idx < tail div 2"
  shows "unat (tail - idx - 1) = unat tail - Suc (unat idx)"
proof -
  have lt: "unat idx < unat tail div 2"
    using unat_lt [OF assms] by (simp add: unat_div_2)
  then have "unat (tail - idx) = unat tail - unat idx"
    by (intro unat_minus) (simp add: word_le_nat_alt)
  moreover from this lt have "tail - idx \<noteq> 0" by (auto simp: unat_eq_zero [symmetric])
  ultimately show ?thesis
    by (simp add: unat_pred)
qed

text \<open>The swaps mirror the first \<open>tail\<close> cells and leave the others.\<close>

lemma reverse_loop_nth:
  assumes "unat tail \<le> length s" and "idx \<le> tail div 2"
  shows "\<exists>r. reverse_loop s tail idx = Some r \<and> length r = length s \<and>
    (\<forall>j < length s. r ! j =
       (if unat idx \<le> j \<and> j < unat tail - unat idx then s ! (unat tail - Suc j) else s ! j))"
  using assms
proof (induction s tail idx rule: reverse_loop.induct)
  case (1 s tail idx)
  show ?case
  proof (cases "idx < tail div 2")
    case True
    define i where "i = unat idx"
    define t where "t = unat tail"
    define s' where "s' = s[i := s ! (t - Suc i), t - Suc i := s ! i]"
    have i: "Suc i \<le> t div 2" and t: "t \<le> length s" and m: "unat (tail - idx - 1) = t - Suc i"
      using unat_lt [OF True] "1.prems"(1) unat_mirror [OF True]
      by (simp_all add: i_def t_def unat_div_2)
    then have swap: "swap_character s idx (tail - idx - 1) = Some s'"
      by (subst swap_character_eq) (auto simp: s'_def i_def)
    have len: "length s' = length s" by (simp add: s'_def)
    obtain r where r: "reverse_loop s' tail (idx + 1) = Some r" "length r = length s"
      and nth: "\<forall>j < length s. r ! j =
        (if Suc i \<le> j \<and> j < t - Suc i then s' ! (t - Suc j) else s' ! j)"
      using "1.IH" [OF True swap] "1.prems"(1) True
      by (auto simp: len unat_Suc_lt unat_Suc_le i_def t_def)
    have "r ! j = (if i \<le> j \<and> j < t - i then s ! (t - Suc j) else s ! j)"
      if j: "j < length s" for j
    proof -
      consider "j = i" | "j = t - Suc i" | "Suc i \<le> j \<and> j < t - Suc i" | "j < i \<or> t - i \<le> j"
        by linarith
      then show ?thesis
        using nth [rule_format, OF j] i t j
        by cases (auto simp: s'_def nth_list_update)
    qed
    with r swap True show ?thesis
      by (auto simp: reverse_loop.simps [of s tail idx] i_def t_def)
  next
    case False
    with "1.prems" have "idx = tail div 2" by simp
    then have "unat idx = unat tail div 2" by (simp add: unat_div_2)
    then have "j = unat tail - Suc j" if "unat idx \<le> j" "j < unat tail - unat idx" for j
      using that by linarith
    with False show ?thesis
      by (auto simp: reverse_loop.simps [of s tail idx])
  qed
qed

lemma reverse_loop_eq:
  assumes "unat tail \<le> length s"
  shows "reverse_loop s tail 0 = Some (rev (take (unat tail) s) @ drop (unat tail) s)"
proof -
  obtain r where r: "reverse_loop s tail 0 = Some r" "length r = length s"
    and nth: "\<forall>j < length s. r ! j =
      (if j < unat tail then s ! (unat tail - Suc j) else s ! j)"
    using reverse_loop_nth [OF assms, of 0] by auto
  have "r = rev (take (unat tail) s) @ drop (unat tail) s"
    using r(2) assms nth by (intro nth_equalityI) (auto simp: nth_append rev_nth min_def)
  with r show ?thesis by simp
qed

lemma tail_of_le: "tail_of s len \<le> unat len"
  by (simp add: tail_of_def Let_def)

lemma str_reverse_eq:
  assumes "unat len \<le> length s" and "0 < len"
  shows "str_reverse (Some s) len =
    Some (SUCCESS, Some (rev (take (tail_of s len) s) @ drop (tail_of s len) s))"
  using assms find_tail_eq [OF assms] tail_of_le [of s len]
  by (simp add: str_reverse_def validate_input_def reverse_loop_eq unat_of_nat_lt)

section \<open>What trimming does\<close>

abbreviation sp :: "char \<Rightarrow> bool" where
  "sp c \<equiv> c = CHR '' ''"

text \<open>The reference: drop the spaces at the front, then those at the back.\<close>

definition strip :: "string \<Rightarrow> string" where
  "strip s = rev (dropWhile sp (rev (dropWhile sp s)))"

lemma strip_mid:
  assumes "m \<noteq> []" and "\<not> sp (hd m)" and "\<not> sp (last m)"
  shows "strip (replicate a (CHR '' '') @ m @ replicate b (CHR '' '')) = m"
proof -
  have "dropWhile sp (replicate a (CHR '' '') @ m @ replicate b (CHR '' ''))
      = m @ replicate b (CHR '' '')"
    using assms(1,2) by (cases m) (simp_all add: dropWhile_append)
  moreover have "dropWhile sp (rev (m @ replicate b (CHR '' ''))) = rev m"
    using assms(1,3) by (cases m rule: rev_cases) (simp_all add: dropWhile_append)
  ultimately show ?thesis by (simp add: strip_def)
qed

lemma strip_spaces: "strip (replicate a (CHR '' '')) = []"
  by (simp add: strip_def)

lemma trim_start_from:
  assumes "unat len \<le> length s" and "start \<le> len"
  shows "\<exists>r. trim_start s len start = Some r \<and>
    unat r = unat start + length (takeWhile sp (drop (unat start) (take (unat len) s)))"
  using assms
proof (induction s len start rule: trim_start.induct)
  case (1 s len start)
  show ?case
  proof (cases "start < len")
    case True
    then have d: "drop (unat start) (take (unat len) s)
        = s ! unat start # drop (Suc (unat start)) (take (unat len) s)"
      and u: "unat start < unat len"
      using "1.prems" by (simp_all add: mem_simps word_loop)
    then have "rd s start = Some (s ! unat start)"
      using "1.prems" by (simp add: mem_simps)
    with d True 1 show ?thesis
      by (auto simp: trim_start.simps [of s len start] unat_Suc_lt unat_Suc_le)
  next
    case False
    with "1.prems" show ?thesis
      by (auto simp: trim_start.simps [of s len start] word_le_nat_alt word_less_nat_alt)
  qed
qed

lemma trim_end_from:
  assumes "unat e < length s" and "start \<le> e"
  shows "\<exists>r. trim_end s start e = Some r \<and> start \<le> r \<and> r \<le> e \<and>
    (r = start \<or> \<not> sp (s ! unat r)) \<and> (\<forall>j. unat r < j \<and> j \<le> unat e \<longrightarrow> sp (s ! j))"
  using assms
proof (induction s start e rule: trim_end.induct)
  case (1 s start e)
  show ?case
  proof (cases "start < e \<and> sp (s ! unat e)")
    case True
    then have u: "unat (e - 1) = unat e - 1" and p: "0 < unat e" and le: "start \<le> e - 1"
      by unat_arith+
    have cond: "e > start" "rd s e = Some (CHR '' '')" "CHR '' '' = CHR '' ''"
      using True "1.prems" by (simp_all add: mem_simps)
    have "unat (e - 1) < length s" using "1.prems"(1) u by simp
    from "1.IH" [OF cond this le]
    obtain r where r: "trim_end s start (e - 1) = Some r" "start \<le> r" "r \<le> e - 1"
        "r = start \<or> \<not> sp (s ! unat r)"
      and sps: "\<forall>j. unat r < j \<and> j \<le> unat e - 1 \<longrightarrow> sp (s ! j)"
      unfolding u by blast
    have "e - 1 \<le> e" using p u by (simp add: word_le_nat_alt)
    moreover have "sp (s ! j)" if "unat r < j" "j \<le> unat e" for j
      using that sps True p by (cases "j = unat e") auto
    ultimately show ?thesis
      using r cond by (auto simp: trim_end.simps [of s start e])
  next
    case False
    with "1.prems" show ?thesis
      by (auto simp: trim_end.simps [of s start e] mem_simps)
  qed
qed

lemma trim_copy_nth:
  assumes "unat len \<le> length s" and "idx \<le> len" and "e < len"
    and "unat len + unat start \<le> 4294967296"
  shows "\<exists>r. trim_copy s len start e idx = Some r \<and> length r = length s \<and>
    (\<forall>j < length s. r ! j =
       (if unat idx \<le> j \<and> j < unat len
        then if j + unat start \<le> unat e then s ! (j + unat start) else NUL else s ! j))"
  using assms
proof (induction s len start e idx rule: trim_copy.induct)
  case (1 s len start e idx)
  show ?case
  proof (cases "idx < len")
    case True
    define i where "i = unat idx"
    define c where "c = (if i + unat start \<le> unat e then s ! (i + unat start) else NUL)"
    have i: "i < unat len" and e: "unat e < unat len"
      using unat_lt [OF True] unat_lt [OF "1.prems"(3)] by (simp_all add: i_def)
    then have sum: "unat (idx + start) = i + unat start"
      using "1.prems"(4) by (simp add: i_def unat_word_ariths)
    have c: "(if idx + start \<le> e then rd s (idx + start) else Some NUL) = Some c"
      using sum e "1.prems"(1) by (simp add: c_def word_le_nat_alt mem_simps)
    have w: "wr s idx c = Some (s[i := c])"
      using i "1.prems"(1) by (simp add: mem_simps i_def)
    have len: "unat len \<le> length (s[i := c])"
      using "1.prems"(1) by simp
    from "1.IH" [OF True c w len unat_Suc_le [OF True] "1.prems"(3,4)]
    obtain r where r: "trim_copy (s[i := c]) len start e (idx + 1) = Some r" "length r = length s"
      and nth: "\<And>j. j < length s \<Longrightarrow> r ! j =
        (if Suc i \<le> j \<and> j < unat len
         then if j + unat start \<le> unat e then s[i := c] ! (j + unat start) else NUL
         else s[i := c] ! j)"
      by (auto simp: unat_Suc_lt [OF True] i_def)
    have "r ! j = (if i \<le> j \<and> j < unat len
        then if j + unat start \<le> unat e then s ! (j + unat start) else NUL else s ! j)"
      if j: "j < length s" for j
      using nth [OF j] i j by (cases "j = i") (auto simp: c_def nth_list_update)
    with r c w True show ?thesis
      by (auto simp: trim_copy.simps [of s len start e idx] i_def)
  next
    case False
    with "1.prems" show ?thesis
      by (auto simp: trim_copy.simps [of s len start e idx] word_less_nat_alt word_le_nat_alt)
  qed
qed

lemma nth_takeWhile_sp: "j < length (takeWhile sp w) \<Longrightarrow> w ! j = CHR '' ''"
  by (metis (mono_tags, lifting) nth_mem set_takeWhileD takeWhile_nth)

text \<open>The trimmed text, then NULs up to \<open>len\<close>, then the cells beyond \<open>len\<close>.\<close>

definition trimmed :: "char list \<Rightarrow> nat \<Rightarrow> char list" where
  "trimmed s n = strip (take n s) @ replicate (n - length (strip (take n s))) NUL @ drop n s"

lemma trim_decomp:
  assumes n: "n \<le> length s" and st: "st = length (takeWhile sp (take n s))"
    and se: "st \<le> e" and e: "e < n" and ns: "e = st \<or> \<not> sp (s ! e)"
    and sps: "\<forall>j. e < j \<and> j \<le> n - 1 \<longrightarrow> sp (s ! j)"
  shows "strip (take n s) = drop st (take (Suc e) s)"
proof -
  let ?m = "drop st (take (Suc e) s)"
  have ne: "?m \<noteq> []" using se e n by simp
  have hd: "\<not> sp (s ! st)"
    using nth_length_takeWhile [of sp "take n s"] st se e n by simp
  have "take st s = replicate st (CHR '' '')"
    using st nth_takeWhile_sp [of _ "take n s"] se e n by (intro nth_equalityI) auto
  moreover have "drop (Suc e) (take n s) = replicate (n - Suc e) (CHR '' '')"
    using sps e n by (intro nth_equalityI) auto
  moreover have "take n s = take st s @ ?m @ drop (Suc e) (take n s)"
    using se e n by (metis append.assoc append_take_drop_id drop_take le_SucI less_eq_Suc_le min.absorb1
        take_add take_take le_add_diff_inverse min.absorb_iff1)
  ultimately have "take n s = replicate st (CHR '' '') @ ?m @ replicate (n - Suc e) (CHR '' '')"
    by simp
  moreover have "\<not> sp (hd ?m)" using hd ne se e n by (simp add: hd_drop_conv_nth)
  moreover have "last ?m = s ! e"
    using ne se e n by (simp add: take_Suc_conv_app_nth)
  then have "\<not> sp (last ?m)" using hd ns by auto
  ultimately show ?thesis using ne strip_mid [of ?m st "n - Suc e"] by metis
qed

lemma trim_loops:
  assumes n: "unat len \<le> length s" and pos: "0 < len"
  obtains start e where
    "trim_start s len 0 = Some start" "trim_end s start (len - 1) = Some e"
    "e < len" "unat start \<le> unat len"
    "unat start < unat len \<Longrightarrow>
       strip (take (unat len) s) = drop (unat start) (take (Suc (unat e)) s)"
    "\<not> unat start < unat len \<Longrightarrow> strip (take (unat len) s) = []"
proof -
  define n where "n = unat len"
  have n1: "unat (len - 1) = n - 1" "0 < n" "n \<le> length s" "len - 1 < len"
    using pos n by (auto simp: n_def unat_pred unat_gt_0 word_less_nat_alt)
  obtain start where start: "trim_start s len 0 = Some start"
    and st: "unat start = length (takeWhile sp (take n s))"
    using trim_start_from [OF n, of 0] by (auto simp: n_def)
  have st_le: "unat start \<le> n"
    using length_takeWhile_le [of sp "take n s"] n1 by (simp add: st)
  show thesis
  proof (cases "unat start < n")
    case True
    then have "start \<le> len - 1" and "unat (len - 1) < length s"
      using n1 by (simp_all add: word_le_nat_alt)
    from trim_end_from [OF this(2,1)] obtain e where
      e: "trim_end s start (len - 1) = Some e" "start \<le> e" "e \<le> len - 1"
        "e = start \<or> \<not> sp (s ! unat e)" "\<forall>j. unat e < j \<and> j \<le> n - 1 \<longrightarrow> sp (s ! j)"
      unfolding n1(1) by blast
    then have lt: "e < len" using n1(4) by simp
    have "strip (take n s) = drop (unat start) (take (Suc (unat e)) s)"
      using e lt n1 st by (intro trim_decomp) (auto simp: word_le_nat_alt word_less_nat_alt n_def)
    with that [OF start e(1) lt] True st_le show thesis by (simp add: n_def)
  next
    case False
    then have eq: "unat start = n" using st_le by simp
    then have "takeWhile sp (take n s) = take n s"
      using st n1 by (metis length_take min.absorb2 takeWhile_eq_take take_all_iff order_refl)
    then have "dropWhile sp (take n s) = []"
      by (metis takeWhile_dropWhile_id append_self_conv)
    then have "strip (take n s) = []" by (simp only: strip_def rev.simps dropWhile.simps)
    moreover have "\<not> len - 1 > start" using n1 eq by (simp add: word_less_nat_alt)
    ultimately show thesis
      using that [OF start _ n1(4)] False st_le
      by (simp add: trim_end.simps [of s start "len - 1"] n_def)
  qed
qed

lemma str_trim_eq:
  assumes n: "unat len \<le> length s" and pos: "0 < len" and small: "unat len \<le> 2147483648"
  shows "str_trim (Some s) len = Some (SUCCESS, Some (trimmed s (unat len)))"
proof -
  obtain start e where loops: "trim_start s len 0 = Some start"
      "trim_end s start (len - 1) = Some e" and lt: "e < len" and st: "unat start \<le> unat len"
    and mid: "unat start < unat len \<Longrightarrow>
       strip (take (unat len) s) = drop (unat start) (take (Suc (unat e)) s)"
    and none: "\<not> unat start < unat len \<Longrightarrow> strip (take (unat len) s) = []"
    using trim_loops [OF n pos] by blast
  obtain r where r: "trim_copy s len start e 0 = Some r" "length r = length s"
    and nth: "\<And>j. j < length s \<Longrightarrow> r ! j =
      (if j < unat len then if j + unat start \<le> unat e then s ! (j + unat start) else NUL
       else s ! j)"
    using trim_copy_nth [OF n _ lt, of 0 start] small st by auto
  have "r = trimmed s (unat len)"
  proof (cases "unat start < unat len")
    case True
    then show ?thesis
      using r(2) n unat_lt [OF lt] nth
      by (intro nth_equalityI) (auto simp: trimmed_def mid nth_append add.commute)
  next
    case False
    then show ?thesis
      using r(2) n unat_lt [OF lt] nth
      by (intro nth_equalityI) (auto simp: trimmed_def none nth_append)
  qed
  with loops r pos show ?thesis
    by (simp add: str_trim_def validate_input_def)
qed

section \<open>What parsing does\<close>

text \<open>The value of a string of digits, and the parser's reference over it.\<close>

definition dec_value :: "string \<Rightarrow> nat" where
  "dec_value ds = foldl (\<lambda>v c. v * 10 + (of_char c - 48)) 0 ds"

definition int_of_str :: "string \<Rightarrow> i32" where
  "int_of_str body =
     (let neg = (body \<noteq> [] \<and> hd body = CHR ''-''); ds = (if neg then tl body else body)
      in if \<forall>c \<in> set ds. is_digit c
         then (if neg then - word_of_nat (dec_value ds) else word_of_nat (dec_value ds))
         else INT32_MAX)"

lemma to_int_loop_from:
  assumes "unat len \<le> length s" and "idx \<le> len"
  shows "to_int_loop s len idx ret =
    (let body = cstr (drop (unat idx) (take (unat len) s))
     in Some (if \<forall>c \<in> set body. is_digit c
              then Inr (foldl (\<lambda>v c. v * 10 + (of_char c - 48)) ret body) else Inl INT32_MAX))"
  using assms
proof (induction s len idx ret rule: to_int_loop.induct)
  case (1 s len idx ret)
  show ?case
  proof (cases "idx < len")
    case True
    then have d: "drop (unat idx) (take (unat len) s)
        = s ! unat idx # drop (Suc (unat idx)) (take (unat len) s)"
      and u: "unat idx < unat len"
      using "1.prems" by (simp_all add: mem_simps word_loop)
    then have "rd s idx = Some (s ! unat idx)"
      using "1.prems" by (simp add: mem_simps)
    with d True 1 show ?thesis
      by (auto simp: to_int_loop.simps [of s len idx ret] is_null_def unat_Suc_lt unat_Suc_le Let_def)
  next
    case False
    with "1.prems" show ?thesis
      by (auto simp: to_int_loop.simps [of s len idx ret] word_less_nat_alt word_le_nat_alt)
  qed
qed

lemma foldl_digits_word:
  "(\<forall>c \<in> set ds. is_digit c) \<Longrightarrow>
   foldl (\<lambda>v c. v * 10 + (of_char c - 48)) (word_of_nat r :: u32) ds =
   word_of_nat (foldl (\<lambda>v c. v * 10 + (of_char c - 48)) r ds)"
proof (induction ds arbitrary: r)
  case Nil
  then show ?case by simp
next
  case (Cons c ds)
  then have "48 \<le> (of_char c :: nat)" by (simp add: is_digit_def)
  then have "(of_char c - 48 :: u32) = word_of_nat (of_char c - 48)"
    by (simp add: of_nat_diff of_nat_of_char)
  then have "word_of_nat r * 10 + (of_char c - 48 :: u32) = word_of_nat (r * 10 + (of_char c - 48))"
    by simp
  with Cons show ?case by (simp del: of_nat_add of_nat_mult)
qed

lemma str_to_int_eq:
  assumes "unat len \<le> length s" and "0 < len"
  shows "str_to_int (Some s) len = Some (int_of_str (cstr (take (unat len) s)))"
proof -
  have pos: "0 < unat len" "s \<noteq> []" using assms by (auto simp: word_less_nat_alt)
  then obtain c r where s: "s = c # r" by (cases s) auto
  have body: "cstr (take (unat len) s) = (if c = NUL then [] else c # cstr (take (unat len - 1) r))"
    using pos s by (cases "unat len") simp_all
  have drop1: "cstr (drop 1 (take (unat len) s)) = cstr (take (unat len - 1) r)"
    using pos s by (cases "unat len") simp_all
  have one: "1 \<le> len" using assms(2) by (simp add: word_le_nat_alt word_less_nat_alt)
  have digs: "\<forall>c \<in> set ds. is_digit c \<Longrightarrow>
      foldl (\<lambda>v c. v * 10 + (of_char c - 48)) 0 ds = (word_of_nat (dec_value ds) :: u32)" for ds
    using foldl_digits_word [of ds 0] by (simp add: dec_value_def)
  show ?thesis
  proof (cases "c = CHR ''-''")
    case True
    with to_int_loop_from [OF assms(1) one, of 0] show ?thesis
      using assms(2) pos s body drop1
      by (auto simp: str_to_int_def validate_input_def mem_simps int_of_str_def digs Let_def)
  next
    case False
    with to_int_loop_from [OF assms(1), of 0 0] show ?thesis
      using assms(2) pos s body
      by (auto simp: str_to_int_def validate_input_def mem_simps int_of_str_def digs Let_def)
  qed
qed

lemma dec_value_append: "dec_value (xs @ [c]) = dec_value xs * 10 + (of_char c - 48)"
  by (simp add: dec_value_def)

lemma dec_value_show_nat [simp]: "dec_value (show_nat n) = n"
proof (induction n rule: show_nat.induct)
  case (1 n)
  show ?case
  proof (cases "n < 10")
    case True
    then show ?thesis by (subst show_nat.simps) (simp add: dec_value_def of_char_digit)
  next
    case False
    with 1 show ?thesis by (subst show_nat.simps) (simp add: dec_value_append of_char_digit)
  qed
qed

lemma is_digit_digit: "d < 10 \<Longrightarrow> is_digit (digit d)"
  by (simp add: is_digit_def of_char_digit)

lemma int_of_show_int: "int_of_str (show_int i) = word_of_int i"
proof -
  have digs: "\<forall>c \<in> set (show_nat n). is_digit c" for n
    using show_nat_digits is_digit_digit by blast
  have "\<not> is_digit (CHR ''-'')" by (simp add: is_digit_def)
  then have "hd (show_nat n) \<noteq> CHR ''-''" for n
    using digs [of n] show_nat_nonempty [of n] by (metis hd_in_set)
  with digs show ?thesis
    by (auto simp: int_of_str_def show_int_def show_nat_nonempty Let_def)
qed

section \<open>Properties\<close>

lemma unat_pos: "0 < len \<longleftrightarrow> 0 < unat (len :: u32)"
  by (simp add: word_less_nat_alt)

lemma length_cstr_take: "length (cstr (take n s)) \<le> n"
  using length_cstr_le [of "take n s"] by simp

lemma cstr_take_of_NUL:
  "length (cstr (take n s)) < n \<Longrightarrow> n \<le> length s \<Longrightarrow> cstr s = cstr (take n s)"
proof (induction s arbitrary: n)
  case (Cons c s)
  then show ?case by (cases n) (auto split: if_splits)
qed simp

lemma tail_of_terminated: "length (cstr (take (unat len) s)) < unat len \<Longrightarrow> unat len \<le> length s \<Longrightarrow>
    tail_of s len = length (cstr s)"
  using cstr_take_of_NUL [of "unat len" s] by (simp add: tail_of_def Let_def)

lemma cstr_rev_prefix: "cstr (rev (cstr s) @ drop (length (cstr s)) s) = rev (cstr s)"
proof -
  have "drop (length (cstr s)) s = [] \<or> hd (drop (length (cstr s)) s) = NUL"
    using nth_length_cstr [of s] by (metis drop_eq_Nil hd_drop_conv_nth not_le)
  moreover have "NUL \<notin> set (rev (cstr s))" by simp
  ultimately show ?thesis by (cases "drop (length (cstr s)) s") auto
qed

text \<open>
  C32: on a buffer with a terminating NUL below \<open>len\<close>, \<open>str_reverse\<close> succeeds, reverses the
  string in place and leaves the NUL and everything after it as it was; so the string the
  buffer holds is the reverse of the one it held.
\<close>

theorem str_reverse_terminated:
  assumes "unat len \<le> length s" and "length (cstr (take (unat len) s)) < unat len"
  shows "\<exists>s'. str_reverse (Some s) len = Some (SUCCESS, Some s') \<and> cstr s' = rev (cstr s) \<and>
    length s' = length s \<and> drop (length (cstr s)) s' = drop (length (cstr s)) s"
proof -
  have "0 < len" using assms(2) by (simp add: unat_pos)
  then have "str_reverse (Some s) len =
      Some (SUCCESS, Some (rev (cstr s) @ drop (length (cstr s)) s))"
    using str_reverse_eq [OF assms(1)] tail_of_terminated [OF assms(2,1)]
    by (simp add: cstr_take_length)
  then show ?thesis using length_cstr_le [of s] by (simp add: cstr_rev_prefix)
qed

theorem str_reverse_terminated_witness:
  "\<exists>s'. str_reverse (Some (''abc'' @ [NUL])) 4 = Some (SUCCESS, Some s') \<and> cstr s' = ''cba''"
  using str_reverse_terminated [of 4 "''abc'' @ [NUL]"] by auto

text \<open>
  without a NUL below \<open>len\<close>, which is how a caller passes a string with its \<open>strlen\<close>,
  \<open>str_reverse\<close> reverses only the first \<open>len - 1\<close> characters and leaves the last one
  in its place: the index of the last character is taken for the length.
\<close>

theorem str_reverse_unterminated:
  assumes "0 < len" and "unat len \<le> length s" and "NUL \<notin> set (take (unat len) s)"
  shows "str_reverse (Some s) len =
    Some (SUCCESS, Some (rev (take (unat len - 1) s) @ s ! (unat len - 1) # drop (unat len) s))"
proof -
  have "tail_of s len = unat len - 1"
    using assms(2,3) by (simp add: tail_of_def)
  moreover have "drop (unat len - 1) s = s ! (unat len - 1) # drop (unat len) s"
    using assms(1,2) by (subst Cons_nth_drop_Suc [symmetric]) (auto simp: unat_pos)
  ultimately show ?thesis using str_reverse_eq [OF assms(2,1)] by simp
qed

theorem str_reverse_unterminated_witness:
  "str_reverse (Some ''abc'') 3 = Some (SUCCESS, Some ''bac'')"
  using str_reverse_unterminated [of 3 "''abc''"] by simp

text \<open>
  C31: \<open>str_trim\<close> of \<open>len\<close> characters without NUL leaves the string without its leading
  and trailing spaces, padded with NULs up to \<open>len\<close>, and the cells from \<open>len\<close> on
  untouched. The bound on \<open>len\<close> keeps the 32-bit sum \<open>idx + start\<close> from wrapping.
\<close>

theorem str_trim_strips:
  assumes "0 < len" and "unat len \<le> 2147483648" and "unat len \<le> length s"
    and "NUL \<notin> set (take (unat len) s)"
  shows "\<exists>s'. str_trim (Some s) len = Some (SUCCESS, Some s') \<and>
    cstr (take (unat len) s') = strip (take (unat len) s) \<and>
    (\<forall>j < unat len. length (strip (take (unat len) s)) \<le> j \<longrightarrow> s' ! j = NUL) \<and>
    drop (unat len) s' = drop (unat len) s"
proof -
  let ?m = "strip (take (unat len) s)"
  have sub: "set ?m \<subseteq> set (take (unat len) s)"
    by (auto simp: strip_def dest!: set_dropWhileD)
  have le: "length ?m \<le> unat len"
    using assms(3) length_dropWhile_le [of sp "rev (dropWhile sp (take (unat len) s))"]
      length_dropWhile_le [of sp "take (unat len) s"]
    by (simp add: strip_def)
  have "NUL \<notin> set ?m" using sub assms(4) by blast
  then show ?thesis
    using str_trim_eq [OF assms(3,1,2)] le by (auto simp: trimmed_def nth_append)
qed

theorem str_trim_strips_witness:
  "\<exists>s'. str_trim (Some '' a b  '') 6 = Some (SUCCESS, Some s') \<and> cstr (take 6 s') = ''a b''"
  using str_trim_strips [of 6 "'' a b  ''"] by (auto simp: strip_def)

text \<open>
  C29: parsing inverts printing. For every value of \<open>int32_t\<close>, \<open>str_to_int\<close> of its
  decimal notation, with or without a NUL and more characters behind it, is that value.
\<close>

theorem str_to_int_roundtrip:
  assumes "- 2147483648 \<le> i" and "i < 2147483648"
    and "unat len \<le> length (show_int i @ r)" and "length (show_int i) \<le> unat len"
    and "r = [] \<or> length (show_int i) = unat len \<or> hd r = NUL"
  shows "\<exists>w. str_to_int (Some (show_int i @ r)) len = Some w \<and> sint w = i"
proof -
  have nn: "NUL \<notin> set (show_int i)" by (simp add: show_int_def show_nat_no_NUL)
  have "show_int i \<noteq> []" by (simp add: show_int_def show_nat_nonempty)
  then have "0 < length (show_int i)" by simp
  then have "0 < unat len" using assms(4) by linarith
  then have "0 < len" by (simp add: unat_pos)
  moreover have "cstr (take (unat len) (show_int i @ r)) = show_int i"
    using assms(3-5) nn by (cases r; cases "unat len - length (show_int i)") auto
  ultimately have "str_to_int (Some (show_int i @ r)) len = Some (word_of_int i)"
    using str_to_int_eq [OF assms(3)] by (simp add: int_of_show_int)
  then show ?thesis
    using assms(1,2) by (simp add: signed_of_int signed_take_bit_int_eq_self)
qed

theorem str_to_int_roundtrip_witness:
  "\<exists>w. str_to_int (Some (show_int (-42) @ [NUL, CHR ''x''])) 4 = Some w \<and> sint w = -42"
  by (rule str_to_int_roundtrip) (simp_all add: show_int_def show_nat.simps)

text \<open>
  C30: a string of digits is accepted whatever its value; the result is the value modulo
  2 to the 32. So nothing tells a number out of range from one in range, and 2147483647
  is the same result as the error for a non-digit.
\<close>

theorem str_to_int_wraps:
  assumes "0 < len" and "unat len \<le> length s" and "\<forall>c \<in> set (cstr (take (unat len) s)). is_digit c"
  shows "\<exists>w. str_to_int (Some s) len = Some w \<and>
    unat w = dec_value (cstr (take (unat len) s)) mod 4294967296"
proof -
  have "\<not> is_digit (CHR ''-'')" by (simp add: is_digit_def)
  then have "cstr (take (unat len) s) = [] \<or> hd (cstr (take (unat len) s)) \<noteq> CHR ''-''"
    using assms(3) hd_in_set by metis
  then have "int_of_str (cstr (take (unat len) s)) = word_of_nat (dec_value (cstr (take (unat len) s)))"
    using assms(3) by (auto simp: int_of_str_def)
  then show ?thesis
    using str_to_int_eq [OF assms(2,1)] by (simp add: unat_of_nat)
qed

theorem str_to_int_wraps_witness:
  "\<exists>w. str_to_int (Some ''4294967299'') 10 = Some w \<and> unat w = 3"
  using str_to_int_wraps [of 10 "''4294967299''"] by (auto simp: is_digit_def dec_value_def)

end
