(* ===== verification/ErrorHandler.thy ===== *)
theory ErrorHandler
  imports Prelude
begin

text \<open>
  \<open>CmnBase/error_handler.c\<close>: the table of errno names that the logger indexes, and
  \<open>terminate\<close>, the one way the programs end early.
\<close>

definition MAX_ENAME :: nat where
  "MAX_ENAME = 132"

definition ename :: "string list" where
  "ename = [
   '''',
   ''EPERM'', ''ENOENT'', ''ESRCH'', ''EINTR'', ''EIO'', ''ENXIO'', ''E2BIG'',
   ''ENOEXEC'', ''EBADF'', ''ECHILD'', ''EAGAIN/EWOULDBLOCK'', ''ENOMEM'',
   ''EACCES'', ''EFAULT'', ''ENOTBLK'', ''EBUSY'', ''EEXIST'', ''EXDEV'',
   ''ENODEV'', ''ENOTDIR'', ''EISDIR'', ''EINVAL'', ''ENFILE'', ''EMFILE'',
   ''ENOTTY'', ''ETXTBSY'', ''EFBIG'', ''ENOSPC'', ''ESPIPE'', ''EROFS'',
   ''EMLINK'', ''EPIPE'', ''EDOM'', ''ERANGE'', ''EDEADLK/EDEADLOCK'',
   ''ENAMETOOLONG'', ''ENOLCK'', ''ENOSYS'', ''ENOTEMPTY'', ''ELOOP'', '''',
   ''ENOMSG'', ''EIDRM'', ''ECHRNG'', ''EL2NSYNC'', ''EL3HLT'', ''EL3RST'',
   ''ELNRNG'', ''EUNATCH'', ''ENOCSI'', ''EL2HLT'', ''EBADE'', ''EBADR'',
   ''EXFULL'', ''ENOANO'', ''EBADRQC'', ''EBADSLT'', '''', ''EBFONT'', ''ENOSTR'',
   ''ENODATA'', ''ETIME'', ''ENOSR'', ''ENONET'', ''ENOPKG'', ''EREMOTE'',
   ''ENOLINK'', ''EADV'', ''ESRMNT'', ''ECOMM'', ''EPROTO'', ''EMULTIHOP'',
   ''EDOTDOT'', ''EBADMSG'', ''EOVERFLOW'', ''ENOTUNIQ'', ''EBADFD'',
   ''EREMCHG'', ''ELIBACC'', ''ELIBBAD'', ''ELIBSCN'', ''ELIBMAX'',
   ''ELIBEXEC'', ''EILSEQ'', ''ERESTART'', ''ESTRPIPE'', ''EUSERS'',
   ''ENOTSOCK'', ''EDESTADDRREQ'', ''EMSGSIZE'', ''EPROTOTYPE'',
   ''ENOPROTOOPT'', ''EPROTONOSUPPORT'', ''ESOCKTNOSUPPORT'',
   ''EOPNOTSUPP/ENOTSUP'', ''EPFNOSUPPORT'', ''EAFNOSUPPORT'',
   ''EADDRINUSE'', ''EADDRNOTAVAIL'', ''ENETDOWN'', ''ENETUNREACH'',
   ''ENETRESET'', ''ECONNABORTED'', ''ECONNRESET'', ''ENOBUFS'', ''EISCONN'',
   ''ENOTCONN'', ''ESHUTDOWN'', ''ETOOMANYREFS'', ''ETIMEDOUT'',
   ''ECONNREFUSED'', ''EHOSTDOWN'', ''EHOSTUNREACH'', ''EALREADY'',
   ''EINPROGRESS'', ''ESTALE'', ''EUCLEAN'', ''ENOTNAM'', ''ENAVAIL'',
   ''EISNAM'', ''EREMOTEIO'', ''EDQUOT'', ''ENOMEDIUM'', ''EMEDIUMTYPE'',
   ''ECANCELED'', ''ENOKEY'', ''EKEYEXPIRED'', ''EKEYREVOKED'',
   ''EKEYREJECTED'', ''EOWNERDEAD'', ''ENOTRECOVERABLE'', ''ERFKILL'']"

lemma length_ename: "length ename = Suc MAX_ENAME"
  by (simp add: ename_def MAX_ENAME_def)

text \<open>How a process ends: \<open>abort()\<close>, \<open>exit(status)\<close> or \<open>_exit(status)\<close>.\<close>

datatype ending = Abort | Exit int | UnderscoreExit int

definition EXIT_FAILURE :: int where
  "EXIT_FAILURE = 1"

definition EXIT_SUCCESS :: int where
  "EXIT_SUCCESS = 0"

text \<open>\<open>dumpcore\<close> is what \<open>getenv("EF_DUMPCORE")\<close> returns.\<close>

definition terminate :: "string option \<Rightarrow> int \<Rightarrow> bool \<Rightarrow> ending" where
  "terminate dumpcore status useExit3 =
     (if dumpcore \<noteq> None \<and> cstr (the dumpcore) \<noteq> [] then Abort
      else if useExit3 then Exit status
      else UnderscoreExit status)"

text \<open>How a run of a \<open>main\<close> is over: it returned, or it terminated on the way.\<close>

datatype outcome = Returns int | Ends ending

end
