(* ===== verification/Log.thy ===== *)
theory Log
  imports ErrorHandler
begin

text \<open>
  \<open>CmnBase/log.c\<close>, \<open>CmnBase/log.h\<close>: the logger. Its state is the static \<open>L\<close>; a call of
  \<open>log_log\<close> is the list of what it does, in order: the calls of the lock function, the
  texts written to a stream, the calls of user callbacks. What libc supplies is an
  argument: the clock, \<open>strftime\<close>'s rendering of a time, \<open>errno\<close> and \<open>strerror\<close>.
\<close>

section \<open>Levels and macros\<close>

definition LOG_TRACE :: int where "LOG_TRACE = 0"
definition LOG_DEBUG :: int where "LOG_DEBUG = 1"
definition LOG_INFO :: int where "LOG_INFO = 2"
definition LOG_WARN :: int where "LOG_WARN = 3"
definition LOG_ERROR :: int where "LOG_ERROR = 4"
definition LOG_FATAL :: int where "LOG_FATAL = 5"

lemmas log_levels = LOG_TRACE_def LOG_DEBUG_def LOG_INFO_def LOG_WARN_def LOG_ERROR_def LOG_FATAL_def

text \<open>
  A call of a logging macro as its caller makes it: level, \<open>print_ne\<close>, format and
  arguments. The programs of the other theories emit these.
\<close>

datatype arg = ArgS string | ArgI int

datatype log_call = LogCall (lc_level: int) (lc_ne: bool) (lc_fmt: string) (lc_args: "arg list")

definition log_trace :: "string \<Rightarrow> arg list \<Rightarrow> log_call" where
  "log_trace = LogCall LOG_TRACE False"

definition log_debug :: "string \<Rightarrow> arg list \<Rightarrow> log_call" where
  "log_debug = LogCall LOG_DEBUG False"

definition log_info :: "string \<Rightarrow> arg list \<Rightarrow> log_call" where
  "log_info = LogCall LOG_INFO False"

definition log_warn :: "string \<Rightarrow> arg list \<Rightarrow> log_call" where
  "log_warn = LogCall LOG_WARN False"

definition log_error :: "string \<Rightarrow> arg list \<Rightarrow> log_call" where
  "log_error = LogCall LOG_ERROR False"

definition log_fatal :: "string \<Rightarrow> arg list \<Rightarrow> log_call" where
  "log_fatal = LogCall LOG_FATAL False"

definition log_error_ne :: "string \<Rightarrow> arg list \<Rightarrow> log_call" where
  "log_error_ne = LogCall LOG_ERROR True"

lemmas log_macros = log_trace_def log_debug_def log_info_def log_warn_def log_error_def
  log_fatal_def log_error_ne_def

text \<open>A text between single quotes, for the formats that have them.\<close>

definition squoted :: "string \<Rightarrow> string" where
  "squoted s = CHR 0x27 # s @ [CHR 0x27]"

section \<open>State and events\<close>

text \<open>
  The functions a slot can hold: \<open>file_callback\<close>, or one the user supplied, known by
  number; \<open>None\<close> is a null pointer. A \<open>udata\<close> is an opaque address.
\<close>

datatype log_fn = FileCallback | UserCallback nat

record callback =
  cb_fn :: "log_fn option"
  cb_udata :: nat
  cb_level :: int

definition MAX_CALLBACKS :: nat where
  "MAX_CALLBACKS = 32"

record logger =
  l_udata :: nat
  l_lock :: "nat option"
  l_level :: int
  l_quiet :: bool
  l_callbacks :: "callback list"

text \<open>A static object starts zeroed: level \<open>LOG_TRACE\<close>, not quiet, every slot free.\<close>

definition logger_init :: logger where
  "logger_init = \<lparr>l_udata = 0, l_lock = None, l_level = 0, l_quiet = False,
     l_callbacks = replicate MAX_CALLBACKS \<lparr>cb_fn = None, cb_udata = 0, cb_level = 0\<rparr>\<rparr>"

record 't log_event =
  ev_call :: log_call
  ev_file :: string
  ev_line :: int
  ev_time :: "'t option"
  ev_udata :: nat

datatype 't log_act = LockCall nat bool nat | Write nat string | UserCall nat "'t log_event"

section \<open>Text\<close>

text \<open>The conversions the programs use: \<open>%s\<close>, \<open>%d\<close>, \<open>%u\<close>, \<open>%ld\<close>, \<open>%lld\<close>.\<close>

fun show_arg :: "arg \<Rightarrow> string" where
  "show_arg (ArgS s) = cstr s"
| "show_arg (ArgI i) = show_int i"

fun skip_conv :: "string \<Rightarrow> string" where
  "skip_conv (c # r) = (if c = CHR ''l'' then skip_conv r else r)"
| "skip_conv [] = []"

lemma length_skip_conv [termination_simp]: "length (skip_conv s) \<le> length s"
  by (induction s) auto

fun vformat :: "string \<Rightarrow> arg list \<Rightarrow> string" where
  "vformat [] as = []"
| "vformat (c # r) as =
     (if c = CHR ''%''
      then (case as of [] \<Rightarrow> [] | a # as' \<Rightarrow> show_arg a @ vformat (skip_conv r) as')
      else c # vformat r as)"

text \<open>\<open>%-5s\<close>: padded on the right to five columns.\<close>

definition pad5 :: "string \<Rightarrow> string" where
  "pad5 s = s @ replicate (5 - length s) (CHR '' '')"

definition level_strings :: "string list" where
  "level_strings = [''TRACE'', ''DEBUG'', ''INFO'', ''WARN'', ''ERROR'', ''FATAL'']"

definition ESC :: string where
  "ESC = [CHR 0x1B]"

definition level_colors :: "string list" where
  "level_colors = [ESC @ ''[94m'', ESC @ ''[36m'', ESC @ ''[32m'', ESC @ ''[33m'',
     ESC @ ''[31m'', ESC @ ''[35m'']"

definition level_index :: "'a list \<Rightarrow> int \<Rightarrow> 'a option" where
  "level_index xs l = (if 0 \<le> l \<and> nat l < length xs then Some (xs ! nat l) else None)"

definition log_level_string :: "int \<Rightarrow> string option" where
  "log_level_string level = level_index level_strings level"

text \<open>The name of an errno, by the table of \<open>error_handler.c\<close>; \<open>err\<close> is an \<open>int32_t\<close>.\<close>

definition errno_name :: "int \<Rightarrow> string option" where
  "errno_name err =
     (if err > 0 \<and> err \<le> int MAX_ENAME then level_index ename err else Some ''?UNKNOWN?'')"

text \<open>What libc answers during one call.\<close>

record 't libc =
  now :: "nat \<Rightarrow> 't"               \<comment> \<open>the \<open>k\<close>-th reading of the clock\<close>
  hms :: "'t \<Rightarrow> string"            \<comment> \<open>\<open>strftime "%H:%M:%S"\<close>\<close>
  ymd_hms :: "'t \<Rightarrow> string"        \<comment> \<open>\<open>strftime "%Y-%m-%d %H:%M:%S"\<close>\<close>
  errno :: int
  strerror :: "int \<Rightarrow> string"
  stderr :: nat
  use_color :: bool               \<comment> \<open>compiled with \<open>LOG_USE_COLOR\<close>\<close>

definition errno_part :: "'t libc \<Rightarrow> 't log_event \<Rightarrow> string option" where
  "errno_part c ev =
     (if lc_ne (ev_call ev) \<and> lc_level (ev_call ev) \<ge> LOG_ERROR
      then do { nm \<leftarrow> errno_name (errno c);
                Some ('' [errno '' @ nm @ '': '' @ strerror c (errno c) @ ''] '') }
      else Some [])"

definition message :: "'t log_event \<Rightarrow> string" where
  "message ev = vformat (lc_fmt (ev_call ev)) (lc_args (ev_call ev))"

definition place :: "'t log_event \<Rightarrow> string" where
  "place ev = ev_file ev @ '':'' @ show_int (ev_line ev) @ '':''"

section \<open>Callbacks\<close>

definition stdout_callback :: "'t libc \<Rightarrow> 't log_event \<Rightarrow> 't log_act list option" where
  "stdout_callback c ev =
     do { t \<leftarrow> ev_time ev;
          lv \<leftarrow> log_level_string (lc_level (ev_call ev));
          col \<leftarrow> level_index level_colors (lc_level (ev_call ev));
          err \<leftarrow> errno_part c ev;
          Some [Write (ev_udata ev)
            ((if use_color c
              then hms c t @ '' '' @ col @ pad5 lv @ ESC @ ''[0m '' @ ESC @ ''[90m''
                   @ place ev @ ESC @ ''[0m ''
              else hms c t @ '' '' @ pad5 lv @ '' '' @ place ev @ '' '')
             @ err @ message ev @ [CHR 0x0A])] }"

definition file_callback :: "'t libc \<Rightarrow> 't log_event \<Rightarrow> 't log_act list option" where
  "file_callback c ev =
     do { t \<leftarrow> ev_time ev;
          lv \<leftarrow> log_level_string (lc_level (ev_call ev));
          err \<leftarrow> errno_part c ev;
          Some [Write (ev_udata ev)
            (ymd_hms c t @ '' '' @ pad5 lv @ '' '' @ place ev @ '' ''
             @ err @ message ev @ [CHR 0x0A])] }"

fun call_fn :: "'t libc \<Rightarrow> log_fn \<Rightarrow> 't log_event \<Rightarrow> 't log_act list option" where
  "call_fn c FileCallback ev = file_callback c ev"
| "call_fn c (UserCallback n) ev = Some [UserCall n ev]"

section \<open>Operations\<close>

definition lock :: "logger \<Rightarrow> 't log_act list" where
  "lock L = (case l_lock L of None \<Rightarrow> [] | Some f \<Rightarrow> [LockCall f True (l_udata L)])"

definition unlock :: "logger \<Rightarrow> 't log_act list" where
  "unlock L = (case l_lock L of None \<Rightarrow> [] | Some f \<Rightarrow> [LockCall f False (l_udata L)])"

definition log_set_lock :: "nat option \<Rightarrow> nat \<Rightarrow> logger \<Rightarrow> logger" where
  "log_set_lock fn udata L = L\<lparr>l_lock := fn, l_udata := udata\<rparr>"

definition log_set_level :: "int \<Rightarrow> logger \<Rightarrow> logger" where
  "log_set_level level L = L\<lparr>l_level := level\<rparr>"

definition log_set_quiet :: "bool \<Rightarrow> logger \<Rightarrow> logger" where
  "log_set_quiet enable L = L\<lparr>l_quiet := enable\<rparr>"

text \<open>The search for a free slot, writing the callback into the first one.\<close>

fun fill_slot :: "callback \<Rightarrow> callback list \<Rightarrow> callback list option" where
  "fill_slot cb [] = None"
| "fill_slot cb (s # ss) =
     (if cb_fn s = None then Some (cb # ss) else map_option ((#) s) (fill_slot cb ss))"

definition log_add_callback :: "log_fn option \<Rightarrow> nat \<Rightarrow> int \<Rightarrow> logger \<Rightarrow> int \<times> logger" where
  "log_add_callback fn udata level L =
     (case fill_slot \<lparr>cb_fn = fn, cb_udata = udata, cb_level = level\<rparr> (l_callbacks L) of
        Some cbs \<Rightarrow> (0, L\<lparr>l_callbacks := cbs\<rparr>)
      | None \<Rightarrow> (-1, L))"

definition log_add_fp :: "nat \<Rightarrow> int \<Rightarrow> logger \<Rightarrow> int \<times> logger" where
  "log_add_fp fp level L = log_add_callback (Some FileCallback) fp level L"

text \<open>\<open>k\<close> counts the readings of the clock so far in this call.\<close>

definition init_event :: "'t libc \<Rightarrow> 't log_event \<Rightarrow> nat \<Rightarrow> nat \<Rightarrow> 't log_event \<times> nat" where
  "init_event c ev udata k =
     (if ev_time ev = None
      then (ev\<lparr>ev_time := Some (now c k), ev_udata := udata\<rparr>, Suc k)
      else (ev\<lparr>ev_udata := udata\<rparr>, k))"

fun deliver :: "'t libc \<Rightarrow> callback list \<Rightarrow> 't log_event \<Rightarrow> nat \<Rightarrow> 't log_act list option" where
  "deliver c [] ev k = Some []"
| "deliver c (cb # cbs) ev k =
     (case cb_fn cb of
        None \<Rightarrow> Some []
      | Some f \<Rightarrow>
          if lc_level (ev_call ev) \<ge> cb_level cb
          then (let (ev', k') = init_event c ev (cb_udata cb) k
                in do { a \<leftarrow> call_fn c f ev';
                        rest \<leftarrow> deliver c cbs ev' k';
                        Some (a @ rest) })
          else deliver c cbs ev k)"

definition log_log :: "'t libc \<Rightarrow> logger \<Rightarrow> log_call \<Rightarrow> string \<Rightarrow> int \<Rightarrow> 't log_act list option" where
  "log_log c L call file line =
     (let ev = \<lparr>ev_call = call, ev_file = file, ev_line = line, ev_time = None, ev_udata = 0\<rparr>
      in if \<not> l_quiet L \<and> lc_level call \<ge> l_level L
         then (let (ev', k) = init_event c ev (stderr c) 0
               in do { a \<leftarrow> stdout_callback c ev';
                       rest \<leftarrow> deliver c (take MAX_CALLBACKS (l_callbacks L)) ev' k;
                       Some (lock L @ a @ rest @ unlock L) })
         else do { rest \<leftarrow> deliver c (take MAX_CALLBACKS (l_callbacks L)) ev 0;
                   Some (lock L @ rest @ unlock L) })"

section \<open>Registration\<close>

definition wf_logger :: "logger \<Rightarrow> bool" where
  "wf_logger L \<longleftrightarrow> length (l_callbacks L) = MAX_CALLBACKS \<and>
     (\<forall>cb \<in> set (dropWhile (\<lambda>cb. cb_fn cb \<noteq> None) (l_callbacks L)). cb_fn cb = None)"

text \<open>The callbacks that \<open>log_log\<close>'s loop reaches before it stops at a null slot.\<close>

definition registered :: "logger \<Rightarrow> callback list" where
  "registered L = takeWhile (\<lambda>cb. cb_fn cb \<noteq> None) (l_callbacks L)"

lemma wf_logger_init: "wf_logger logger_init"
  by (simp add: wf_logger_def logger_init_def)

lemma wf_logger_set [simp]:
  "wf_logger (log_set_lock fn u L) = wf_logger L"
  "wf_logger (log_set_level lv L) = wf_logger L"
  "wf_logger (log_set_quiet q L) = wf_logger L"
  by (simp_all add: wf_logger_def log_set_lock_def log_set_level_def log_set_quiet_def)

lemma fill_slot_None: "fill_slot cb ss = None \<longleftrightarrow> (\<forall>s \<in> set ss. cb_fn s \<noteq> None)"
  by (induction ss) auto

lemma fill_slot_Some:
  "fill_slot cb ss = Some ss' \<Longrightarrow> \<exists>pre s post. ss = pre @ s # post \<and> cb_fn s = None \<and>
     (\<forall>x \<in> set pre. cb_fn x \<noteq> None) \<and> ss' = pre @ cb # post"
proof (induction ss arbitrary: ss')
  case Nil
  then show ?case by simp
next
  case (Cons a ss)
  show ?case
  proof (cases "cb_fn a = None")
    case True
    with Cons.prems show ?thesis by (intro exI [of _ "[]"]) auto
  next
    case False
    with Cons.prems obtain r where "fill_slot cb ss = Some r" "ss' = a # r" by auto
    with Cons.IH obtain pre s post where "ss = pre @ s # post" "cb_fn s = None"
      "\<forall>x \<in> set pre. cb_fn x \<noteq> None" "r = pre @ cb # post" by blast
    with False \<open>ss' = a # r\<close> show ?thesis by (intro exI [of _ "a # pre"]) auto
  qed
qed

text \<open>Under the invariant the search fails exactly when all 32 slots hold a function.\<close>

lemma fill_slot_wf:
  assumes "wf_logger L"
  shows "fill_slot cb (l_callbacks L) =
    (if length (registered L) < MAX_CALLBACKS
     then Some (registered L @ cb # drop (Suc (length (registered L))) (l_callbacks L)) else None)"
proof (cases "fill_slot cb (l_callbacks L)")
  case None
  then have "registered L = l_callbacks L"
    by (simp add: fill_slot_None registered_def takeWhile_eq_all_conv)
  with assms None show ?thesis by (simp add: wf_logger_def)
next
  case (Some ss')
  then obtain pre s post where split: "l_callbacks L = pre @ s # post" "cb_fn s = None"
      "\<forall>x \<in> set pre. cb_fn x \<noteq> None" "ss' = pre @ cb # post"
    using fill_slot_Some by blast
  then have pre: "registered L = pre"
    unfolding registered_def split(1) by (subst takeWhile_append2) auto
  have "length pre < MAX_CALLBACKS"
    using assms split(1) by (simp add: wf_logger_def)
  with Some split pre show ?thesis by simp
qed

lemma wf_registered_tail:
  "wf_logger L \<Longrightarrow> cb \<in> set (drop (length (registered L)) (l_callbacks L)) \<Longrightarrow> cb_fn cb = None"
  unfolding wf_logger_def registered_def dropWhile_eq_drop by blast

lemma registered_fn: "cb \<in> set (registered L) \<Longrightarrow> cb_fn cb \<noteq> None"
  unfolding registered_def by (drule set_takeWhileD) simp

section \<open>Delivery\<close>

lemma errno_name_some: "\<exists>nm. errno_name e = Some nm"
  by (cases "e > 0 \<and> e \<le> int MAX_ENAME") (auto simp: errno_name_def level_index_def length_ename)

lemma errno_part_some: "\<exists>p. errno_part c ev = Some p"
  using errno_name_some [of "errno c"] by (auto simp: errno_part_def)

definition valid_level :: "int \<Rightarrow> bool" where
  "valid_level l \<longleftrightarrow> LOG_TRACE \<le> l \<and> l \<le> LOG_FATAL"

lemma log_level_string_valid: "valid_level l \<Longrightarrow> log_level_string l = Some (level_strings ! nat l)"
  by (auto simp: valid_level_def log_level_string_def level_index_def level_strings_def log_levels)

lemma stdout_callback_total:
  "ev_time ev = Some t \<Longrightarrow> valid_level (lc_level (ev_call ev)) \<Longrightarrow> stdout_callback c ev \<noteq> None"
  using errno_part_some [of c ev]
  by (auto simp: stdout_callback_def log_level_string_valid valid_level_def log_levels
      level_index_def level_colors_def)

lemma call_fn_total:
  "ev_time ev = Some t \<Longrightarrow> valid_level (lc_level (ev_call ev)) \<Longrightarrow> call_fn c f ev \<noteq> None"
  using errno_part_some [of c ev]
  by (cases f) (auto simp: file_callback_def log_level_string_valid)

text \<open>What one registered callback does with an event stamped \<open>t\<close>.\<close>

definition deliver_one :: "'t libc \<Rightarrow> 't log_event \<Rightarrow> 't \<Rightarrow> callback \<Rightarrow> 't log_act list" where
  "deliver_one c ev t cb =
     the (call_fn c (the (cb_fn cb)) (ev\<lparr>ev_time := Some t, ev_udata := cb_udata cb\<rparr>))"

lemma deliver_eq:
  assumes "valid_level (lc_level (ev_call ev))"
  shows "deliver c cbs ev k =
    Some (concat (map (deliver_one c ev (case ev_time ev of None \<Rightarrow> now c k | Some t \<Rightarrow> t))
      (filter (\<lambda>cb. cb_level cb \<le> lc_level (ev_call ev)) (takeWhile (\<lambda>cb. cb_fn cb \<noteq> None) cbs))))"
  using assms
proof (induction cbs arbitrary: ev k)
  case Nil
  then show ?case by simp
next
  case (Cons cb cbs)
  show ?case
  proof (cases "cb_fn cb = None \<or> \<not> cb_level cb \<le> lc_level (ev_call ev)")
    case True
    with Cons show ?thesis by auto
  next
    case False
    then obtain f where f: "cb_fn cb = Some f" by auto
    define t where "t = (case ev_time ev of None \<Rightarrow> now c k | Some t \<Rightarrow> t)"
    define ev' where "ev' = ev\<lparr>ev_time := Some t, ev_udata := cb_udata cb\<rparr>"
    obtain k' where ini: "init_event c ev (cb_udata cb) k = (ev', k')"
      by (cases "ev_time ev") (auto simp: init_event_def ev'_def t_def)
    obtain a where a: "call_fn c f ev' = Some a"
      using call_fn_total [of ev' t c f] Cons.prems by (auto simp: ev'_def)
    have one: "deliver_one c ev' t = deliver_one c ev t"
      by (auto simp: deliver_one_def ev'_def)
    have "deliver c cbs ev' k' =
      Some (concat (map (deliver_one c ev t)
        (filter (\<lambda>cb. cb_level cb \<le> lc_level (ev_call ev)) (takeWhile (\<lambda>cb. cb_fn cb \<noteq> None) cbs))))"
      using Cons.IH [of ev' k'] Cons.prems one by (simp add: ev'_def)
    with False f ini a show ?thesis
      by (simp add: t_def [symmetric]) (simp add: deliver_one_def ev'_def)
  qed
qed

text \<open>The reference: the standard error line, then every registered callback in order.\<close>

definition deliveries :: "'t libc \<Rightarrow> logger \<Rightarrow> log_call \<Rightarrow> string \<Rightarrow> int \<Rightarrow> 't log_act list" where
  "deliveries c L call file line =
     (let ev = \<lparr>ev_call = call, ev_file = file, ev_line = line,
                ev_time = Some (now c 0), ev_udata = stderr c\<rparr>
      in (if \<not> l_quiet L \<and> l_level L \<le> lc_level call then the (stdout_callback c ev) else [])
         @ concat (map (deliver_one c ev (now c 0))
             (filter (\<lambda>cb. cb_level cb \<le> lc_level call) (registered L))))"

lemma deliver_one_time_udata:
  "deliver_one c (ev\<lparr>ev_time := x, ev_udata := u\<rparr>) t = deliver_one c ev t"
  "deliver_one c (ev\<lparr>ev_time := x\<rparr>) t = deliver_one c ev t"
  by (auto simp: deliver_one_def)

lemma wf_take_slots: "wf_logger L \<Longrightarrow> take MAX_CALLBACKS (l_callbacks L) = l_callbacks L"
  by (simp add: wf_logger_def)

text \<open>
  C28: a logging call at a valid level never goes wrong. Under the lock, if one is set, it
  writes to standard error when not quiet and at or above the level, then calls exactly the
  registered callbacks whose threshold it meets, in the order they were added, all with the
  one time read at the start of the call.
\<close>

theorem log_log_deliveries:
  assumes "wf_logger L" and "valid_level (lc_level call)"
  shows "log_log c L call file line = Some (lock L @ deliveries c L call file line @ unlock L)"
proof -
  let ?ev = "\<lparr>ev_call = call, ev_file = file, ev_line = line, ev_time = None, ev_udata = 0\<rparr>"
  let ?ev1 = "\<lparr>ev_call = call, ev_file = file, ev_line = line, ev_time = Some (now c 0),
    ev_udata = stderr c\<rparr>"
  have one: "deliver_one c ?ev t = deliver_one c ?ev1 t" for t
    using deliver_one_time_udata(1) [where ev = ?ev and u = "stderr c" and x = "Some (now c 0)"]
    by simp
  obtain a where "stdout_callback c ?ev1 = Some a"
    using stdout_callback_total [of ?ev1 "now c 0" c] assms(2) by auto
  then show ?thesis
    using assms(2) one
    by (simp add: log_log_def wf_take_slots [OF assms(1)] init_event_def deliver_eq
        deliveries_def registered_def Let_def)
qed

theorem log_log_deliveries_witness:
  "wf_logger logger_init \<and> valid_level (lc_level (log_info ''up'' [])) \<and>
   log_log \<lparr>now = id, hms = (\<lambda>_. ''12:00:00''), ymd_hms = (\<lambda>_. ''''), errno = 0,
       strerror = (\<lambda>_. ''''), stderr = 2, use_color = False\<rparr>
     logger_init (log_info ''up'' []) ''a.c'' 7 =
   Some [Write 2 (''12:00:00 INFO  a.c:7: up'' @ [CHR 0x0A])]"
proof -
  have v: "valid_level (lc_level (log_info ''up'' []))"
    by (simp add: valid_level_def log_levels log_info_def)
  show ?thesis
    unfolding log_log_deliveries [OF wf_logger_init v]
    using v wf_logger_init
    by (simp add: deliveries_def registered_def logger_init_def lock_def unlock_def log_info_def
        stdout_callback_def errno_part_def log_levels log_level_string_def level_index_def
        level_strings_def level_colors_def pad5_def place_def message_def MAX_CALLBACKS_def
        show_int_def show_nat.simps)
qed

lemma registered_fill:
  assumes "\<And>x. x \<in> set pre \<Longrightarrow> cb_fn x \<noteq> None" and "\<And>x. x \<in> set tl' \<Longrightarrow> cb_fn x = None"
    and "cb_fn cb \<noteq> None"
  shows "registered (L\<lparr>l_callbacks := pre @ cb # tl'\<rparr>) = pre @ [cb]"
    and "length (pre @ cb # tl') = MAX_CALLBACKS \<Longrightarrow> wf_logger (L\<lparr>l_callbacks := pre @ cb # tl'\<rparr>)"
proof -
  have "takeWhile (\<lambda>cb. cb_fn cb \<noteq> None) tl' = []" and d: "dropWhile (\<lambda>cb. cb_fn cb \<noteq> None) tl' = tl'"
    using assms(2) by (auto intro!: takeWhile_none dropWhile_none)
  then have "takeWhile (\<lambda>cb. cb_fn cb \<noteq> None) (pre @ cb # tl') = pre @ [cb]"
    using assms(1,3) by (subst takeWhile_append2) auto
  then show "registered (L\<lparr>l_callbacks := pre @ cb # tl'\<rparr>) = pre @ [cb]"
    by (simp add: registered_def)
  have "dropWhile (\<lambda>cb. cb_fn cb \<noteq> None) (pre @ cb # tl') = tl'"
    using assms(1,3) d by (subst dropWhile_append2) auto
  then show "length (pre @ cb # tl') = MAX_CALLBACKS \<Longrightarrow> wf_logger (L\<lparr>l_callbacks := pre @ cb # tl'\<rparr>)"
    using assms(2) by (simp add: wf_logger_def)
qed

text \<open>
  adding a callback keeps the slots contiguous. With a free slot it returns 0 and the
  callback comes after those already registered; with all 32 taken it returns -1 and changes
  nothing, so no registration is ever lost behind an empty slot.
\<close>

theorem log_add_callback_registers:
  assumes "wf_logger L"
  shows "case log_add_callback (Some f) u lv L of (r, L') \<Rightarrow>
    wf_logger L' \<and>
    (if length (registered L) < MAX_CALLBACKS
     then r = 0 \<and> registered L' = registered L @ [\<lparr>cb_fn = Some f, cb_udata = u, cb_level = lv\<rparr>]
     else r = -1 \<and> L' = L)"
proof (cases "length (registered L) < MAX_CALLBACKS")
  case True
  let ?cb = "\<lparr>cb_fn = Some f, cb_udata = u, cb_level = lv\<rparr>"
  let ?tl = "drop (Suc (length (registered L))) (l_callbacks L)"
  let ?L = "L\<lparr>l_callbacks := registered L @ ?cb # ?tl\<rparr>"
  have none: "cb_fn x = None" if "x \<in> set ?tl" for x
    by (rule wf_registered_tail [OF assms], rule subsetD [OF set_drop_subset_set_drop that]) simp
  have "length (registered L @ ?cb # ?tl) = MAX_CALLBACKS"
    using True assms by (simp add: wf_logger_def)
  with registered_fill [of "registered L" ?tl ?cb, OF registered_fn none]
  have "registered ?L = registered L @ [?cb]" and "wf_logger ?L" by (simp_all del: length_append)
  moreover have "log_add_callback (Some f) u lv L = (0, ?L)"
    using True by (simp add: log_add_callback_def fill_slot_wf [OF assms])
  ultimately show ?thesis using True by (simp only: prod.case if_True simp_thms)
next
  case False
  with assms show ?thesis by (simp add: log_add_callback_def fill_slot_wf)
qed

theorem log_add_callback_registers_witness:
  "wf_logger logger_init \<and> fst (log_add_callback (Some FileCallback) 5 LOG_WARN logger_init) = 0"
  using wf_logger_init log_add_callback_registers [OF wf_logger_init, of FileCallback 5 LOG_WARN]
  by (simp add: registered_def logger_init_def MAX_CALLBACKS_def split: prod.splits)

end
