(* ===== verification/General.thy ===== *)
theory General
  imports StrUtils Log
begin

text \<open>
  \<open>1-GeneralKnowlegde/main.c\<close>: the demonstration of the string functions. The model is
  the list of logging calls \<open>main\<close> makes before it returns 0.
\<close>

definition main_general :: "log_call list option" where
  "main_general =
     (let len = 14 in
      do { (_, str1) \<leftarrow> str_trim (Some ('' Hello World  '' @ [NUL])) len;
           s1 \<leftarrow> str1;
           (_, str2) \<leftarrow> str_reverse (Some s1) len;
           s2 \<leftarrow> str2;
           ret \<leftarrow> str_to_int (Some s2) len;
           Some [log_info (''Trimmed string: '' @ squoted ''%s'') [ArgS (cstr s1)],
                 log_info (''Reverse string: '' @ squoted ''%s'') [ArgS (cstr s2)],
                 (if ret = INT32_MAX
                  then log_error ''Conversion error: Non-digit character found.'' []
                  else log_info ''Converted integer: %d'' [ArgI (sint ret)])] })"

text \<open>
  \<open>main\<close> logs the trimmed text, its reverse, and the conversion error for it.
\<close>

theorem main_general_output:
  "main_general = Some
     [log_info (''Trimmed string: '' @ squoted ''%s'') [ArgS ''Hello World''],
      log_info (''Reverse string: '' @ squoted ''%s'') [ArgS ''dlroW olleH''],
      log_error ''Conversion error: Non-digit character found.'' []]"
proof -
  let ?s = "'' Hello World  '' @ [NUL]" and ?s1 = "''Hello World'' @ [NUL, NUL, NUL, NUL]"
    and ?s2 = "''dlroW olleH'' @ [NUL, NUL, NUL, NUL]"
  have 1: "str_trim (Some ?s) 14 = Some (SUCCESS, Some ?s1)"
    by (subst str_trim_eq) (simp_all add: trimmed_def strip_def numeral_3_eq_3)
  have 2: "str_reverse (Some ?s1) 14 = Some (SUCCESS, Some ?s2)"
    by (subst str_reverse_eq) (simp_all add: tail_of_def)
  have 3: "str_to_int (Some ?s2) 14 = Some INT32_MAX"
    by (subst str_to_int_eq) (simp_all add: int_of_str_def is_digit_def)
  show ?thesis
    using 1 2 3 by (simp add: main_general_def)
qed

end
