(* ===== verification/Tray.thy ===== *)
theory Tray
  imports Prelude
begin

text \<open>
  The shared food buffer of \<open>10-Semaphore/main.c\<close> and what a critical section does to it:
  a chef writes the next item and then the count; a customer picks an index, moves the later
  items down, clears one cell and then lowers the count. The item cells are a list, the memory
  from \<open>items[0]\<close> on that may be accessed: ten cells as the struct declares them, more where
  a proof asks what the code does with room behind the array.
\<close>

section \<open>Data\<close>

definition MAX_ITEM :: u32 where
  "MAX_ITEM = 10"

record food =
  fid :: i32
  ftime :: "64 word"
  dish :: string              \<comment> \<open>the string in \<open>char dish[255]\<close>\<close>

record buffer =
  count :: u32
  items :: "food list"

definition zero_food :: food where
  "zero_food = \<lparr>fid = 0, ftime = 0, dish = ''''\<rparr>"

definition non_vegan_name :: "string list" where
  "non_vegan_name = [''Fettuccine Chicken Alfredo'', ''Garlic Sirloin Steak'']"

definition vegan_name :: "string list" where
  "vegan_name = [''Pistachio Pesto Pasta'', ''Avocado Fruit Salad'']"

text \<open>The segment as \<open>ftruncate\<close> makes it: zeroed, with \<open>cells\<close> item cells.\<close>

definition fresh_buffer :: "nat \<Rightarrow> buffer" where
  "fresh_buffer cells = \<lparr>count = 0, items = replicate cells zero_food\<rparr>"

section \<open>The critical sections\<close>

definition make_food :: "u32 \<Rightarrow> 64 word \<Rightarrow> string \<Rightarrow> food" where
  "make_food cnt t name = \<lparr>fid = cnt, ftime = t, dish = snprintf_s 255 name\<rparr>"

definition put_item :: "u32 \<Rightarrow> food \<Rightarrow> buffer \<Rightarrow> buffer option" where
  "put_item cnt f b = do { its \<leftarrow> wr (items b) cnt f; Some (b\<lparr>items := its\<rparr>) }"

definition set_count :: "u32 \<Rightarrow> buffer \<Rightarrow> buffer" where
  "set_count c b = b\<lparr>count := c\<rparr>"

text \<open>\<open>items[idx] = items[idx + 1]\<close>\<close>

definition shift_cell :: "food list \<Rightarrow> u32 \<Rightarrow> food list option" where
  "shift_cell its idx = do { x \<leftarrow> rd its (idx + 1); wr its idx x }"

text \<open>
  \<open>for (int32_t idx = food_idx; idx < count; ++idx) items[idx] = items[idx + 1]\<close>. The
  comparison is unsigned; an index of 2 to the 31 or more, negative in C, is outside any
  segment in both readings.
\<close>

function shift_items :: "food list \<Rightarrow> u32 \<Rightarrow> u32 \<Rightarrow> food list option" where
  "shift_items its cnt idx =
     (if idx < cnt
      then do { its' \<leftarrow> shift_cell its idx; shift_items its' cnt (idx + 1) }
      else Some its)"
  by pat_completeness auto
termination
  by (relation "measure (\<lambda>(its, cnt, idx). unat cnt - unat idx)") (auto simp: loop_measure)

declare shift_items.simps [simp del]

text \<open>The customer's work on the cells, for \<open>r\<close> the value of \<open>rand()\<close>: item, shift, memset.\<close>

definition take_item :: "u32 \<Rightarrow> u32 \<Rightarrow> buffer \<Rightarrow> (food \<times> buffer) option" where
  "take_item r cnt b =
     (let food_idx = r mod cnt
      in do { item \<leftarrow> rd (items b) food_idx;
              its \<leftarrow> shift_items (items b) cnt food_idx;
              its' \<leftarrow> wr its cnt zero_food;
              Some (item, b\<lparr>items := its'\<rparr>) })"

section \<open>What they do to the contents\<close>

definition contents :: "buffer \<Rightarrow> food list" where
  "contents b = take (unat (count b)) (items b)"

definition remove_nth :: "nat \<Rightarrow> 'a list \<Rightarrow> 'a list" where
  "remove_nth i xs = take i xs @ drop (Suc i) xs"

lemma length_remove_nth: "i < length xs \<Longrightarrow> length (remove_nth i xs) = length xs - 1"
  by (simp add: remove_nth_def)

lemma mset_remove_nth: "i < length xs \<Longrightarrow> mset xs = add_mset (xs ! i) (mset (remove_nth i xs))"
  by (subst id_take_nth_drop [of i xs]) (simp_all add: remove_nth_def del: append_take_drop_id)

lemma set_remove_nth: "set (remove_nth i xs) \<subseteq> set xs"
  by (auto simp: remove_nth_def dest: in_set_takeD in_set_dropD)

lemma remove_nth_shift:
  assumes "Suc i < length xs"
  shows "remove_nth (Suc i) (xs[i := xs ! Suc i]) = remove_nth i xs"
proof -
  have "drop i xs = xs ! i # xs ! Suc i # drop (Suc (Suc i)) xs"
    using assms by (simp add: Cons_nth_drop_Suc)
  moreover have "take (Suc i) (xs[i := xs ! Suc i]) = take i xs @ [xs ! Suc i]"
    using assms by (simp add: take_Suc_conv_app_nth)
  ultimately show ?thesis using assms by (simp add: remove_nth_def Cons_nth_drop_Suc)
qed

lemma remove_nth_last: "0 < n \<Longrightarrow> n \<le> length xs \<Longrightarrow> remove_nth (n - 1) (take n xs) = take (n - 1) xs"
  by (simp add: remove_nth_def min.absorb1)

text \<open>The loop reads one cell past the last one it fills.\<close>

lemma shift_items_nth:
  assumes "unat cnt < length its" and "idx \<le> cnt"
  shows "\<exists>r. shift_items its cnt idx = Some r \<and> length r = length its \<and>
    (\<forall>j < length its. r ! j =
       (if unat idx \<le> j \<and> j < unat cnt then its ! Suc j else its ! j))"
  using assms
proof (induction its cnt idx rule: shift_items.induct)
  case (1 its cnt idx)
  show ?case
  proof (cases "idx < cnt")
    case True
    define i where "i = unat idx"
    have i: "i < unat cnt" and s: "unat (idx + 1) = Suc i"
      using unat_lt [OF True] unat_Suc_lt [OF True] by (simp_all add: i_def)
    have sh: "shift_cell its idx = Some (its[i := its ! Suc i])"
      using i s "1.prems"(1) by (simp add: shift_cell_def mem_simps i_def)
    have len: "unat cnt < length (its[i := its ! Suc i])" using "1.prems"(1) by simp
    from "1.IH" [OF True sh len unat_Suc_le [OF True]]
    obtain r where r: "shift_items (its[i := its ! Suc i]) cnt (idx + 1) = Some r"
        "length r = length its"
      and nth: "\<And>j. j < length its \<Longrightarrow> r ! j =
        (if Suc i \<le> j \<and> j < unat cnt then its[i := its ! Suc i] ! Suc j else its[i := its ! Suc i] ! j)"
      by (auto simp: s)
    have "r ! j = (if i \<le> j \<and> j < unat cnt then its ! Suc j else its ! j)"
      if j: "j < length its" for j
      using nth [OF j] i j by (cases "j = i") auto
    with r sh True show ?thesis
      by (auto simp: shift_items.simps [of its cnt idx] i_def)
  next
    case False
    with "1.prems" show ?thesis
      by (auto simp: shift_items.simps [of its cnt idx] word_less_nat_alt word_le_nat_alt)
  qed
qed

lemma shift_items_eq:
  assumes "unat cnt < length its" and "idx \<le> cnt"
  shows "\<exists>r. shift_items its cnt idx = Some r \<and> length r = length its \<and>
    take (unat cnt) r = take (unat idx) its @ drop (Suc (unat idx)) (take (Suc (unat cnt)) its)"
proof -
  have le: "unat idx \<le> unat cnt" using assms(2) by (simp add: word_le_nat_alt)
  obtain r where r: "shift_items its cnt idx = Some r" "length r = length its"
    and nth: "\<And>j. j < length its \<Longrightarrow> r ! j =
       (if unat idx \<le> j \<and> j < unat cnt then its ! Suc j else its ! j)"
    using shift_items_nth [OF assms] by blast
  have "take (unat cnt) r = take (unat idx) its @ drop (Suc (unat idx)) (take (Suc (unat cnt)) its)"
    using r(2) nth assms(1) le by (intro nth_equalityI) (auto simp: nth_append)
  with r show ?thesis by blast
qed

text \<open>With a full array the loop's last read is outside it.\<close>

lemma shift_items_out:
  assumes "unat cnt = length its" and "idx < cnt"
  shows "shift_items its cnt idx = None"
  using assms
proof (induction its cnt idx rule: shift_items.induct)
  case (1 its cnt idx)
  note s = unat_Suc_lt [OF "1.prems"(2)]
  show ?case
  proof (cases "idx + 1 < cnt")
    case True
    then have "unat (idx + 1) < length its" "unat idx < length its"
      using unat_lt [OF True] unat_lt [OF "1.prems"(2)] "1.prems"(1) by simp_all
    with 1 True show ?thesis
      by (simp add: shift_items.simps [of its cnt idx] shift_cell_def mem_simps)
  next
    case False
    then have "length its \<le> unat (idx + 1)"
      using "1.prems"(1) by (simp add: word_less_nat_alt)
    with "1.prems" show ?thesis
      by (simp add: shift_items.simps [of its cnt idx] shift_cell_def mem_simps)
  qed
qed

lemma mod_less_u32: "0 < (n :: u32) \<Longrightarrow> unat (r mod n) < unat n"
  by (simp add: unat_mod word_less_nat_alt)

lemma put_item_eq:
  assumes "unat cnt < length (items b)"
  shows "put_item cnt f b = Some (b\<lparr>items := (items b)[unat cnt := f]\<rparr>)"
  using assms by (simp add: put_item_def mem_simps)

lemma take_item_eq:
  assumes "0 < cnt" and "unat cnt < length (items b)"
  shows "\<exists>b'. take_item r cnt b = Some (items b ! unat (r mod cnt), b') \<and> count b' = count b \<and>
    length (items b') = length (items b) \<and>
    take (unat cnt - 1) (items b') = remove_nth (unat (r mod cnt)) (take (unat cnt) (items b))"
proof -
  define i where "i = unat (r mod cnt)"
  define n where "n = unat cnt"
  have i: "i < n" using mod_less_u32 [OF assms(1)] by (simp add: i_def n_def)
  then have "r mod cnt \<le> cnt" by (simp add: word_le_nat_alt i_def n_def)
  from shift_items_eq [OF assms(2) this] obtain its where
    its: "shift_items (items b) cnt (r mod cnt) = Some its" "length its = length (items b)"
    and tk: "take n its = take i (items b) @ drop (Suc i) (take (Suc n) (items b))"
    by (auto simp: i_def n_def)
  let ?b = "b\<lparr>items := its[n := zero_food]\<rparr>"
  have len: "length (take i (items b)) = i" using i assms(2) by (simp add: n_def)
  have fst: "take (n - 1) (take i (items b)) = take i (items b)"
    using i by (simp add: min.absorb2)
  have snd: "take (n - 1 - i) (drop (Suc i) (take (Suc n) (items b))) = drop (Suc i) (take n (items b))"
    using i by (simp add: take_drop)
  have "take (n - 1) its = take (n - 1) (take n its)" by (simp add: min.absorb1)
  also have "\<dots> = take i (items b) @ drop (Suc i) (take n (items b))"
    unfolding tk take_append len fst snd ..
  also have "\<dots> = remove_nth i (take n (items b))"
    using i by (simp add: remove_nth_def min.absorb1)
  finally have "take (n - 1) (items ?b) = remove_nth i (take n (items b))" by simp
  moreover have "take_item r cnt b = Some (items b ! i, ?b)"
    using its i assms(2) by (simp add: take_item_def mem_simps i_def n_def)
  ultimately show ?thesis using its(2) by (simp add: i_def n_def)
qed

lemma take_item_out:
  assumes "0 < cnt" and "unat cnt = length (items b)"
  shows "take_item r cnt b = None"
proof -
  have "r mod cnt < cnt"
    using mod_less_u32 [OF assms(1)] by (simp add: word_less_nat_alt)
  with shift_items_out [OF assms(2)] show ?thesis
    by (cases "rd (items b) (r mod cnt)") (simp_all add: take_item_def)
qed

lemma unat_MAX_ITEM [simp]: "unat MAX_ITEM = 10"
  by (simp add: MAX_ITEM_def)

section \<open>A whole section, and any sequence of them\<close>

text \<open>
  What one turn of a loop does to one buffer while it holds the semaphore: \<open>None\<close> as the food
  is the path that finds the buffer full (or empty) and gives up.
\<close>

definition cook :: "64 word \<times> string \<Rightarrow> buffer \<Rightarrow> (food option \<times> buffer) option" where
  "cook tn b =
     (let c = count b
      in if c \<ge> MAX_ITEM then Some (None, b)
         else (let f = make_food c (fst tn) (snd tn)
               in do { b' \<leftarrow> put_item c f b; Some (Some f, set_count (c + 1) b') }))"

definition eat :: "u32 \<Rightarrow> buffer \<Rightarrow> (food option \<times> buffer) option" where
  "eat r b =
     (let c = count b
      in if c \<le> 0 then Some (None, b)
         else do { (item, b') \<leftarrow> take_item r c b; Some (Some item, set_count (c - 1) b') })"

text \<open>The contract of a bounded tray seen as the list of what is on it.\<close>

locale bounded_tray =
  fixes wf :: "'b \<Rightarrow> bool" and abs :: "'b \<Rightarrow> 'f list" and cap :: nat
    and put :: "'x \<Rightarrow> 'b \<Rightarrow> ('f option \<times> 'b) option"
    and get :: "'r \<Rightarrow> 'b \<Rightarrow> ('f option \<times> 'b) option"
  assumes cap: "wf b \<Longrightarrow> length (abs b) \<le> cap"
    and put_room: "wf b \<Longrightarrow> length (abs b) < cap \<Longrightarrow>
      \<exists>f b'. put x b = Some (Some f, b') \<and> wf b' \<and> abs b' = abs b @ [f]"
    and put_full: "wf b \<Longrightarrow> length (abs b) = cap \<Longrightarrow> put x b = Some (None, b)"
    and get_some: "wf b \<Longrightarrow> abs b \<noteq> [] \<Longrightarrow>
      \<exists>i b'. i < length (abs b) \<and> get r b = Some (Some (abs b ! i), b') \<and> wf b' \<and>
        abs b' = remove_nth i (abs b)"
    and get_empty: "wf b \<Longrightarrow> abs b = [] \<Longrightarrow> get r b = Some (None, b)"

text \<open>A schedule of sections, with the foods put on and taken off in order.\<close>

fun run_tray :: "('x \<Rightarrow> 'b \<Rightarrow> ('f option \<times> 'b) option) \<Rightarrow> ('r \<Rightarrow> 'b \<Rightarrow> ('f option \<times> 'b) option) \<Rightarrow>
    ('x + 'r) list \<Rightarrow> 'b \<Rightarrow> ('f list \<times> 'f list \<times> 'b) option" where
  "run_tray put get [] b = Some ([], [], b)"
| "run_tray put get (Inl x # ops) b =
     do { (f, b') \<leftarrow> put x b;
          (ins, outs, b'') \<leftarrow> run_tray put get ops b';
          Some (case f of None \<Rightarrow> ins | Some f' \<Rightarrow> f' # ins, outs, b'') }"
| "run_tray put get (Inr r # ops) b =
     do { (f, b') \<leftarrow> get r b;
          (ins, outs, b'') \<leftarrow> run_tray put get ops b';
          Some (ins, case f of None \<Rightarrow> outs | Some f' \<Rightarrow> f' # outs, b'') }"

context bounded_tray
begin

lemma run_conserves:
  "wf b \<Longrightarrow> \<exists>ins outs b'. run_tray put get ops b = Some (ins, outs, b') \<and> wf b' \<and>
     mset (abs b) + mset ins = mset outs + mset (abs b')"
proof (induction ops arbitrary: b)
  case Nil
  then show ?case by simp
next
  case (Cons op ops)
  show ?case
  proof (cases op)
    case (Inl x)
    show ?thesis
    proof (cases "length (abs b) < cap")
      case True
      with put_room [OF Cons.prems] obtain f b1
        where b1: "put x b = Some (Some f, b1)" "wf b1" "abs b1 = abs b @ [f]" by blast
      with Cons.IH [OF b1(2)] Inl show ?thesis by auto
    next
      case False
      with cap [OF Cons.prems] put_full [OF Cons.prems] have "put x b = Some (None, b)" by auto
      with Cons.IH [OF Cons.prems] Inl show ?thesis by auto
    qed
  next
    case (Inr r)
    show ?thesis
    proof (cases "abs b = []")
      case True
      with get_empty [OF Cons.prems] Cons.IH [OF Cons.prems] Inr show ?thesis by auto
    next
      case False
      with get_some [OF Cons.prems] obtain i b1 where b1: "i < length (abs b)"
          "get r b = Some (Some (abs b ! i), b1)" "wf b1" "abs b1 = remove_nth i (abs b)" by blast
      with Cons.IH [OF b1(3)] Inr show ?thesis by (auto simp: mset_remove_nth [OF b1(1)])
    qed
  qed
qed

end

text \<open>A buffer with room for the cell the customers read and clear behind the array.\<close>

definition roomy :: "buffer \<Rightarrow> bool" where
  "roomy b \<longleftrightarrow> count b \<le> MAX_ITEM \<and> unat MAX_ITEM < length (items b)"

lemma roomy_bounds: "roomy b \<Longrightarrow> unat (count b) \<le> 10 \<and> 10 < length (items b)"
  by (simp add: roomy_def word_le_nat_alt)

lemma length_contents: "roomy b \<Longrightarrow> length (contents b) = unat (count b)"
  using roomy_bounds [of b] by (simp add: contents_def)

lemma cook_room:
  assumes "roomy b" and "count b < MAX_ITEM"
  shows "\<exists>f b'. cook tn b = Some (Some f, b') \<and> roomy b' \<and> contents b' = contents b @ [f]"
proof -
  let ?f = "make_food (count b) (fst tn) (snd tn)"
  have "unat (count b) < length (items b)" and s: "unat (count b + 1) = Suc (unat (count b))"
    using roomy_bounds [OF assms(1)] unat_lt [OF assms(2)] unat_Suc_lt [OF assms(2)] by simp_all
  then have "cook tn b = Some (Some ?f,
      b\<lparr>items := (items b)[unat (count b) := ?f], count := count b + 1\<rparr>)" (is "_ = Some (_, ?b)")
    using assms(2) by (simp add: cook_def put_item_eq set_count_def Let_def)
  moreover have "roomy ?b"
    using assms unat_Suc_le [OF assms(2)] by (simp add: roomy_def)
  moreover have "contents ?b = contents b @ [?f]"
    using \<open>unat (count b) < length (items b)\<close> s by (simp add: contents_def take_Suc_conv_app_nth)
  ultimately show ?thesis by blast
qed

lemma eat_some:
  assumes "roomy b" and "0 < count b"
  shows "\<exists>i b'. i < length (contents b) \<and> eat r b = Some (Some (contents b ! i), b') \<and> roomy b' \<and>
    contents b' = remove_nth i (contents b)"
proof -
  let ?i = "unat (r mod count b)"
  have room: "unat (count b) < length (items b)" using roomy_bounds [OF assms(1)] by simp
  have i: "?i < unat (count b)" using mod_less_u32 [OF assms(2)] .
  have p: "unat (count b - 1) = unat (count b) - 1" using assms(2) by (intro unat_pred) auto
  obtain b' where b': "take_item r (count b) b = Some (items b ! ?i, b')"
      "length (items b') = length (items b)"
      "take (unat (count b) - 1) (items b') = remove_nth ?i (take (unat (count b)) (items b))"
    using take_item_eq [OF assms(2) room] by blast
  have "roomy (set_count (count b - 1) b')"
    using roomy_bounds [OF assms(1)] b'(2) p
    by (auto simp: roomy_def set_count_def word_le_nat_alt)
  moreover have "contents (set_count (count b - 1) b') = remove_nth ?i (contents b)"
    using b'(3) p by (simp add: contents_def set_count_def)
  ultimately show ?thesis
    using assms(2) b'(1) i length_contents [OF assms(1)]
    by (intro exI [of _ ?i] exI [of _ "set_count (count b - 1) b'"])
      (auto simp: eat_def contents_def Let_def)
qed

interpretation tray: bounded_tray roomy contents 10 cook eat
proof
  fix b x r
  assume b: "roomy b"
  show "length (contents b) \<le> 10" using b roomy_bounds [OF b] by (simp add: length_contents)
  show "\<exists>f b'. cook x b = Some (Some f, b') \<and> roomy b' \<and> contents b' = contents b @ [f]"
    if "length (contents b) < 10"
    using that b by (intro cook_room) (simp_all add: length_contents word_less_nat_alt)
  show "cook x b = Some (None, b)" if "length (contents b) = 10"
    using that b by (simp add: length_contents cook_def word_le_nat_alt)
  show "\<exists>i b'. i < length (contents b) \<and> eat r b = Some (Some (contents b ! i), b') \<and> roomy b' \<and>
      contents b' = remove_nth i (contents b)" if "contents b \<noteq> []"
  proof -
    have "0 < length (contents b)" using that by simp
    then show ?thesis using b length_contents [OF b] by (intro eat_some) (simp_all add: word_less_nat_alt)
  qed
  show "eat r b = Some (None, b)" if "contents b = []"
    using that b length_contents [OF b] by (simp add: eat_def word_le_nat_alt)
qed

section \<open>Properties\<close>

text \<open>
  with memory behind the array, a customer's section takes the item at \<open>rand() % count\<close>
  and keeps the others in their order, one fewer.
\<close>

theorem eat_removes_chosen:
  assumes "roomy b" and "0 < count b"
  shows "\<exists>b'. eat r b = Some (Some (contents b ! unat (r mod count b)), b') \<and>
    contents b' = remove_nth (unat (r mod count b)) (contents b) \<and> count b' = count b - 1"
proof -
  let ?i = "unat (r mod count b)"
  have room: "unat (count b) < length (items b)" using roomy_bounds [OF assms(1)] by simp
  have i: "?i < unat (count b)" using mod_less_u32 [OF assms(2)] .
  have p: "unat (count b - 1) = unat (count b) - 1" using assms(2) by (intro unat_pred) auto
  obtain b' where "take_item r (count b) b = Some (items b ! ?i, b')"
      "take (unat (count b) - 1) (items b') = remove_nth ?i (take (unat (count b)) (items b))"
    using take_item_eq [OF assms(2) room] by blast
  then show ?thesis
    using assms(2) i p by (auto simp: eat_def set_count_def contents_def Let_def)
qed

theorem eat_removes_chosen_witness:
  "\<exists>b'. eat 7 \<lparr>count = 2, items = make_food 0 0 ''x'' # make_food 1 0 ''y'' # replicate 9 zero_food\<rparr> =
    Some (Some (make_food 1 0 ''y''), b') \<and> contents b' = [make_food 0 0 ''x''] \<and> count b' = 1"
  using eat_removes_chosen
    [of "\<lparr>count = 2, items = make_food 0 0 ''x'' # make_food 1 0 ''y'' # replicate 9 zero_food\<rparr>" 7]
  by (simp add: roomy_def contents_def remove_nth_def MAX_ITEM_def)

text \<open>
  on the array as declared, ten cells, a customer who finds the buffer full leaves it:
  the loop reads \<open>items[10]\<close> and \<open>memset\<close> would clear it, one \<open>Food\<close> past the end.
\<close>

theorem eat_full_overruns:
  assumes "count b = MAX_ITEM" and "length (items b) = 10"
  shows "eat r b = None"
  using assms take_item_out [of "count b" b r] by (simp add: eat_def word_less_nat_alt MAX_ITEM_def)

theorem eat_full_overruns_witness:
  "eat 0 (set_count 10 (fresh_buffer 10)) = None"
  by (rule eat_full_overruns) (simp_all add: set_count_def fresh_buffer_def MAX_ITEM_def)

text \<open>
  any sequence of complete sections by chefs and customers, from the zeroed segment with
  room behind the array, runs without undefined behaviour; the buffer stays within its bound
  and no food is lost, duplicated or invented.
\<close>

theorem tray_serial_conserves:
  assumes "10 < cells"
  shows "\<exists>ins outs b. run_tray cook eat ops (fresh_buffer cells) = Some (ins, outs, b) \<and>
    unat (count b) \<le> 10 \<and> mset ins = mset outs + mset (contents b)"
proof -
  have "roomy (fresh_buffer cells)" using assms by (simp add: roomy_def fresh_buffer_def)
  from tray.run_conserves [OF this, of ops]
  show ?thesis by (auto simp: fresh_buffer_def contents_def [of "\<lparr>count = _, items = _\<rparr>"] dest: roomy_bounds)
qed

theorem tray_serial_conserves_witness:
  "\<exists>ins outs b. run_tray cook eat [Inl (0, ''a''), Inr 0, Inr 5] (fresh_buffer 11) = Some (ins, outs, b)"
  using tray_serial_conserves [of 11 "[Inl (0, ''a''), Inr 0, Inr 5]"] by auto

end
