(* ===== verification/Locks.thy ===== *)
theory Locks
  imports Prelude
begin

text \<open>
  The blocking primitives of POSIX that the programs use, as documented: a semaphore's value
  and a mutex. An operation that would block is \<open>None\<close>: the calling thread cannot step.
  The locale states what a client relies on to get mutual exclusion, and derives it once.
\<close>

definition sem_wait :: "nat \<Rightarrow> nat option" where
  "sem_wait v = (if v = 0 then None else Some (v - 1))"

definition sem_post :: "nat \<Rightarrow> nat" where
  "sem_post v = v + 1"

datatype mutex = Unlocked | Locked

fun mutex_lock :: "mutex \<Rightarrow> mutex option" where
  "mutex_lock Unlocked = Some Locked"
| "mutex_lock Locked = None"

fun mutex_unlock :: "mutex \<Rightarrow> mutex" where
  "mutex_unlock _ = Unlocked"

text \<open>
  \<open>agrees l H\<close>: the lock is free and nobody holds it, or it is taken and exactly one does.
\<close>

locale exclusive_lock =
  fixes free :: "'l \<Rightarrow> bool" and taken :: "'l \<Rightarrow> bool"
    and acquire :: "'l \<Rightarrow> 'l option" and release :: "'l \<Rightarrow> 'l"
  assumes acquire_free: "free l \<Longrightarrow> \<exists>l'. acquire l = Some l' \<and> taken l'"
    and acquire_taken: "taken l \<Longrightarrow> acquire l = None"
    and release_taken: "taken l \<Longrightarrow> free (release l)"
    and free_taken: "\<not> (free l \<and> taken l)"
begin

definition agrees :: "'l \<Rightarrow> 'p set \<Rightarrow> bool" where
  "agrees l H \<longleftrightarrow> (free l \<and> H = {}) \<or> (taken l \<and> (\<exists>p. H = {p}))"

lemma agrees_free: "free l \<Longrightarrow> agrees l {}"
  by (simp add: agrees_def)

lemma agrees_acquire:
  fixes H :: "'p set" and p :: 'p
  shows "agrees l H \<Longrightarrow> acquire l = Some l' \<Longrightarrow> H = {} \<and> agrees l' {p}"
  using acquire_free acquire_taken by (fastforce simp: agrees_def)

lemma agrees_release:
  fixes H :: "'p set"
  shows "agrees l H \<Longrightarrow> p \<in> H \<Longrightarrow> H = {p} \<and> agrees (release l) ({} :: 'p set)"
  using release_taken by (auto simp: agrees_def)

lemma agrees_exclusive: "agrees l H \<Longrightarrow> p \<in> H \<Longrightarrow> q \<in> H \<Longrightarrow> p = q"
  by (auto simp: agrees_def)

lemma agrees_blocked: "agrees l H \<Longrightarrow> acquire l = None \<Longrightarrow> \<exists>p. H = {p}"
  using acquire_free by (fastforce simp: agrees_def)

end

text \<open>A semaphore that starts at 1 and a mutex are both such a lock.\<close>

definition sem_free :: "nat \<Rightarrow> bool" where
  "sem_free v \<longleftrightarrow> v = 1"

definition sem_taken :: "nat \<Rightarrow> bool" where
  "sem_taken v \<longleftrightarrow> v = 0"

interpretation sem: exclusive_lock sem_free sem_taken sem_wait sem_post
  by unfold_locales (auto simp: sem_wait_def sem_post_def sem_free_def sem_taken_def)

definition mutex_free :: "mutex \<Rightarrow> bool" where
  "mutex_free m \<longleftrightarrow> m = Unlocked"

definition mutex_taken :: "mutex \<Rightarrow> bool" where
  "mutex_taken m \<longleftrightarrow> m = Locked"

interpretation mtx: exclusive_lock mutex_free mutex_taken mutex_lock mutex_unlock
  by unfold_locales (auto simp: mutex_free_def mutex_taken_def)

section \<open>Readers and one writer\<close>

datatype rwlock = Unheld | ReadHeld nat | WriteHeld

fun rwlock_rdlock :: "rwlock \<Rightarrow> rwlock option" where
  "rwlock_rdlock Unheld = Some (ReadHeld 1)"
| "rwlock_rdlock (ReadHeld n) = Some (ReadHeld (Suc n))"
| "rwlock_rdlock WriteHeld = None"

fun rwlock_wrlock :: "rwlock \<Rightarrow> rwlock option" where
  "rwlock_wrlock Unheld = Some WriteHeld"
| "rwlock_wrlock (ReadHeld n) = None"
| "rwlock_wrlock WriteHeld = None"

fun rwlock_unlock :: "rwlock \<Rightarrow> rwlock" where
  "rwlock_unlock (ReadHeld n) = (if n \<le> 1 then Unheld else ReadHeld (n - 1))"
| "rwlock_unlock _ = Unheld"

text \<open>
  What a client relies on: the lock counts its readers, and a writer has it alone. A lock
  agrees with the sets of threads that believe to hold it for reading and for writing.
\<close>

locale shared_lock =
  fixes readers :: "'l \<Rightarrow> nat" and writing :: "'l \<Rightarrow> bool"
    and rdlock :: "'l \<Rightarrow> 'l option" and wrlock :: "'l \<Rightarrow> 'l option" and release :: "'l \<Rightarrow> 'l"
  assumes rdlock_some: "rdlock l = Some l' \<Longrightarrow>
      \<not> writing l \<and> \<not> writing l' \<and> readers l' = Suc (readers l)"
    and wrlock_some: "wrlock l = Some l' \<Longrightarrow>
      \<not> writing l \<and> readers l = 0 \<and> writing l' \<and> readers l' = 0"
    and release_read: "\<not> writing l \<Longrightarrow> 0 < readers l \<Longrightarrow>
      \<not> writing (release l) \<and> readers (release l) = readers l - 1"
    and release_write: "writing l \<Longrightarrow> \<not> writing (release l) \<and> readers (release l) = 0"
begin

definition agrees :: "'l \<Rightarrow> nat set \<Rightarrow> nat set \<Rightarrow> bool" where
  "agrees l R W \<longleftrightarrow> finite R \<and> card R = readers l \<and>
     (if writing l then R = {} \<and> (\<exists>w. W = {w}) else W = {})"

lemma agrees_start: "readers l = 0 \<Longrightarrow> \<not> writing l \<Longrightarrow> agrees l {} {}"
  by (simp add: agrees_def)

lemma agrees_rdlock: "agrees l R W \<Longrightarrow> rdlock l = Some l' \<Longrightarrow> r \<notin> R \<Longrightarrow> agrees l' (insert r R) W"
  using rdlock_some [of l l'] by (simp add: agrees_def)

lemma agrees_wrlock: "agrees l R W \<Longrightarrow> wrlock l = Some l' \<Longrightarrow> agrees l' R {w}"
  using wrlock_some [of l l'] card_eq_0_iff [of R] by (auto simp: agrees_def)

lemma agrees_writer: "agrees l R W \<Longrightarrow> w \<in> W \<Longrightarrow> R = {} \<and> W = {w} \<and> writing l"
  by (cases "writing l") (auto simp: agrees_def)

lemma agrees_reader: "agrees l R W \<Longrightarrow> r \<in> R \<Longrightarrow> W = {} \<and> \<not> writing l"
  by (cases "writing l") (simp_all add: agrees_def)

lemma agrees_release_read: "agrees l R W \<Longrightarrow> r \<in> R \<Longrightarrow> agrees (release l) (R - {r}) W"
proof -
  assume a: "agrees l R W" and r: "r \<in> R"
  then have "0 < readers l" using card_gt_0_iff [of R] by (auto simp: agrees_def)
  then show ?thesis
    using a r agrees_reader [OF a r] release_read [of l] by (auto simp: agrees_def)
qed

lemma agrees_release_write: "agrees l R W \<Longrightarrow> w \<in> W \<Longrightarrow> agrees (release l) R {}"
proof -
  assume "agrees l R W" "w \<in> W"
  then have "R = {}" "writing l" using agrees_writer by blast+
  with release_write [of l] show ?thesis by (simp add: agrees_def)
qed

lemma agrees_wrlock_empty: "agrees l R W \<Longrightarrow> wrlock l = Some l' \<Longrightarrow> R = {} \<and> W = {}"
  using wrlock_some [of l l'] by (auto simp: agrees_def)

lemma agrees_rdlock_empty: "agrees l R W \<Longrightarrow> rdlock l = Some l' \<Longrightarrow> W = {}"
  using rdlock_some [of l l'] by (simp add: agrees_def)

end

fun rw_readers :: "rwlock \<Rightarrow> nat" where
  "rw_readers (ReadHeld n) = n" | "rw_readers _ = 0"

definition rw_writing :: "rwlock \<Rightarrow> bool" where
  "rw_writing l \<longleftrightarrow> l = WriteHeld"

interpretation rwl: shared_lock rw_readers rw_writing rwlock_rdlock rwlock_wrlock rwlock_unlock
proof
  show "\<not> rw_writing l \<and> \<not> rw_writing l' \<and> rw_readers l' = Suc (rw_readers l)"
    if "rwlock_rdlock l = Some l'" for l l' using that by (cases l) (auto simp: rw_writing_def)
  show "\<not> rw_writing l \<and> rw_readers l = 0 \<and> rw_writing l' \<and> rw_readers l' = 0"
    if "rwlock_wrlock l = Some l'" for l l' using that by (cases l) (auto simp: rw_writing_def)
  show "\<not> rw_writing (rwlock_unlock l) \<and> rw_readers (rwlock_unlock l) = rw_readers l - 1"
    if "\<not> rw_writing l" "0 < rw_readers l" for l using that by (cases l) (auto simp: rw_writing_def)
  show "\<not> rw_writing (rwlock_unlock l) \<and> rw_readers (rwlock_unlock l) = 0"
    if "rw_writing l" for l using that by (auto simp: rw_writing_def)
qed

end
