(* ===== verification/Restaurant.thy ===== *)
theory Restaurant
  imports Tray Locks Log
begin

text \<open>
  The five child processes of \<open>10-Semaphore/main.c\<close>, interleaved. Each C function is a step
  function on the program counter of its process: one step per access to an item or a
  count in shared memory and per semaphore operation (an item is copied in one step), with the
  function's local variables in \<open>locals\<close>. A step is \<open>None\<close> where \<open>sem_wait\<close> blocks. \<open>rand()\<close> and \<open>time(NULL)\<close> are arguments of a step;
  how long a process sleeps only chooses among the interleavings, all of which are considered.
  \<open>cooked\<close> and \<open>eaten\<close> record what the writes of the sections did; no step reads them.
\<close>

section \<open>State\<close>

text \<open>The indices of \<open>food_shm\<close>, and the child processes.\<close>

datatype shm = VEGAN | NON_VEGAN

datatype proc = Donatello | Portecelli | NonVegan | Vegan | Hybrid

datatype pc =
    Top              \<comment> \<open>at \<open>while (is_running)\<close>\<close>
  | Wait shm         \<comment> \<open>at a \<open>sem_wait\<close>\<close>
  | Read             \<comment> \<open>about to read the count and test it\<close>
  | Back shm         \<comment> \<open>giving up: about to post\<close>
  | Cook             \<comment> \<open>about to write the item\<close>
  | Bump             \<comment> \<open>about to raise the count\<close>
  | Take shm         \<comment> \<open>about to choose an item and copy it out\<close>
  | Shift shm        \<comment> \<open>at the test of the loop that moves the later items down\<close>
  | Clear shm        \<comment> \<open>about to clear the cell behind the last item\<close>
  | Drop shm         \<comment> \<open>about to lower the count\<close>
  | Post shm         \<comment> \<open>done with a buffer: about to post\<close>
  | Report           \<comment> \<open>about to log and sleep\<close>
  | Gone             \<comment> \<open>left the loop\<close>

record locals =
  cnt :: "shm \<Rightarrow> u32"
  got :: "shm \<Rightarrow> food"
  idx :: "shm \<Rightarrow> u32"

record sys =
  bufs :: "shm \<Rightarrow> buffer"
  sems :: "shm \<Rightarrow> nat"
  pcs :: "proc \<Rightarrow> pc"
  locs :: "proc \<Rightarrow> locals"
  running :: "proc \<Rightarrow> bool"
  alive :: "proc \<Rightarrow> bool"
  undef :: bool
  logs :: "(proc \<times> log_call) list"
  cooked :: "shm \<Rightarrow> food list"
  eaten :: "shm \<Rightarrow> (proc \<times> food) list"

definition goto :: "proc \<Rightarrow> pc \<Rightarrow> sys \<Rightarrow> sys" where
  "goto p c s = s\<lparr>pcs := (pcs s)(p := c)\<rparr>"

definition say :: "proc \<Rightarrow> log_call \<Rightarrow> sys \<Rightarrow> sys" where
  "say p l s = s\<lparr>logs := logs s @ [(p, l)]\<rparr>"

definition set_buf :: "shm \<Rightarrow> buffer \<Rightarrow> sys \<Rightarrow> sys" where
  "set_buf k b s = s\<lparr>bufs := (bufs s)(k := b)\<rparr>"

definition set_sem :: "shm \<Rightarrow> nat \<Rightarrow> sys \<Rightarrow> sys" where
  "set_sem k v s = s\<lparr>sems := (sems s)(k := v)\<rparr>"

definition load_count :: "proc \<Rightarrow> shm \<Rightarrow> sys \<Rightarrow> sys" where
  "load_count p k s =
     s\<lparr>locs := (locs s)(p := (locs s p)\<lparr>cnt := (cnt (locs s p))(k := count (bufs s k))\<rparr>)\<rparr>"

definition set_got :: "proc \<Rightarrow> shm \<Rightarrow> food \<Rightarrow> sys \<Rightarrow> sys" where
  "set_got p k f s = s\<lparr>locs := (locs s)(p := (locs s p)\<lparr>got := (got (locs s p))(k := f)\<rparr>)\<rparr>"

definition set_idx :: "proc \<Rightarrow> shm \<Rightarrow> u32 \<Rightarrow> sys \<Rightarrow> sys" where
  "set_idx p k i s = s\<lparr>locs := (locs s)(p := (locs s p)\<lparr>idx := (idx (locs s p))(k := i)\<rparr>)\<rparr>"

definition note_cooked :: "shm \<Rightarrow> food \<Rightarrow> sys \<Rightarrow> sys" where
  "note_cooked k f s = s\<lparr>cooked := (cooked s)(k := cooked s k @ [f])\<rparr>"

definition note_eaten :: "proc \<Rightarrow> shm \<Rightarrow> food \<Rightarrow> sys \<Rightarrow> sys" where
  "note_eaten p k f s = s\<lparr>eaten := (eaten s)(k := eaten s k @ [(p, f)])\<rparr>"

lemmas sys_ops = goto_def say_def set_buf_def set_sem_def load_count_def set_got_def
  set_idx_def note_cooked_def note_eaten_def

definition wait_on :: "proc \<Rightarrow> shm \<Rightarrow> pc \<Rightarrow> sys \<Rightarrow> sys option" where
  "wait_on p k c s =
     (case sem_wait (sems s k) of None \<Rightarrow> None | Some v \<Rightarrow> Some (goto p c (set_sem k v s)))"

definition post_on :: "proc \<Rightarrow> shm \<Rightarrow> pc \<Rightarrow> sys \<Rightarrow> sys" where
  "post_on p k c s = goto p c (set_sem k (sem_post (sems s k)) s)"

section \<open>Chefs\<close>

text \<open>
  \<open>chefDonatello\<close> and \<open>chefPortecelli\<close> are the same text over another buffer, menu and name.
\<close>

definition chef_step ::
    "shm \<Rightarrow> string list \<Rightarrow> string \<Rightarrow> proc \<Rightarrow> u32 \<Rightarrow> 64 word \<Rightarrow> sys \<Rightarrow> sys option" where
  "chef_step k menu who p rand time s =
     (let c = cnt (locs s p) k; f = got (locs s p) k
      in case pcs s p of
        Top \<Rightarrow> Some (if running s p then goto p (Wait k) s
                     else goto p Gone (say p (log_info (who @ '' come back home.'') []) s))
      | Wait _ \<Rightarrow> wait_on p k Read s
      | Read \<Rightarrow> Some (goto p (if count (bufs s k) \<ge> MAX_ITEM then Back k else Cook) (load_count p k s))
      | Back _ \<Rightarrow> Some (post_on p k Top s)
      | Cook \<Rightarrow>
          (case (do { name \<leftarrow> rd menu (rand mod 2);
                      let food = make_food c time name;
                      b \<leftarrow> put_item c food (bufs s k);
                      Some (food, b) }) of
             None \<Rightarrow> Some (s\<lparr>undef := True\<rparr>)
           | Some (food, b) \<Rightarrow> Some (goto p Bump (set_got p k food (set_buf k b s))))
      | Bump \<Rightarrow> Some (goto p (Post k) (note_cooked k f (set_buf k (set_count (c + 1) (bufs s k)) s)))
      | Post _ \<Rightarrow> Some (post_on p k Report s)
      | Report \<Rightarrow>
          Some (goto p Top (say p (log_info (who @ '' cooked: %s (ID: %d)'')
            [ArgS (dish f), ArgI (sint (fid f))]) s))
      | _ \<Rightarrow> None)"

definition chefDonatello :: "u32 \<Rightarrow> 64 word \<Rightarrow> sys \<Rightarrow> sys option" where
  "chefDonatello = chef_step NON_VEGAN non_vegan_name ''Donatello'' Donatello"

definition chefPortecelli :: "u32 \<Rightarrow> 64 word \<Rightarrow> sys \<Rightarrow> sys option" where
  "chefPortecelli = chef_step VEGAN vegan_name ''Portecelli'' Portecelli"

section \<open>Customers\<close>

text \<open>
  The same text in all three customers: copying an item out; one turn of the loop, its test and
  the copy of one cell; the \<open>memset\<close>; the new count. A SIGINT can fall between any two of them.
\<close>

definition take_step :: "proc \<Rightarrow> shm \<Rightarrow> u32 \<Rightarrow> sys \<Rightarrow> sys" where
  "take_step p k rand s =
     (let food_idx = rand mod cnt (locs s p) k
      in case rd (items (bufs s k)) food_idx of
           None \<Rightarrow> s\<lparr>undef := True\<rparr>
         | Some item \<Rightarrow> goto p (Shift k) (note_eaten p k item (set_got p k item (set_idx p k food_idx s))))"

definition shift_step :: "proc \<Rightarrow> shm \<Rightarrow> sys \<Rightarrow> sys" where
  "shift_step p k s =
     (let i = idx (locs s p) k
      in if i < cnt (locs s p) k
         then (case shift_cell (items (bufs s k)) i of
                 None \<Rightarrow> s\<lparr>undef := True\<rparr>
               | Some its \<Rightarrow> goto p (Shift k) (set_idx p k (i + 1) (set_buf k ((bufs s k)\<lparr>items := its\<rparr>) s)))
         else goto p (Clear k) s)"

definition clear_step :: "proc \<Rightarrow> shm \<Rightarrow> sys \<Rightarrow> sys" where
  "clear_step p k s =
     (case wr (items (bufs s k)) (cnt (locs s p) k) zero_food of
        None \<Rightarrow> s\<lparr>undef := True\<rparr>
      | Some its \<Rightarrow> goto p (Drop k) (set_buf k ((bufs s k)\<lparr>items := its\<rparr>) s))"

definition drop_step :: "proc \<Rightarrow> shm \<Rightarrow> sys \<Rightarrow> sys" where
  "drop_step p k s =
     goto p (Post k) (set_buf k (set_count (cnt (locs s p) k - 1) (bufs s k)) s)"

definition customer_step :: "shm \<Rightarrow> string \<Rightarrow> proc \<Rightarrow> u32 \<Rightarrow> sys \<Rightarrow> sys option" where
  "customer_step k who p rand s =
     (let f = got (locs s p) k
      in case pcs s p of
        Top \<Rightarrow> Some (if running s p then goto p (Wait k) s
                     else goto p Gone (say p (log_info (who @ '' customer come back home.'') []) s))
      | Wait _ \<Rightarrow> wait_on p k Read s
      | Read \<Rightarrow> Some (goto p (if count (bufs s k) \<le> 0 then Back k else Take k) (load_count p k s))
      | Back _ \<Rightarrow> Some (post_on p k Top s)
      | Take _ \<Rightarrow> Some (take_step p k rand s)
      | Shift _ \<Rightarrow> Some (shift_step p k s)
      | Clear _ \<Rightarrow> Some (clear_step p k s)
      | Drop _ \<Rightarrow> Some (drop_step p k s)
      | Post _ \<Rightarrow> Some (post_on p k Report s)
      | Report \<Rightarrow>
          Some (goto p Top (say p (log_info (who @ '' customer get: %s (ID: %d)'')
            [ArgS (dish f), ArgI (sint (fid f))]) s))
      | _ \<Rightarrow> None)"

definition nonVeganCustomer :: "u32 \<Rightarrow> sys \<Rightarrow> sys option" where
  "nonVeganCustomer = customer_step NON_VEGAN ''Non-Vegan'' NonVegan"

definition veganCustomer :: "u32 \<Rightarrow> sys \<Rightarrow> sys option" where
  "veganCustomer = customer_step VEGAN ''Vegan'' Vegan"

text \<open>Takes both semaphores, vegan first, and one item of each buffer or none.\<close>

definition hybridCustomer :: "u32 \<Rightarrow> sys \<Rightarrow> sys option" where
  "hybridCustomer rand s =
     (let p = Hybrid; v = got (locs s p) VEGAN; n = got (locs s p) NON_VEGAN
      in case pcs s p of
        Top \<Rightarrow> Some (if running s p then goto p (Wait VEGAN) s else goto p Gone s)
      | Wait VEGAN \<Rightarrow> wait_on p VEGAN (Wait NON_VEGAN) s
      | Wait NON_VEGAN \<Rightarrow> wait_on p NON_VEGAN Read s
      | Read \<Rightarrow>
          Some (goto p (if count (bufs s VEGAN) \<le> 0 \<or> count (bufs s NON_VEGAN) \<le> 0
                        then Back VEGAN else Take VEGAN)
                 (load_count p NON_VEGAN (load_count p VEGAN s)))
      | Back VEGAN \<Rightarrow> Some (post_on p VEGAN (Back NON_VEGAN) s)
      | Back NON_VEGAN \<Rightarrow> Some (post_on p NON_VEGAN Top s)
      | Take k \<Rightarrow> Some (take_step p k rand s)
      | Shift k \<Rightarrow> Some (shift_step p k s)
      | Clear k \<Rightarrow> Some (clear_step p k s)
      | Drop k \<Rightarrow> Some (drop_step p k s)
      | Post VEGAN \<Rightarrow> Some (post_on p VEGAN (Take NON_VEGAN) s)
      | Post NON_VEGAN \<Rightarrow> Some (post_on p NON_VEGAN Report s)
      | Report \<Rightarrow>
          Some (goto p Top (say p (log_info ''Hybrid customer get: %s (ID: %d) and %s (ID: %d)''
            [ArgS (dish v), ArgI (sint (fid v)), ArgS (dish n), ArgI (sint (fid n))]) s))
      | _ \<Rightarrow> None)"

section \<open>The system\<close>

fun proc_step :: "proc \<Rightarrow> u32 \<Rightarrow> 64 word \<Rightarrow> sys \<Rightarrow> sys option" where
  "proc_step Donatello rand time s = chefDonatello rand time s"
| "proc_step Portecelli rand time s = chefPortecelli rand time s"
| "proc_step NonVegan rand time s = nonVeganCustomer rand s"
| "proc_step Vegan rand time s = veganCustomer rand s"
| "proc_step Hybrid rand time s = hybridCustomer rand s"

text \<open>
  \<open>handle_sigint\<close> in a child: it logs, clears the process's own \<open>is_running\<close>, unlinks the
  names (which the mappings and semaphores in use outlive), restores the default action and
  raises the signal again, which ends the process. It posts no semaphore.
\<close>

definition handle_sigint :: "proc \<Rightarrow> sys \<Rightarrow> sys" where
  "handle_sigint p s =
     (say p (log_info ''SIGINT received, cleaning up...'' []) s)
       \<lparr>running := (running s)(p := False), alive := (alive s)(p := False)\<rparr>"

inductive rstep :: "sys \<Rightarrow> sys \<Rightarrow> bool" where
  work: "\<not> undef s \<Longrightarrow> alive s p \<Longrightarrow> proc_step p rand time s = Some t \<Longrightarrow> rstep s t"
| sigint: "\<not> undef s \<Longrightarrow> alive s p \<Longrightarrow> rstep s (handle_sigint p s)"

text \<open>After \<open>shmInit\<close> on fresh objects and the five forks.\<close>

definition start_sys :: "nat \<Rightarrow> sys" where
  "start_sys cells =
     \<lparr>bufs = (\<lambda>_. fresh_buffer cells), sems = (\<lambda>_. 1), pcs = (\<lambda>_. Top),
      locs = (\<lambda>_. \<lparr>cnt = (\<lambda>_. 0), got = (\<lambda>_. zero_food), idx = (\<lambda>_. 0)\<rparr>),
      running = (\<lambda>_. True), alive = (\<lambda>_. True), undef = False, logs = [],
      cooked = (\<lambda>_. []), eaten = (\<lambda>_. [])\<rparr>"

abbreviation restaurant :: "nat \<Rightarrow> sys \<Rightarrow> bool" where
  "restaurant cells \<equiv> reachable (\<lambda>s. s = start_sys cells) rstep"

end
