(* ===== verification/RestaurantInv.thy ===== *)
theory RestaurantInv
  imports Restaurant
begin

text \<open>
  The invariant of the restaurant: how each semaphore agrees with the program counters, that
  a count read under the semaphore is still the shared one when it is used, and that every
  buffer holds what was cooked and not yet eaten. One lemma per kind of transition (a step
  that leaves a buffer alone, an acquire, a release, a write), then the steps of the code.
\<close>

section \<open>Who holds what\<close>

fun chef :: "proc \<Rightarrow> bool" where
  "chef Donatello = True"
| "chef Portecelli = True"
| "chef _ = False"

fun uses :: "proc \<Rightarrow> shm \<Rightarrow> bool" where
  "uses Donatello k = (k = NON_VEGAN)"
| "uses Portecelli k = (k = VEGAN)"
| "uses NonVegan k = (k = NON_VEGAN)"
| "uses Vegan k = (k = VEGAN)"
| "uses Hybrid k = True"

text \<open>The hybrid customer gives \<open>VEGAN\<close> back first.\<close>

fun kept :: "shm \<Rightarrow> shm \<Rightarrow> bool" where
  "kept at k = (\<not> (at = NON_VEGAN \<and> k = VEGAN))"

fun holds :: "proc \<Rightarrow> pc \<Rightarrow> shm \<Rightarrow> bool" where
  "holds p (Wait at) k = (p = Hybrid \<and> at = NON_VEGAN \<and> k = VEGAN)"
| "holds p (Back at) k = (uses p k \<and> kept at k)"
| "holds p (Take at) k = (uses p k \<and> kept at k)"
| "holds p (Shift at) k = (uses p k \<and> kept at k)"
| "holds p (Clear at) k = (uses p k \<and> kept at k)"
| "holds p (Drop at) k = (uses p k \<and> kept at k)"
| "holds p (Post at) k = (uses p k \<and> kept at k)"
| "holds p Read k = uses p k"
| "holds p Cook k = uses p k"
| "holds p Bump k = uses p k"
| "holds p _ k = False"

text \<open>Where the local count is still to be used.\<close>

fun live :: "proc \<Rightarrow> pc \<Rightarrow> shm \<Rightarrow> bool" where
  "live p Cook k = uses p k"
| "live p Bump k = uses p k"
| "live p (Take at) k = (uses p k \<and> kept at k)"
| "live p (Shift at) k = (uses p k \<and> kept at k)"
| "live p (Clear at) k = (uses p k \<and> kept at k)"
| "live p (Drop at) k = (uses p k \<and> kept at k)"
| "live p (Post at) k = (p = Hybrid \<and> at = VEGAN \<and> k = NON_VEGAN)"
| "live p _ k = False"

fun pc_ok :: "proc \<Rightarrow> pc \<Rightarrow> bool" where
  "pc_ok p (Wait k) = uses p k"
| "pc_ok p (Back k) = uses p k"
| "pc_ok p (Take k) = (\<not> chef p \<and> uses p k)"
| "pc_ok p (Shift k) = (\<not> chef p \<and> uses p k)"
| "pc_ok p (Clear k) = (\<not> chef p \<and> uses p k)"
| "pc_ok p (Drop k) = (\<not> chef p \<and> uses p k)"
| "pc_ok p (Post k) = uses p k"
| "pc_ok p Cook = chef p"
| "pc_ok p Bump = chef p"
| "pc_ok p _ = True"

fun menu :: "shm \<Rightarrow> string list" where
  "menu VEGAN = vegan_name"
| "menu NON_VEGAN = non_vegan_name"

lemma kept_same [simp]: "kept k k"
  by (cases k) simp_all

lemma live_holds: "live p c k \<Longrightarrow> holds p c k"
  by (cases c) auto

lemma all_shm: "(\<forall>k. P k) \<longleftrightarrow> P VEGAN \<and> P NON_VEGAN"
  by (metis shm.exhaust)

section \<open>The invariant\<close>

definition plocal :: "proc \<Rightarrow> shm \<Rightarrow> pc \<Rightarrow> locals \<Rightarrow> buffer \<Rightarrow> bool" where
  "plocal p k c l b \<longleftrightarrow> (live p c k \<longrightarrow>
     cnt l k = count b \<and>
     (if c = Cook \<or> c = Bump then cnt l k < MAX_ITEM else 0 < cnt l k) \<and>
     (c = Shift k \<longrightarrow> idx l k \<le> cnt l k) \<and>
     (c = Bump \<longrightarrow> items b ! unat (cnt l k) = got l k \<and> dish (got l k) \<in> set (menu k)))"

text \<open>
  What is on the tray. From copying an item out to lowering the count, one of the cells below the
  count holds no food of its own: the one the loop fills next, and the last one when the loop is
  done. Its index is the \<open>gap\<close>.
\<close>

fun gap :: "shm \<Rightarrow> pc \<Rightarrow> locals \<Rightarrow> u32 option" where
  "gap k (Shift at) l = (if at = k then Some (idx l k) else None)"
| "gap k (Clear at) l = (if at = k then Some (cnt l k) else None)"
| "gap k (Drop at) l = (if at = k then Some (cnt l k) else None)"
| "gap k _ l = None"

definition tray :: "buffer \<Rightarrow> u32 option \<Rightarrow> food list" where
  "tray b g = (case g of None \<Rightarrow> contents b
     | Some i \<Rightarrow> remove_nth (min (unat i) (unat (count b) - 1)) (contents b))"

definition gaps :: "shm \<Rightarrow> sys \<Rightarrow> u32 list" where
  "gaps k s = List.map_filter (\<lambda>p. if uses p k then gap k (pcs s p) (locs s p) else None)
     [Donatello, Portecelli, NonVegan, Vegan, Hybrid]"

definition on_tray :: "shm \<Rightarrow> sys \<Rightarrow> food list" where
  "on_tray k s = tray (bufs s k) (case gaps k s of [] \<Rightarrow> None | i # _ \<Rightarrow> Some i)"

definition kinv :: "nat \<Rightarrow> shm \<Rightarrow> sys \<Rightarrow> bool" where
  "kinv cells k s \<longleftrightarrow>
     sem.agrees (sems s k) {p. holds p (pcs s p) k} \<and>
     count (bufs s k) \<le> MAX_ITEM \<and> length (items (bufs s k)) = cells \<and>
     (\<forall>p. plocal p k (pcs s p) (locs s p) (bufs s k)) \<and>
     (\<forall>f \<in> set (cooked s k). dish f \<in> set (menu k)) \<and>
     mset (cooked s k) = mset (map snd (eaten s k)) + mset (on_tray k s)"

definition rinv :: "nat \<Rightarrow> sys \<Rightarrow> bool" where
  "rinv cells s \<longleftrightarrow> (\<forall>p. pc_ok p (pcs s p)) \<and> (\<forall>k. kinv cells k s) \<and> (10 < cells \<longrightarrow> \<not> undef s)"

section \<open>Kinds of transition\<close>

lemma plocal_not_held: "\<not> holds p c k \<Longrightarrow> plocal p k c l b"
  using live_holds by (auto simp: plocal_def)

lemma kinv_agrees: "kinv cells k s \<Longrightarrow> sem.agrees (sems s k) {p. holds p (pcs s p) k}"
  by (simp add: kinv_def)

lemma kinv_plocal: "kinv cells k s \<Longrightarrow> plocal p k (pcs s p) (locs s p) (bufs s k)"
  by (simp add: kinv_def)

lemma plocal_not_live: "\<not> live p c k \<Longrightarrow> plocal p k c l b"
  by (simp add: plocal_def)

lemma holds_excl:
  assumes "kinv cells k s" and "holds p (pcs s p) k" and "holds q (pcs s q) k"
  shows "q = p"
  by (rule sem.agrees_exclusive [OF kinv_agrees [OF assms(1)]]) (simp_all add: assms(2,3))

lemma holds_uses: "holds p c k \<Longrightarrow> uses p k"
  by (cases c) (auto split: if_splits)

lemma gap_live: "gap k c l \<noteq> None \<Longrightarrow> uses p k \<Longrightarrow> live p c k"
  by (cases c; cases k) (auto split: if_splits)

lemma gap_not_held: "\<not> holds p c k \<Longrightarrow> uses p k \<Longrightarrow> gap k c l = None"
  by (metis gap_live live_holds)

lemma on_tray_only:
  assumes "\<And>q. holds q (pcs s q) k \<Longrightarrow> q = p" and "uses p k"
  shows "on_tray k s = tray (bufs s k) (gap k (pcs s p) (locs s p))"
proof -
  have none: "(if uses q k then gap k (pcs s q) (locs s q) else None) = None" if "q \<noteq> p" for q
    using assms(1) [of q] that gap_not_held [of q "pcs s q" k "locs s q"] by auto
  note \<open>uses p k\<close>
  then have "gaps k s = (case gap k (pcs s p) (locs s p) of None \<Rightarrow> [] | Some i \<Rightarrow> [i])"
    using none [of Donatello] none [of Portecelli] none [of NonVegan] none [of Vegan] none [of Hybrid]
    unfolding gaps_def by (cases p) (simp_all add: List.map_filter_simps split: option.splits)
  then show ?thesis by (simp add: on_tray_def split: option.splits)
qed

lemma on_tray_frame:
  assumes "pcs t = (pcs s)(p := c)" and "locs t = (locs s)(p := l)" and "bufs t k = bufs s k"
    and "uses p k \<Longrightarrow> gap k c l = gap k (pcs s p) (locs s p)"
  shows "on_tray k t = on_tray k s"
proof -
  have "(if uses q k then gap k (pcs t q) (locs t q) else None) =
      (if uses q k then gap k (pcs s q) (locs s q) else None)" for q
    using assms by simp
  then have "gaps k t = gaps k s" by (simp only: gaps_def)
  then show ?thesis by (simp only: on_tray_def assms(3))
qed

lemma on_tray_cong: "pcs t = pcs s \<Longrightarrow> locs t = locs s \<Longrightarrow> bufs t = bufs s \<Longrightarrow> on_tray k t = on_tray k s"
  by (simp only: on_tray_def gaps_def)

lemma not_live_gap: "uses p k \<Longrightarrow> \<not> live p c k \<Longrightarrow> gap k c l = None"
  using gap_live by blast

lemma on_tray_held:
  "kinv cells k s \<Longrightarrow> holds p (pcs s p) k \<Longrightarrow>
    on_tray k s = tray (bufs s k) (gap k (pcs s p) (locs s p))"
  using holds_excl holds_uses by (intro on_tray_only) blast+

text \<open>A step of \<open>p\<close> that changes nothing of buffer \<open>k\<close> and holds what it held.\<close>

lemma kinv_frame:
  assumes "kinv cells k s" and "pcs t = (pcs s)(p := c)" and "locs t = (locs s)(p := l)"
    and "sems t k = sems s k" and "bufs t k = bufs s k"
    and "cooked t k = cooked s k" and "eaten t k = eaten s k"
    and "holds p c k = holds p (pcs s p) k" and "uses p k \<Longrightarrow> gap k c l = gap k (pcs s p) (locs s p)"
    and "plocal p k c l (bufs s k)"
  shows "kinv cells k t"
proof -
  have "{q. holds q (pcs t q) k} = {q. holds q (pcs s q) k}"
    using assms(2,8) by auto
  moreover have "on_tray k t = on_tray k s"
    using assms(9) by (rule on_tray_frame [OF assms(2,3,5)])
  ultimately show ?thesis
    using assms(1-7,10) by (simp add: kinv_def)
qed

text \<open>\<open>p\<close> passes \<open>sem_wait\<close> on \<open>k\<close>.\<close>

lemma kinv_acquire:
  assumes inv: "kinv cells k s" and "pcs t = (pcs s)(p := c)" and "locs t = locs s"
    and w: "sem_wait (sems s k) = Some (sems t k)" and "bufs t k = bufs s k"
    and "cooked t k = cooked s k" and "eaten t k = eaten s k"
    and "holds p c k" and "\<not> live p c k" and "\<not> holds p (pcs s p) k"
  shows "kinv cells k t"
proof -
  have ag: "{q. holds q (pcs s q) k} = {} \<and> sem.agrees (sems t k) {p}"
    using sem.agrees_acquire [OF kinv_agrees [OF inv] w] .
  then have "{q. holds q (pcs t q) k} = {p}"
    using assms(2,8) by auto
  moreover have "on_tray k t = on_tray k s"
    using assms(3) not_live_gap [OF _ assms(9)] gap_not_held [OF assms(10)]
    by (intro on_tray_frame [OF assms(2) _ assms(5), of "locs s p"]) (auto simp: fun_upd_idem)
  moreover have "plocal q k (pcs t q) (locs t q) (bufs t k)" for q
    using kinv_plocal [OF inv] plocal_not_live [OF assms(9)] assms(2,3,5)
    by (cases "q = p") simp_all
  ultimately show ?thesis
    using assms(1,5-7) ag by (simp add: kinv_def)
qed

text \<open>\<open>p\<close> posts \<open>k\<close>.\<close>

lemma kinv_release:
  assumes inv: "kinv cells k s" and "pcs t = (pcs s)(p := c)" and "locs t = locs s"
    and "sems t k = sem_post (sems s k)" and "bufs t k = bufs s k"
    and "cooked t k = cooked s k" and "eaten t k = eaten s k"
    and "holds p (pcs s p) k" and "\<not> holds p c k" and "gap k (pcs s p) (locs s p) = None"
  shows "kinv cells k t"
proof -
  have ag: "{q. holds q (pcs s q) k} = {p} \<and> sem.agrees (sems t k) ({} :: proc set)"
    using sem.agrees_release [OF kinv_agrees [OF inv], of p] assms(4,8) by simp
  then have "{q. holds q (pcs t q) k} = {}"
    using assms(2,9) by auto
  moreover have "on_tray k t = on_tray k s"
    using assms(3,10) gap_not_held [OF assms(9)]
    by (intro on_tray_frame [OF assms(2) _ assms(5), of "locs s p"]) (auto simp: fun_upd_idem)
  moreover have "plocal q k (pcs t q) (locs t q) (bufs t k)" for q
    using kinv_plocal [OF inv] plocal_not_held [OF assms(9)] assms(2,3,5)
    by (cases "q = p") simp_all
  ultimately show ?thesis
    using assms(1,5-7) ag by (simp add: kinv_def)
qed

text \<open>\<open>p\<close> writes buffer \<open>k\<close> under its semaphore.\<close>

lemma kinv_write:
  assumes inv: "kinv cells k s" and "pcs t = (pcs s)(p := c)" and "locs t = (locs s)(p := l)"
    and "sems t k = sems s k" and held: "holds p (pcs s p) k" "holds p c k"
    and "count (bufs t k) \<le> MAX_ITEM" and "length (items (bufs t k)) = cells"
    and "plocal p k c l (bufs t k)" and "\<forall>f \<in> set (cooked t k). dish f \<in> set (menu k)"
    and "mset (cooked t k) = mset (map snd (eaten t k)) +
      mset (tray (bufs t k) (gap k c l))"
  shows "kinv cells k t"
proof -
  have H: "{q. holds q (pcs t q) k} = {q. holds q (pcs s q) k}"
    using assms(2) held by auto
  have others: "\<not> holds q (pcs s q) k" if "q \<noteq> p" for q
    using holds_excl [OF inv held(1)] that by blast
  then have "plocal q k (pcs t q) (locs t q) (bufs t k)" for q
    using assms(2,3,9) plocal_not_held by (cases "q = p") simp_all
  moreover have "on_tray k t = tray (bufs t k) (gap k c l)"
    using on_tray_only [of t k p] H others holds_uses [OF held(1)] assms(2,3) by auto
  ultimately show ?thesis
    using inv assms(4,7,8,10,11) H by (simp add: kinv_def)
qed

text \<open>A step of a process that does not use buffer \<open>k\<close>.\<close>

lemma kinv_other:
  assumes "kinv cells k s" and "\<not> uses p k" and "pc_ok p (pcs s p)" and "pc_ok p c"
    and "pcs t = (pcs s)(p := c)" and "locs t = (locs s)(p := l)"
    and "sems t k = sems s k" and "bufs t k = bufs s k"
    and "cooked t k = cooked s k" and "eaten t k = eaten s k"
  shows "kinv cells k t"
proof (rule kinv_frame [OF assms(1,5-10)])
  show "holds p c k = holds p (pcs s p) k" using assms(2) holds_uses by blast
  show "gap k c l = gap k (pcs s p) (locs s p)" if "uses p k" using assms(2) that by blast
  show "plocal p k c l (bufs s k)" using assms(2) holds_uses plocal_not_held by blast
qed

lemma rinvI:
  assumes "rinv cells s" and "pcs t = (pcs s)(p := c)" and "pc_ok p c"
    and "undef t = undef s" and "\<And>k. kinv cells k t"
  shows "rinv cells t"
  using assms by (auto simp: rinv_def)

lemma rinv_kinv: "rinv cells s \<Longrightarrow> kinv cells k s"
  by (simp add: rinv_def)

lemma rinv_pc_ok: "rinv cells s \<Longrightarrow> pc_ok p (pcs s p)"
  by (simp add: rinv_def)

lemma kinv_bounds:
  "kinv cells k s \<Longrightarrow> count (bufs s k) \<le> MAX_ITEM \<and> length (items (bufs s k)) = cells"
  by (simp add: kinv_def)

text \<open>At a live point the local count is the shared one, and the tray is its prefix.\<close>

lemma live_facts:
  assumes "kinv cells k s" and "live p (pcs s p) k"
  shows "cnt (locs s p) k = count (bufs s k)"
    and "pcs s p = Cook \<or> pcs s p = Bump \<Longrightarrow> cnt (locs s p) k < MAX_ITEM"
    and "\<not> (pcs s p = Cook \<or> pcs s p = Bump) \<Longrightarrow> 0 < cnt (locs s p) k"
    and "pcs s p = Bump \<Longrightarrow> items (bufs s k) ! unat (cnt (locs s p) k) = got (locs s p) k \<and>
      dish (got (locs s p) k) \<in> set (menu k)"
    and "pcs s p = Shift k \<Longrightarrow> idx (locs s p) k \<le> cnt (locs s p) k"
  using kinv_plocal [OF assms(1), of p] assms(2) by (auto simp: plocal_def split: if_splits)

lemma kinv_conserves:
  assumes "kinv cells k s" and "holds p (pcs s p) k"
  shows "mset (cooked s k) = mset (map snd (eaten s k)) +
    mset (tray (bufs s k) (gap k (pcs s p) (locs s p)))"
  using assms on_tray_held [OF assms] by (simp add: kinv_def)

section \<open>The steps of a chef\<close>

lemma chef_cook:
  assumes inv: "rinv cells s" and "10 \<le> cells" and pc: "pcs s p = Cook" and u: "uses p k"
    and f: "put_item (cnt (locs s p) k) food (bufs s k) = Some b" and d: "dish food \<in> set (menu k)"
    and others: "\<And>k'. uses p k' \<Longrightarrow> k' = k" and ch: "chef p"
  shows "rinv cells (goto p Bump (set_got p k food (set_buf k b s)))" (is "rinv cells ?t")
proof (rule rinvI [OF inv, where p = p and c = Bump])
  note K = rinv_kinv [OF inv, of k]
  have live: "live p (pcs s p) k" using pc u by simp
  note facts = live_facts(1,2) [OF K live]
  have lt: "unat (count (bufs s k)) < 10" and room: "unat (count (bufs s k)) < cells"
    using facts pc assms(2) by (simp_all add: word_less_nat_alt)
  then have b: "b = (bufs s k)\<lparr>items := (items (bufs s k))[unat (count (bufs s k)) := food]\<rparr>"
    using f facts(1) kinv_bounds [OF K] by (simp add: put_item_eq)
  show "kinv cells k' ?t" for k'
  proof (cases "k' = k")
    case True
    have "kinv cells k ?t"
      using kinv_bounds [OF K] kinv_conserves [OF K, of p] facts pc u d b room K
      by (intro kinv_write [OF K, where p = p and c = Bump])
        (auto simp: sys_ops plocal_def kinv_def tray_def contents_def)
    with True show ?thesis by simp
  next
    case False
    then have "\<not> uses p k'" using others by blast
    with False show ?thesis
      by (intro kinv_other [OF rinv_kinv [OF inv], where p = p and c = Bump])
        (use rinv_pc_ok [OF inv, of p] ch in \<open>auto simp: sys_ops\<close>)
  qed
qed (auto simp: sys_ops ch)

lemma chef_bump:
  assumes inv: "rinv cells s" and "10 \<le> cells" and pc: "pcs s p = Bump" and u: "uses p k"
    and others: "\<And>k'. uses p k' \<Longrightarrow> k' = k" and ch: "chef p"
  shows "rinv cells (goto p (Post k) (note_cooked k (got (locs s p) k)
    (set_buf k (set_count (cnt (locs s p) k + 1) (bufs s k)) s)))" (is "rinv cells ?t")
proof (rule rinvI [OF inv, where p = p and c = "Post k"])
  note K = rinv_kinv [OF inv, of k]
  have live: "live p (pcs s p) k" using pc u by simp
  note facts = live_facts [OF K live]
  have s: "unat (count (bufs s k) + 1) = Suc (unat (count (bufs s k)))"
    and le: "count (bufs s k) + 1 \<le> MAX_ITEM"
    using facts(1,2) pc by (simp_all add: unat_Suc_lt unat_Suc_le)
  have room: "unat (count (bufs s k)) < length (items (bufs s k))"
    using facts(1,2) pc assms(2) kinv_bounds [OF K] by (simp add: word_less_nat_alt)
  show "kinv cells k' ?t" for k'
  proof (cases "k' = k")
    case True
    have "plocal p k (Post k) (locs s p) b" for b
      using ch by (intro plocal_not_live) auto
    then have "kinv cells k ?t"
      using kinv_bounds [OF K] kinv_conserves [OF K, of p] facts pc u s le room K
      by (intro kinv_write [OF K, where p = p and c = "Post k" and l = "locs s p"])
        (auto simp: sys_ops set_count_def kinv_def tray_def contents_def take_Suc_conv_app_nth)
    with True show ?thesis by simp
  next
    case False
    then have "\<not> uses p k'" using others by blast
    with False show ?thesis
      by (intro kinv_other [OF rinv_kinv [OF inv], where p = p and c = "Post k" and l = "locs s p"])
        (use rinv_pc_ok [OF inv, of p] ch u in \<open>auto simp: sys_ops\<close>)
  qed
qed (auto simp: sys_ops u)

section \<open>Steps that touch no buffer\<close>

lemma rinv_quiet:
  assumes inv: "rinv cells s" and "pcs t = (pcs s)(p := c)" and "locs t = (locs s)(p := l)"
    and "bufs t = bufs s" "sems t = sems s" "cooked t = cooked s" "eaten t = eaten s" "undef t = undef s"
    and "pc_ok p c" and "\<And>k. holds p c k = holds p (pcs s p) k"
    and "\<And>k. gap k c l = gap k (pcs s p) (locs s p)" and "\<And>k. plocal p k c l (bufs s k)"
  shows "rinv cells t"
proof (rule rinvI [OF inv assms(2,9,8)])
  show "kinv cells k t" for k
    by (rule kinv_frame [OF rinv_kinv [OF inv] assms(2,3)]) (use assms in simp_all)
qed

lemma rinv_wait:
  assumes inv: "rinv cells s" and w: "wait_on p k c s = Some t"
    and "pc_ok p c" and "\<not> holds p (pcs s p) k" and "holds p c k" and "\<And>k'. \<not> live p c k'"
    and "\<And>k'. k' \<noteq> k \<Longrightarrow> holds p c k' = holds p (pcs s p) k'"
    and "\<And>k'. gap k' c (locs s p) = None \<and> gap k' (pcs s p) (locs s p) = None"
  shows "rinv cells t"
proof -
  from w obtain v where v: "sem_wait (sems s k) = Some v" and t: "t = goto p c (set_sem k v s)"
    by (auto simp: wait_on_def split: option.splits)
  show ?thesis
  proof (rule rinvI [OF inv, where p = p and c = c])
    show "kinv cells k' t" for k'
    proof (cases "k' = k")
      case True
      have "kinv cells k t"
        using v assms(4-6) by (intro kinv_acquire [OF rinv_kinv [OF inv], where p = p and c = c])
          (auto simp: t sys_ops)
      with True show ?thesis by simp
    next
      case False
      then show ?thesis
        using assms(6-8) by (intro kinv_frame [OF rinv_kinv [OF inv], where p = p and c = c and l = "locs s p"])
          (auto simp: t sys_ops plocal_not_live)
    qed
  qed (auto simp: t sys_ops assms(3))
qed

lemma rinv_post:
  assumes inv: "rinv cells s" and "pc_ok p c"
    and "holds p (pcs s p) k" and "\<not> holds p c k"
    and "\<And>k'. k' \<noteq> k \<Longrightarrow> holds p c k' = holds p (pcs s p) k' \<and> plocal p k' c (locs s p) (bufs s k')"
    and "\<And>k'. gap k' c (locs s p) = None \<and> gap k' (pcs s p) (locs s p) = None"
  shows "rinv cells (post_on p k c s)" (is "rinv cells ?t")
proof (rule rinvI [OF inv, where p = p and c = c])
  show "kinv cells k' ?t" for k'
  proof (cases "k' = k")
    case True
    have "kinv cells k ?t"
      using assms(3,4,6) by (intro kinv_release [OF rinv_kinv [OF inv], where p = p and c = c])
        (auto simp: post_on_def sys_ops)
    with True show ?thesis by simp
  next
    case False
    then show ?thesis
      using assms(5,6) by (intro kinv_frame [OF rinv_kinv [OF inv], where p = p and c = c and l = "locs s p"])
        (auto simp: post_on_def sys_ops)
  qed
qed (auto simp: post_on_def sys_ops assms(2))

text \<open>Reaching undefined behaviour needs a buffer with no cell behind its array.\<close>

lemma kinv_cong:
  "kinv cells k s \<Longrightarrow> pcs t = pcs s \<Longrightarrow> locs t = locs s \<Longrightarrow> bufs t = bufs s \<Longrightarrow> sems t = sems s \<Longrightarrow>
    cooked t = cooked s \<Longrightarrow> eaten t = eaten s \<Longrightarrow> kinv cells k t"
  using on_tray_cong [of t s k] by (simp add: kinv_def)

lemma rinv_undef: "rinv cells s \<Longrightarrow> \<not> 10 < cells \<Longrightarrow> rinv cells (s\<lparr>undef := True\<rparr>)"
  using kinv_cong [of cells _ s "s\<lparr>undef := True\<rparr>"] by (simp add: rinv_def)

lemma rinv_log: "rinv cells s \<Longrightarrow> rinv cells (say p x s)"
  using kinv_cong [of cells _ s "say p x s"] by (simp add: rinv_def say_def)

lemma menu_names: "name \<in> set (menu k) \<Longrightarrow> snprintf_s 255 name = name"
  by (cases k) (auto simp: snprintf_s_def vegan_name_def non_vegan_name_def)

lemma rd_menu: "\<exists>name. rd (menu k) (r mod 2) = Some name \<and> name \<in> set (menu k)"
proof -
  have "unat (r mod 2) < 2" by (simp add: unat_mod)
  then have "unat (r mod 2) < length (menu k)"
    by (cases k) (simp_all add: vegan_name_def non_vegan_name_def)
  then show ?thesis by (simp add: rd_def)
qed

lemma rinv_chef:
  assumes inv: "rinv cells s" and cells: "10 \<le> cells" and ch: "chef p" and u: "uses p k"
    and step: "chef_step k (menu k) who p rand time s = Some t"
  shows "rinv cells t"
proof -
  have only: "k' = k" if "uses p k'" for k' using that u ch by (cases p) auto
  then have nu: "\<not> uses p k'" if "k' \<noteq> k" for k' using that by blast
  note ok = rinv_pc_ok [OF inv, of p]
  show ?thesis
  proof (cases "pcs s p")
    case Top
    with step inv show ?thesis
      by (intro rinv_quiet [OF inv, of t p "if running s p then Wait k else Gone" "locs s p"])
        (use ch u in \<open>auto simp: chef_step_def sys_ops plocal_not_live split: if_splits\<close>)
  next
    case (Wait k')
    with ok only have "k' = k" by simp
    with Wait step have "wait_on p k Read s = Some t" by (simp add: chef_step_def)
    then show ?thesis using Wait u nu ch by (elim rinv_wait [OF inv]) auto
  next
    case Read
    let ?c = "if count (bufs s k) \<ge> MAX_ITEM then Back k else Cook"
    have "t = goto p ?c (load_count p k s)" using Read step by (simp add: chef_step_def)
    then show ?thesis
      using Read u nu ch
      by (intro rinv_quiet [OF inv, of t p ?c "(locs s p)\<lparr>cnt := (cnt (locs s p))(k := count (bufs s k))\<rparr>"])
        (auto simp: sys_ops plocal_def not_le)
  next
    case (Back k')
    with ok only have "k' = k" by simp
    with Back step have "t = post_on p k Top s" by (simp add: chef_step_def)
    moreover have "rinv cells (post_on p k Top s)"
      by (rule rinv_post [OF inv]) (use Back u nu \<open>k' = k\<close> in \<open>auto simp: plocal_not_live\<close>)
    ultimately show ?thesis by simp
  next
    case Cook
    obtain name where name: "rd (menu k) (rand mod 2) = Some name" "name \<in> set (menu k)"
      using rd_menu by blast
    let ?f = "make_food (cnt (locs s p) k) time name"
    have room: "unat (cnt (locs s p) k) < length (items (bufs s k))"
      using live_facts(1,2) [OF rinv_kinv [OF inv], of p k] kinv_bounds [OF rinv_kinv [OF inv], of k]
        Cook u cells by (simp add: word_less_nat_alt)
    then obtain b where b: "put_item (cnt (locs s p) k) ?f (bufs s k) = Some b"
      by (simp add: put_item_eq)
    have d: "dish ?f \<in> set (menu k)" using name(2) by (simp add: make_food_def menu_names)
    have "t = goto p Bump (set_got p k ?f (set_buf k b s))"
      using Cook step name b by (simp add: chef_step_def Let_def)
    then show ?thesis using chef_cook [OF inv cells Cook u b d only ch] by simp
  next
    case Bump
    with step chef_bump [OF inv cells Bump u only ch] show ?thesis by (simp add: chef_step_def Let_def)
  next
    case (Post k')
    with ok only have "k' = k" by simp
    with Post step have "t = post_on p k Report s" by (simp add: chef_step_def)
    moreover have "rinv cells (post_on p k Report s)"
      by (rule rinv_post [OF inv]) (use Post u nu \<open>k' = k\<close> in \<open>auto simp: plocal_not_live\<close>)
    ultimately show ?thesis by simp
  next
    case Report
    then show ?thesis using step
      by (intro rinv_quiet [OF inv, of t p Top "locs s p"])
        (auto simp: chef_step_def sys_ops plocal_not_live Let_def)
  qed (use step in \<open>simp_all add: chef_step_def\<close>)
qed

section \<open>The steps of the customers\<close>

text \<open>A step of a customer inside the section of \<open>k\<close>: what is eaten and what is left on the tray
  stay the same together, and nothing of the other buffer changes.\<close>

lemma rinv_section:
  assumes inv: "rinv cells s" and "pcs t = (pcs s)(p := c)" and "locs t = (locs s)(p := l)"
    and "sems t = sems s" "cooked t = cooked s" "undef t = undef s" and "pc_ok p c"
    and "holds p (pcs s p) k" "holds p c k"
    and other: "\<And>k'. k' \<noteq> k \<Longrightarrow> bufs t k' = bufs s k' \<and> eaten t k' = eaten s k' \<and>
      holds p c k' = holds p (pcs s p) k' \<and> gap k' c l = gap k' (pcs s p) (locs s p) \<and>
      plocal p k' c l (bufs s k')"
    and "count (bufs t k) \<le> MAX_ITEM" "length (items (bufs t k)) = cells" "plocal p k c l (bufs t k)"
    and food: "mset (map snd (eaten t k)) + mset (tray (bufs t k) (gap k c l)) =
      mset (map snd (eaten s k)) + mset (tray (bufs s k) (gap k (pcs s p) (locs s p)))"
  shows "rinv cells t"
proof (rule rinvI [OF inv assms(2,7,6)])
  note K = rinv_kinv [OF inv]
  show "kinv cells k' t" for k'
  proof (cases "k' = k")
    case True
    have "mset (cooked t k) = mset (map snd (eaten t k)) + mset (tray (bufs t k) (gap k c l))"
      using kinv_conserves [OF K assms(8)] assms(5) unfolding food by simp
    moreover have "\<forall>f \<in> set (cooked t k). dish f \<in> set (menu k)" using K [of k] assms(5) by (simp add: kinv_def)
    ultimately have "kinv cells k t"
      using assms(4) by (intro kinv_write [OF K assms(2,3) _ assms(8,9)]) (use assms in simp_all)
    with True show ?thesis by simp
  next
    case False
    from other [OF this] assms(4,5) show ?thesis
      by (intro kinv_frame [OF K assms(2,3)]) simp_all
  qed
qed

text \<open>What holds inside a section while the count is in use.\<close>

lemma section_facts:
  assumes inv: "rinv cells s" and "10 \<le> cells" and pc: "pcs s p \<in> {Take k, Shift k, Clear k, Drop k}"
    and u: "uses p k"
  shows "cnt (locs s p) k = count (bufs s k)" "0 < count (bufs s k)" "unat (count (bufs s k)) \<le> 10"
    "length (items (bufs s k)) = cells" "holds p (pcs s p) k"
    "length (contents (bufs s k)) = unat (count (bufs s k))"
    "pcs s p = Shift k \<Longrightarrow> idx (locs s p) k \<le> count (bufs s k)"
proof -
  note K = rinv_kinv [OF inv, of k]
  have live: "live p (pcs s p) k" using pc u by (cases k) auto
  note facts = live_facts [OF K live]
  show c: "cnt (locs s p) k = count (bufs s k)" by (rule facts(1))
  show "0 < count (bufs s k)" using facts(1,3) pc by auto
  show n: "unat (count (bufs s k)) \<le> 10" using kinv_bounds [OF K] by (simp add: word_le_nat_alt)
  show l: "length (items (bufs s k)) = cells" using kinv_bounds [OF K] by simp
  show "holds p (pcs s p) k" using live by (rule live_holds)
  show "length (contents (bufs s k)) = unat (count (bufs s k))"
    using n l assms(2) by (simp add: contents_def)
  show "idx (locs s p) k \<le> count (bufs s k)" if "pcs s p = Shift k" using facts(5) that c by simp
qed

text \<open>What the hybrid customer keeps of the other buffer.\<close>

lemma other_plocal:
  assumes inv: "rinv cells s" and pc: "pcs s p \<in> {Take k, Shift k, Clear k, Drop k}"
    and c: "c \<in> {Shift k, Clear k, Drop k, Post k}" and k': "k' \<noteq> k"
    and l: "cnt l k' = cnt (locs s p) k'" and u: "uses p k" "\<not> chef p"
  shows "plocal p k' c l (bufs s k')"
proof (cases "live p c k'")
  case True
  then have "live p (pcs s p) k'" using pc c k' by (cases k; cases k') auto
  with kinv_plocal [OF rinv_kinv [OF inv], of p k'] True pc c k' l show ?thesis
    by (auto simp: plocal_def)
qed (rule plocal_not_live)

lemma rinv_take:
  assumes inv: "rinv cells s" and cells: "10 \<le> cells" and pc: "pcs s p = Take k"
    and u: "uses p k" and ch: "\<not> chef p"
  shows "rinv cells (take_step p k rand s)"
proof -
  let ?b = "bufs s k"
  have sec: "pcs s p \<in> {Take k, Shift k, Clear k, Drop k}" using pc by simp
  note facts = section_facts [OF inv cells sec u]
  define i where "i = rand mod count ?b"
  have i: "unat i < unat (count ?b)" using mod_less_u32 [OF facts(2)] by (simp add: i_def)
  define l where "l = (locs s p)\<lparr>idx := (idx (locs s p))(k := i), got := (got (locs s p))(k := items ?b ! unat i)\<rparr>"
  let ?t = "take_step p k rand s"
  have "rd (items ?b) i = Some (items ?b ! unat i)" using i facts(3,4) cells by (simp add: rd_def)
  then have t: "?t = goto p (Shift k) (note_eaten p k (items ?b ! unat i) (s\<lparr>locs := (locs s)(p := l)\<rparr>))"
    using facts(1) by (simp add: take_step_def i_def l_def sys_ops Let_def)
  show ?thesis
  proof (rule rinv_section [OF inv, of ?t p "Shift k" l k])
    show "plocal p k (Shift k) l (bufs ?t k)"
      using facts i by (simp add: t sys_ops plocal_def l_def word_le_nat_alt)
    have "items ?b ! unat i = contents ?b ! unat i" using i by (simp add: contents_def)
    then show "mset (map snd (eaten ?t k)) + mset (tray (bufs ?t k) (gap k (Shift k) l)) =
        mset (map snd (eaten s k)) + mset (tray ?b (gap k (pcs s p) (locs s p)))"
      using mset_remove_nth [of "unat i" "contents ?b"] i facts(6) pc
      by (simp add: t sys_ops tray_def l_def min.absorb1)
    show "bufs ?t k' = bufs s k' \<and> eaten ?t k' = eaten s k' \<and> holds p (Shift k) k' = holds p (pcs s p) k' \<and>
        gap k' (Shift k) l = gap k' (pcs s p) (locs s p) \<and> plocal p k' (Shift k) l (bufs s k')" if "k' \<noteq> k" for k'
      using that pc other_plocal [OF inv sec _ that _ u ch, of "Shift k" l] by (simp add: t sys_ops l_def)
  qed (use facts ch u kinv_bounds [OF rinv_kinv [OF inv]] in \<open>simp_all add: t sys_ops l_def\<close>)
qed

lemma rinv_shift:
  assumes inv: "rinv cells s" and cells: "10 \<le> cells" and pc: "pcs s p = Shift k"
    and u: "uses p k" and ch: "\<not> chef p"
  shows "rinv cells (shift_step p k s)"
proof -
  let ?b = "bufs s k" and ?t = "shift_step p k s"
  have sec: "pcs s p \<in> {Take k, Shift k, Clear k, Drop k}" using pc by simp
  note facts = section_facts [OF inv cells sec u]
  define i where "i = idx (locs s p) k"
  define n where "n = unat (count ?b)"
  have le: "unat i \<le> n" using facts(7) [OF pc] by (simp add: i_def n_def word_le_nat_alt)
  consider (finished) "\<not> i < count ?b" | (out) "i < count ?b" "cells \<le> Suc (unat i)"
    | (move) "i < count ?b" "Suc (unat i) < cells" by linarith
  then show ?thesis
  proof cases
    case finished
    then have i: "i = count ?b" using le by (simp add: n_def word_le_nat_alt word_less_nat_alt word_unat_eq_iff)
    have t: "?t = goto p (Clear k) s" using finished facts(1) by (simp add: shift_step_def i_def Let_def)
    show ?thesis
    proof (rule rinv_section [OF inv, of ?t p "Clear k" "locs s p" k])
      show "bufs ?t k' = bufs s k' \<and> eaten ?t k' = eaten s k' \<and> holds p (Clear k) k' = holds p (pcs s p) k' \<and>
          gap k' (Clear k) (locs s p) = gap k' (pcs s p) (locs s p) \<and>
          plocal p k' (Clear k) (locs s p) (bufs s k')" if "k' \<noteq> k" for k'
        using that pc other_plocal [OF inv sec _ that _ u ch, of "Clear k"] by (simp add: t sys_ops)
      show "plocal p k (Clear k) (locs s p) (bufs ?t k)" using facts by (simp add: t sys_ops plocal_def)
      show "mset (map snd (eaten ?t k)) + mset (tray (bufs ?t k) (gap k (Clear k) (locs s p))) =
          mset (map snd (eaten s k)) + mset (tray ?b (gap k (pcs s p) (locs s p)))"
        using pc i facts(1) by (simp add: t sys_ops i_def)
    qed (use facts ch u kinv_bounds [OF rinv_kinv [OF inv]] in \<open>simp_all add: t sys_ops fun_upd_idem\<close>)
  next
    case out
    have s: "unat (i + 1) = Suc (unat i)" using unat_Suc_lt [OF out(1)] .
    have "unat i < n" using out(1) by (simp add: n_def word_less_nat_alt)
    then have "\<not> 10 < cells" using out(2) facts(3) by (simp add: n_def)
    moreover have "shift_cell (items ?b) i = None"
      using out(2) facts(4) s by (simp add: shift_cell_def rd_def)
    ultimately show ?thesis
      using rinv_undef [OF inv] out(1) facts(1) by (simp add: shift_step_def i_def Let_def)
  next
    case move
    have s: "unat (i + 1) = Suc (unat i)" using unat_Suc_lt [OF move(1)] .
    have i: "unat i < n" using move(1) by (simp add: n_def word_less_nat_alt)
    let ?its = "(items ?b)[unat i := items ?b ! Suc (unat i)]"
    define l where "l = (locs s p)\<lparr>idx := (idx (locs s p))(k := i + 1)\<rparr>"
    have "shift_cell (items ?b) i = Some ?its"
      using move(2) facts(4) s by (simp add: shift_cell_def mem_simps)
    then have t: "?t = goto p (Shift k) (set_buf k (?b\<lparr>items := ?its\<rparr>) (s\<lparr>locs := (locs s)(p := l)\<rparr>))"
      using move(1) facts(1) by (simp add: shift_step_def i_def l_def sys_ops Let_def)
    have len: "length (items ?b) = cells" "n \<le> cells" using facts(3,4) cells by (simp_all add: n_def)
    have left: "remove_nth (min (Suc (unat i)) (n - 1)) (take n ?its) = remove_nth (min (unat i) (n - 1)) (take n (items ?b))"
    proof (cases "Suc (unat i) < n")
      case True
      then have "remove_nth (Suc (unat i)) ((take n (items ?b))[unat i := take n (items ?b) ! Suc (unat i)]) =
          remove_nth (unat i) (take n (items ?b))"
        using len by (intro remove_nth_shift) simp
      with True show ?thesis by (simp add: take_update_swap min.absorb1)
    next
      case False
      then have "n - 1 = unat i" using i by simp
      with i len show ?thesis
        using remove_nth_last [of n ?its] remove_nth_last [of n "items ?b"] by simp
    qed
    show ?thesis
    proof (rule rinv_section [OF inv, of ?t p "Shift k" l k])
      show "bufs ?t k' = bufs s k' \<and> eaten ?t k' = eaten s k' \<and> holds p (Shift k) k' = holds p (pcs s p) k' \<and>
          gap k' (Shift k) l = gap k' (pcs s p) (locs s p) \<and> plocal p k' (Shift k) l (bufs s k')" if "k' \<noteq> k" for k'
        using that pc other_plocal [OF inv sec _ that _ u ch, of "Shift k" l] by (simp add: t sys_ops l_def)
      show "plocal p k (Shift k) l (bufs ?t k)"
        using facts i s by (simp add: t sys_ops plocal_def l_def word_le_nat_alt n_def)
      show "mset (map snd (eaten ?t k)) + mset (tray (bufs ?t k) (gap k (Shift k) l)) =
          mset (map snd (eaten s k)) + mset (tray ?b (gap k (pcs s p) (locs s p)))"
        using left pc s by (simp add: t sys_ops tray_def contents_def l_def i_def n_def)
    qed (use facts ch u kinv_bounds [OF rinv_kinv [OF inv]] in \<open>simp_all add: t sys_ops l_def\<close>)
  qed
qed

lemma rinv_clear:
  assumes inv: "rinv cells s" and cells: "10 \<le> cells" and pc: "pcs s p = Clear k"
    and u: "uses p k" and ch: "\<not> chef p"
  shows "rinv cells (clear_step p k s)"
proof -
  let ?b = "bufs s k" and ?t = "clear_step p k s"
  have sec: "pcs s p \<in> {Take k, Shift k, Clear k, Drop k}" using pc by simp
  note facts = section_facts [OF inv cells sec u]
  show ?thesis
  proof (cases "unat (count ?b) < cells")
    case False
    then have "wr (items ?b) (count ?b) zero_food = None" "\<not> 10 < cells"
      using facts(3,4) by (simp_all add: wr_def)
    then show ?thesis using rinv_undef [OF inv] facts(1) by (simp add: clear_step_def)
  next
    case True
    then have "wr (items ?b) (count ?b) zero_food = Some ((items ?b)[unat (count ?b) := zero_food])"
      using facts(4) by (simp add: mem_simps)
    then have t: "?t = goto p (Drop k) (set_buf k (?b\<lparr>items := (items ?b)[unat (count ?b) := zero_food]\<rparr>) s)"
      using facts(1) by (simp add: clear_step_def)
    show ?thesis
    proof (rule rinv_section [OF inv, of ?t p "Drop k" "locs s p" k])
      show "bufs ?t k' = bufs s k' \<and> eaten ?t k' = eaten s k' \<and> holds p (Drop k) k' = holds p (pcs s p) k' \<and>
          gap k' (Drop k) (locs s p) = gap k' (pcs s p) (locs s p) \<and>
          plocal p k' (Drop k) (locs s p) (bufs s k')" if "k' \<noteq> k" for k'
        using that pc other_plocal [OF inv sec _ that _ u ch, of "Drop k"] by (simp add: t sys_ops)
      show "plocal p k (Drop k) (locs s p) (bufs ?t k)" using facts by (simp add: t sys_ops plocal_def)
      show "mset (map snd (eaten ?t k)) + mset (tray (bufs ?t k) (gap k (Drop k) (locs s p))) =
          mset (map snd (eaten s k)) + mset (tray ?b (gap k (pcs s p) (locs s p)))"
        using pc by (simp add: t sys_ops tray_def contents_def)
    qed (use facts ch u kinv_bounds [OF rinv_kinv [OF inv]] in \<open>simp_all add: t sys_ops fun_upd_idem\<close>)
  qed
qed

lemma rinv_drop:
  assumes inv: "rinv cells s" and cells: "10 \<le> cells" and pc: "pcs s p = Drop k"
    and u: "uses p k" and ch: "\<not> chef p"
  shows "rinv cells (drop_step p k s)"
proof -
  let ?b = "bufs s k" and ?t = "drop_step p k s"
  have sec: "pcs s p \<in> {Take k, Shift k, Clear k, Drop k}" using pc by simp
  note facts = section_facts [OF inv cells sec u]
  define n where "n = unat (count ?b)"
  have pos: "0 < n" using facts(2) by (simp add: n_def word_less_nat_alt)
  have m: "unat (count ?b - 1) = n - 1" unfolding n_def using facts(2) by (intro unat_pred) auto
  have t: "?t = goto p (Post k) (set_buf k (set_count (count ?b - 1) ?b) s)"
    using facts(1) by (simp add: drop_step_def)
  show ?thesis
  proof (rule rinv_section [OF inv, of ?t p "Post k" "locs s p" k])
    show "bufs ?t k' = bufs s k' \<and> eaten ?t k' = eaten s k' \<and> holds p (Post k) k' = holds p (pcs s p) k' \<and>
        gap k' (Post k) (locs s p) = gap k' (pcs s p) (locs s p) \<and>
        plocal p k' (Post k) (locs s p) (bufs s k')" if "k' \<noteq> k" for k'
      using that pc other_plocal [OF inv sec _ that _ u ch, of "Post k"] by (simp add: t sys_ops)
    show "plocal p k (Post k) (locs s p) (bufs ?t k)" by (rule plocal_not_live) (cases k; simp)
    show "count (bufs ?t k) \<le> MAX_ITEM"
      using facts(3) m by (simp add: t sys_ops set_count_def word_le_nat_alt n_def)
    show "mset (map snd (eaten ?t k)) + mset (tray (bufs ?t k) (gap k (Post k) (locs s p))) =
        mset (map snd (eaten s k)) + mset (tray ?b (gap k (pcs s p) (locs s p)))"
      using pc facts(1,3,4) m pos cells remove_nth_last [of n "items ?b"]
      by (simp add: t sys_ops tray_def contents_def set_count_def n_def min.absorb2)
  qed (use facts ch u in \<open>simp_all add: t sys_ops set_count_def fun_upd_idem\<close>)
qed

lemma rinv_customer:
  assumes inv: "rinv cells s" and cells: "10 \<le> cells" and ch: "\<not> chef p" and u: "uses p k"
    and hy: "p \<noteq> Hybrid" and step: "customer_step k who p rand s = Some t"
  shows "rinv cells t"
proof -
  have only: "k' = k" if "uses p k'" for k' using that u ch hy by (cases p) auto
  then have us: "uses p k' \<longleftrightarrow> k' = k" for k' using u by blast
  note ok = rinv_pc_ok [OF inv, of p]
  show ?thesis
  proof (cases "pcs s p")
    case Top
    with step inv show ?thesis
      by (intro rinv_quiet [OF inv, of t p "if running s p then Wait k else Gone" "locs s p"])
        (use hy u in \<open>auto simp: customer_step_def sys_ops plocal_not_live split: if_splits\<close>)
  next
    case (Wait k')
    with ok only have "k' = k" by simp
    with Wait step have "wait_on p k Read s = Some t" by (simp add: customer_step_def)
    then show ?thesis using Wait us hy by (elim rinv_wait [OF inv]) auto
  next
    case Read
    let ?c = "if count (bufs s k) \<le> 0 then Back k else Take k"
    have "t = goto p ?c (load_count p k s)" using Read step by (simp add: customer_step_def)
    then show ?thesis
      using Read us ch hy
      by (intro rinv_quiet [OF inv, of t p ?c "(locs s p)\<lparr>cnt := (cnt (locs s p))(k := count (bufs s k))\<rparr>"])
        (auto simp: sys_ops plocal_def word_gt_0)
  next
    case (Back k')
    with ok only have "k' = k" by simp
    with Back step have "t = post_on p k Top s" by (simp add: customer_step_def)
    moreover have "rinv cells (post_on p k Top s)"
      by (rule rinv_post [OF inv]) (use Back us hy \<open>k' = k\<close> in \<open>auto simp: plocal_not_live\<close>)
    ultimately show ?thesis by simp
  next
    case (Take k')
    with ok only have "k' = k" by simp
    with Take step have "t = take_step p k rand s" by (simp add: customer_step_def)
    with rinv_take [OF inv cells _ u ch] Take \<open>k' = k\<close> show ?thesis by simp
  next
    case (Shift k')
    with ok only have "k' = k" by simp
    with Shift step have "t = shift_step p k s" by (simp add: customer_step_def)
    with rinv_shift [OF inv cells _ u ch] Shift \<open>k' = k\<close> show ?thesis by simp
  next
    case (Clear k')
    with ok only have "k' = k" by simp
    with Clear step have "t = clear_step p k s" by (simp add: customer_step_def)
    with rinv_clear [OF inv cells _ u ch] Clear \<open>k' = k\<close> show ?thesis by simp
  next
    case (Drop k')
    with ok only have "k' = k" by simp
    with Drop step have "t = drop_step p k s" by (simp add: customer_step_def)
    with rinv_drop [OF inv cells _ u ch] Drop \<open>k' = k\<close> show ?thesis by simp
  next
    case (Post k')
    with ok only have "k' = k" by simp
    with Post step have "t = post_on p k Report s" by (simp add: customer_step_def)
    moreover have "rinv cells (post_on p k Report s)"
      by (rule rinv_post [OF inv]) (use Post us hy \<open>k' = k\<close> in \<open>auto simp: plocal_not_live\<close>)
    ultimately show ?thesis by simp
  next
    case Report
    then show ?thesis using step
      by (intro rinv_quiet [OF inv, of t p Top "locs s p"])
        (auto simp: customer_step_def sys_ops plocal_not_live Let_def)
  qed (use step in \<open>simp_all add: customer_step_def\<close>)
qed

text \<open>What the hybrid customer has loaded stays usable while it moves on.\<close>

lemma plocal_hybrid_after_vegan:
  assumes "plocal Hybrid NON_VEGAN (Post VEGAN) l b"
  shows "plocal Hybrid NON_VEGAN (Take NON_VEGAN) l b"
  using assms by (auto simp: plocal_def)

lemma rinv_hybrid:
  assumes inv: "rinv cells s" and cells: "10 \<le> cells" and step: "hybridCustomer rand s = Some t"
  shows "rinv cells t"
proof (cases "pcs s Hybrid")
  case Top
  with step show ?thesis
    by (intro rinv_quiet [OF inv, of t Hybrid "if running s Hybrid then Wait VEGAN else Gone" "locs s Hybrid"])
      (auto simp: hybridCustomer_def sys_ops plocal_not_live Let_def split: if_splits)
next
  case (Wait k)
  show ?thesis
  proof (cases k)
    case VEGAN
    with Wait step have "wait_on Hybrid VEGAN (Wait NON_VEGAN) s = Some t"
      by (simp add: hybridCustomer_def Let_def)
    with Wait VEGAN show ?thesis by (elim rinv_wait [OF inv]) auto
  next
    case NON_VEGAN
    with Wait step have "wait_on Hybrid NON_VEGAN Read s = Some t"
      by (simp add: hybridCustomer_def Let_def)
    moreover have "k' = VEGAN" if "k' \<noteq> NON_VEGAN" for k' using that by (cases k') auto
    ultimately show ?thesis using Wait NON_VEGAN by (elim rinv_wait [OF inv]) auto
  qed
next
  case Read
  let ?c = "if count (bufs s VEGAN) \<le> 0 \<or> count (bufs s NON_VEGAN) \<le> 0 then Back VEGAN else Take VEGAN"
  let ?l = "(locs s Hybrid)\<lparr>cnt := (cnt (locs s Hybrid))
    (VEGAN := count (bufs s VEGAN), NON_VEGAN := count (bufs s NON_VEGAN))\<rparr>"
  have "t = goto Hybrid ?c (load_count Hybrid NON_VEGAN (load_count Hybrid VEGAN s))"
    using Read step by (simp add: hybridCustomer_def Let_def)
  moreover have "plocal Hybrid k ?c ?l (bufs s k)" for k
    by (cases k) (auto simp: plocal_def word_gt_0)
  ultimately show ?thesis
    using Read by (intro rinv_quiet [OF inv, of t Hybrid ?c ?l]) (auto simp: sys_ops)
next
  case (Back k)
  have "t = post_on Hybrid k (if k = VEGAN then Back NON_VEGAN else Top) s"
    using Back step by (cases k) (simp_all add: hybridCustomer_def Let_def)
  moreover have "k' = (if k = VEGAN then NON_VEGAN else VEGAN)" if "k' \<noteq> k" for k'
    using that by (cases k; cases k') auto
  then have "rinv cells (post_on Hybrid k (if k = VEGAN then Back NON_VEGAN else Top) s)"
    using Back by (intro rinv_post [OF inv]) (cases k; auto simp: plocal_not_live)+
  ultimately show ?thesis by simp
next
  case (Take k)
  then have "t = take_step Hybrid k rand s"
    using step by (cases k) (simp_all add: hybridCustomer_def Let_def)
  with rinv_take [OF inv cells Take] show ?thesis by simp
next
  case (Shift k)
  then have "t = shift_step Hybrid k s"
    using step by (cases k) (simp_all add: hybridCustomer_def Let_def)
  with rinv_shift [OF inv cells Shift] show ?thesis by simp
next
  case (Clear k)
  then have "t = clear_step Hybrid k s"
    using step by (cases k) (simp_all add: hybridCustomer_def Let_def)
  with rinv_clear [OF inv cells Clear] show ?thesis by simp
next
  case (Drop k)
  then have "t = drop_step Hybrid k s"
    using step by (cases k) (simp_all add: hybridCustomer_def Let_def)
  with rinv_drop [OF inv cells Drop] show ?thesis by simp
next
  case (Post k)
  show ?thesis
  proof (cases k)
    case VEGAN
    have "plocal Hybrid NON_VEGAN (Take NON_VEGAN) (locs s Hybrid) (bufs s NON_VEGAN)"
      using kinv_plocal [OF rinv_kinv [OF inv], of Hybrid NON_VEGAN] Post VEGAN
      by (simp add: plocal_hybrid_after_vegan)
    moreover have "k' = NON_VEGAN" if "k' \<noteq> VEGAN" for k' using that by (cases k') auto
    ultimately have "rinv cells (post_on Hybrid VEGAN (Take NON_VEGAN) s)"
      using Post VEGAN by (intro rinv_post [OF inv]) auto
    with Post VEGAN step show ?thesis by (simp add: hybridCustomer_def Let_def)
  next
    case NON_VEGAN
    have "k' = VEGAN" if "k' \<noteq> NON_VEGAN" for k' using that by (cases k') auto
    then have "rinv cells (post_on Hybrid NON_VEGAN Report s)"
      using Post NON_VEGAN by (intro rinv_post [OF inv]) (auto simp: plocal_not_live)
    with Post NON_VEGAN step show ?thesis by (simp add: hybridCustomer_def Let_def)
  qed
next
  case Report
  with step show ?thesis
    by (intro rinv_quiet [OF inv, of t Hybrid Top "locs s Hybrid"])
      (auto simp: hybridCustomer_def sys_ops plocal_not_live Let_def)
qed (use step in \<open>simp_all add: hybridCustomer_def Let_def\<close>)

section \<open>The system\<close>

lemma rinv_step:
  assumes cells: "10 \<le> cells" and inv: "rinv cells s" and step: "rstep s t"
  shows "rinv cells t"
  using step
proof cases
  case (work p rand time)
  then show ?thesis
    using rinv_chef [OF inv cells, of p] rinv_customer [OF inv cells, of p] rinv_hybrid [OF inv cells]
    by (cases p) (fastforce simp: chefDonatello_def chefPortecelli_def nonVeganCustomer_def
        veganCustomer_def)+
next
  case (sigint p)
  with inv kinv_cong [of cells _ s "handle_sigint p s"] show ?thesis
    by (simp add: handle_sigint_def rinv_def say_def)
qed

lemma rinv_start: "10 \<le> cells \<Longrightarrow> rinv cells (start_sys cells)"
  using sem.agrees_free [of 1]
  by (auto simp: rinv_def kinv_def start_sys_def fresh_buffer_def on_tray_def tray_def contents_def gaps_def
      List.map_filter_simps plocal_def sem_free_def)

text \<open>For any number of cells that covers the declared array.\<close>

interpretation kitchen: invariant_of "\<lambda>s. s = start_sys cells" rstep
  "\<lambda>s. 10 \<le> cells \<longrightarrow> rinv cells s" for cells
  by unfold_locales (auto intro: rinv_start rinv_step)

lemma restaurant_rinv: "restaurant cells s \<Longrightarrow> 10 \<le> cells \<Longrightarrow> rinv cells s"
  using kitchen.reachable_inv by blast

end
