(* ===== verification/RestaurantProps.thy ===== *)
theory RestaurantProps
  imports RestaurantInv
begin

text \<open>
  What the invariant gives for the restaurant of \<open>10-Semaphore/main.c\<close>: exclusion, bounds,
  conservation of food, who eats what, freedom from deadlock, and the two ways it goes wrong
  (a full buffer overrun by a customer, a process killed while it holds a semaphore).
\<close>

section \<open>Running a schedule\<close>

text \<open>A schedule executed step by step, to build reachable states.\<close>

fun run_procs :: "(proc \<times> u32) list \<Rightarrow> sys \<Rightarrow> sys option" where
  "run_procs [] s = Some s"
| "run_procs ((p, r) # xs) s =
     (if undef s \<or> \<not> alive s p then None
      else (case proc_step p r 0 s of None \<Rightarrow> None | Some t \<Rightarrow> run_procs xs t))"

lemma run_procs_reachable:
  "run_procs xs s = Some t \<Longrightarrow> restaurant cells s \<Longrightarrow> restaurant cells t"
proof (induction xs arbitrary: s)
  case Nil
  then show ?case by simp
next
  case (Cons x xs)
  obtain p r where x: "x = (p, r)" by (cases x)
  with Cons.prems obtain u where "proc_step p r 0 s = Some u" "run_procs xs u = Some t"
    "\<not> undef s" "alive s p" by (auto split: if_splits option.splits)
  with Cons show ?case by (blast intro: reachable.reach_step rstep.work)
qed

lemma restaurant_start: "restaurant cells (start_sys cells)"
  by (rule reachable.reach_init) simp

section \<open>Small invariants\<close>

text \<open>A process whose flag is down has been killed; none leaves its loop.\<close>

definition lifecycle :: "sys \<Rightarrow> bool" where
  "lifecycle s \<longleftrightarrow> (\<forall>p. (alive s p \<longrightarrow> running s p) \<and> pcs s p \<noteq> Gone)"

lemmas step_defs = chefDonatello_def chefPortecelli_def nonVeganCustomer_def veganCustomer_def
  hybridCustomer_def chef_step_def customer_step_def wait_on_def post_on_def take_step_def
  shift_step_def clear_step_def drop_step_def

lemma proc_step_frame:
  "proc_step p r x s = Some t \<Longrightarrow> alive t = alive s \<and> running t = running s \<and>
    (\<forall>q. q \<noteq> p \<longrightarrow> pcs t q = pcs s q)"
  by (cases p) (auto simp: step_defs sys_ops Let_def split: pc.splits option.splits shm.splits if_splits)

lemma proc_step_gone:
  "proc_step p r x s = Some t \<Longrightarrow> running s p \<Longrightarrow> pcs s p \<noteq> Gone \<Longrightarrow> pcs t p \<noteq> Gone"
  by (cases p) (auto simp: step_defs sys_ops Let_def split: pc.splits option.splits shm.splits if_splits)

interpretation life: invariant_of "\<lambda>s. s = start_sys cells" rstep lifecycle for cells
proof unfold_locales
  show "lifecycle s" if "s = start_sys cells" for s
    using that by (simp add: lifecycle_def start_sys_def)
next
  fix s t assume s: "lifecycle s" and "rstep s t"
  from this(2) show "lifecycle t"
  proof cases
    case (work p r x)
    with s proc_step_frame [OF work(3)] proc_step_gone [OF work(3)] show ?thesis
      by (metis lifecycle_def)
  next
    case (sigint p)
    with s show ?thesis by (simp add: lifecycle_def handle_sigint_def say_def)
  qed
qed

text \<open>What a step does to the record of what was eaten: only a \<open>Take\<close> adds to it.\<close>

lemma proc_step_eaten_same:
  "proc_step p r x s = Some t \<Longrightarrow> (\<And>k. pcs s p \<noteq> Take k) \<Longrightarrow> eaten t = eaten s"
  by (cases p; cases "pcs s p")
    (auto simp: chefDonatello_def chefPortecelli_def nonVeganCustomer_def veganCustomer_def
      hybridCustomer_def chef_step_def customer_step_def wait_on_def post_on_def shift_step_def
      clear_step_def drop_step_def sys_ops Let_def split: option.splits shm.splits if_splits)

lemma proc_step_take:
  "proc_step p r x s = Some t \<Longrightarrow> pcs s p = Take k \<Longrightarrow> pc_ok p (Take k) \<Longrightarrow> t = take_step p k r s"
  by (cases p) (auto simp: nonVeganCustomer_def veganCustomer_def hybridCustomer_def
      customer_step_def Let_def)

lemma take_step_eaten:
  "undef (take_step p k r s) \<and> eaten (take_step p k r s) = eaten s \<and> pcs (take_step p k r s) = pcs s \<or>
    (\<exists>f. eaten (take_step p k r s) = (eaten s)(k := eaten s k @ [(p, f)]) \<and>
         pcs (take_step p k r s) = (pcs s)(p := Shift k))"
  by (auto simp: take_step_def sys_ops Let_def split: option.splits)

text \<open>Everybody eats from the buffers they use, and the hybrid customer in pairs.\<close>

definition hybrid_count :: "shm \<Rightarrow> sys \<Rightarrow> nat" where
  "hybrid_count k s = length (filter (\<lambda>x. fst x = Hybrid) (eaten s k))"

definition between_takes :: "pc \<Rightarrow> bool" where
  "between_takes c \<longleftrightarrow> c = Shift VEGAN \<or> c = Clear VEGAN \<or> c = Drop VEGAN \<or> c = Post VEGAN \<or> c = Take NON_VEGAN"

definition eaters :: "sys \<Rightarrow> bool" where
  "eaters s \<longleftrightarrow>
     (\<forall>k. \<forall>(p, f) \<in> set (eaten s k). uses p k) \<and>
     (hybrid_count VEGAN s = hybrid_count NON_VEGAN s + (if between_takes (pcs s Hybrid) then 1 else 0))"

lemma proc_step_between:
  assumes "proc_step p r x s = Some t" and "\<And>k. pcs s p \<noteq> Take k"
  shows "between_takes (pcs t Hybrid) = between_takes (pcs s Hybrid)"
proof (cases "p = Hybrid")
  case True
  with assms show ?thesis
    by (cases "pcs s Hybrid") (auto simp: hybridCustomer_def wait_on_def post_on_def shift_step_def
        clear_step_def drop_step_def between_takes_def sys_ops Let_def split: option.splits shm.splits if_splits)
next
  case False
  with proc_step_frame [OF assms(1)] show ?thesis by auto
qed

lemma rstep_eaten:
  assumes "rstep s t" and "\<forall>p. pc_ok p (pcs s p)"
  obtains "eaten t = eaten s" "between_takes (pcs t Hybrid) = between_takes (pcs s Hybrid)"
  | p k f where "uses p k" "pcs s p = Take k" "eaten t = (eaten s)(k := eaten s k @ [(p, f)])"
      "pcs t = (pcs s)(p := Shift k)"
  using assms(1)
proof cases
  case (work p r x)
  show thesis
  proof (cases "\<exists>k. pcs s p = Take k")
    case True
    then obtain k where k: "pcs s p = Take k" by blast
    with assms(2) have ok: "pc_ok p (Take k)" by metis
    with take_step_eaten [of p k r s] k proc_step_take [OF work(3) k ok] show thesis
      by (auto intro: that)
  next
    case False
    with proc_step_eaten_same [OF work(3)] proc_step_between [OF work(3)] show thesis
      by (auto intro: that)
  qed
next
  case (sigint p)
  then show thesis by (intro that(1)) (simp_all add: handle_sigint_def say_def)
qed

lemma eaters_step:
  assumes "eaters s" and "rstep s t" and "\<forall>p. pc_ok p (pcs s p)"
  shows "eaters t"
  using assms(2,3)
proof (cases rule: rstep_eaten)
  case 1
  with assms(1) show ?thesis by (simp add: eaters_def hybrid_count_def)
next
  case (2 p k f)
  have "\<forall>k'. \<forall>(q, g) \<in> set (eaten t k'). uses q k'"
    using assms(1) 2 by (auto simp: eaters_def)
  moreover have "hybrid_count VEGAN t =
      hybrid_count NON_VEGAN t + (if between_takes (pcs t Hybrid) then 1 else 0)"
    using assms(1) 2 by (cases k; cases "p = Hybrid")
      (auto simp: eaters_def hybrid_count_def between_takes_def)
  ultimately show ?thesis by (simp add: eaters_def)
qed

interpretation dining: invariant_of "\<lambda>s. s = start_sys cells" rstep
  "\<lambda>s. 10 \<le> cells \<longrightarrow> rinv cells s \<and> eaters s" for cells
proof unfold_locales
  show "10 \<le> cells \<longrightarrow> rinv cells s \<and> eaters s" if "s = start_sys cells" for s
    using that rinv_start by (simp add: eaters_def hybrid_count_def start_sys_def between_takes_def)
  show "10 \<le> cells \<longrightarrow> rinv cells t \<and> eaters t"
    if "10 \<le> cells \<longrightarrow> rinv cells s \<and> eaters s" "rstep s t" for s t
    using that rinv_step [of cells s t] eaters_step [of s t] rinv_pc_ok [of cells s] by blast
qed

lemma restaurant_eaters: "restaurant cells s \<Longrightarrow> 10 \<le> cells \<Longrightarrow> eaters s"
  using dining.reachable_inv by blast

section \<open>Some reachable states\<close>

text \<open>Rounds of a chef, ten of which fill the buffer, and a customer who gets a dish.\<close>

definition all_at_top :: "u32 \<Rightarrow> sys \<Rightarrow> bool" where
  "all_at_top c s \<longleftrightarrow> \<not> undef s \<and> (\<forall>p. alive s p \<and> running s p \<and> pcs s p = Top) \<and> sems s VEGAN = 1 \<and>
     count (bufs s VEGAN) = c \<and> length (items (bufs s VEGAN)) = 10"

lemma cook_round:
  assumes "all_at_top c s" and "c < MAX_ITEM"
  shows "\<exists>t. run_procs (replicate 7 (Portecelli, 0)) s = Some t \<and> all_at_top (c + 1) t"
proof -
  have "unat c < length (items (bufs s VEGAN))"
    using assms by (simp add: all_at_top_def word_less_nat_alt)
  then have put: "put_item c f (bufs s VEGAN) =
      Some ((bufs s VEGAN)\<lparr>items := (items (bufs s VEGAN))[unat c := f]\<rparr>)" for f
    by (rule put_item_eq)
  have seven: "replicate 7 x = [x, x, x, x, x, x, x]" for x :: "proc \<times> u32"
    by (simp add: numeral_eq_Suc)
  show ?thesis
    using assms put by (simp add: seven all_at_top_def chefPortecelli_def chef_step_def wait_on_def
        post_on_def sem_wait_def sem_post_def sys_ops set_count_def rd_def vegan_name_def
        Let_def not_le [symmetric])
qed

lemma cook_rounds:
  "n \<le> 10 \<Longrightarrow> \<exists>s. restaurant 10 s \<and> all_at_top (word_of_nat n) s"
proof (induction n)
  case 0
  have "all_at_top 0 (start_sys 10)"
    by (simp add: all_at_top_def start_sys_def fresh_buffer_def)
  then show ?case using restaurant_start by auto
next
  case (Suc n)
  then obtain s where s: "restaurant 10 s" "all_at_top (word_of_nat n) s" by auto
  have "unat (word_of_nat n :: u32) = n"
    using Suc.prems by (intro unat_of_nat_lt [of _ 10]) simp
  then have "(word_of_nat n :: u32) < MAX_ITEM" using Suc.prems by (simp add: word_less_nat_alt)
  from cook_round [OF s(2) this] s(1) show ?case
    by (auto simp: add.commute intro: run_procs_reachable)
qed

lemma vegan_served: "\<exists>s f. restaurant 10 s \<and> (Vegan, f) \<in> set (eaten s VEGAN)"
proof -
  obtain s where s: "restaurant 10 s" "all_at_top 1 s" using cook_rounds [of 1] by auto
  then have "\<exists>t f. run_procs [(Vegan, 0), (Vegan, 0), (Vegan, 0), (Vegan, 0)] s = Some t \<and>
      (Vegan, f) \<in> set (eaten t VEGAN)"
    by (auto simp: all_at_top_def veganCustomer_def customer_step_def wait_on_def take_step_def rd_def
        sem_wait_def sys_ops Let_def)
  with run_procs_reachable s(1) show ?thesis by blast
qed

section \<open>Properties\<close>

lemma holds_taken:
  assumes "rinv cells s" and "holds p (pcs s p) k"
  shows "sems s k = 0"
proof -
  have "sem.agrees (sems s k) {p. holds p (pcs s p) k}"
    using kinv_agrees [OF rinv_kinv [OF assms(1)]] .
  with assms(2) show ?thesis by (auto simp: sem.agrees_def sem_taken_def)
qed

text \<open>
  C1: in every reachable state at most one process is inside the section of a buffer, from
  passing its \<open>sem_wait\<close> to its \<open>sem_post\<close>, and then the semaphore is 0; it is never
  above 1. Killed processes included.
\<close>

theorem restaurant_mutual_exclusion:
  assumes "restaurant cells s" and "10 \<le> cells"
    and "holds p (pcs s p) k" and "holds q (pcs s q) k"
  shows "p = q \<and> sems s k = 0"
  using restaurant_rinv [OF assms(1,2)] holds_excl [OF rinv_kinv assms(4,3)] holds_taken assms(3)
  by blast

theorem restaurant_mutual_exclusion_witness:
  "\<exists>s. restaurant 10 s \<and> holds Vegan (pcs s Vegan) VEGAN \<and> sems s VEGAN = 0"
proof -
  obtain s where s: "run_procs [(Vegan, 0), (Vegan, 0)] (start_sys 10) = Some s"
      "holds Vegan (pcs s Vegan) VEGAN"
    by (simp add: start_sys_def veganCustomer_def customer_step_def wait_on_def sem_wait_def sys_ops Let_def)
  with run_procs_reachable [OF s(1) restaurant_start]
    restaurant_mutual_exclusion [of 10 s Vegan VEGAN Vegan]
  show ?thesis by auto
qed

text \<open>
  C4: with a cell behind each array, no interleaving of the five processes, interrupted or
  not, reaches undefined behaviour, and the counts stay within \<open>MAX_ITEM\<close>.
\<close>

theorem restaurant_bounded:
  assumes "restaurant cells s" and "10 < cells"
  shows "\<not> undef s \<and> count (bufs s k) \<le> MAX_ITEM \<and> length (items (bufs s k)) = cells"
  using restaurant_rinv [OF assms(1)] assms(2) kinv_bounds [OF rinv_kinv, of cells s k]
  by (auto simp: rinv_def)

theorem restaurant_bounded_witness:
  "restaurant 11 (start_sys 11) \<and> count (bufs (start_sys 11) VEGAN) \<le> MAX_ITEM"
  using restaurant_bounded [OF restaurant_start, of 11 VEGAN] restaurant_start by simp

text \<open>
  C2: no food is lost or served twice. In every reachable state the foods cooked for a buffer
  are, as a multiset, the foods eaten from it and the foods on its tray; so a count read under
  the semaphore is never stale when it is written back. In the middle of a section, and for ever
  after a process was killed there, the tray is the cells below the count but for the one the
  customer is emptying.
\<close>

theorem restaurant_conserves_food:
  assumes "restaurant cells s" and "10 \<le> cells"
  shows "mset (cooked s k) = mset (map snd (eaten s k)) + mset (on_tray k s)"
  using rinv_kinv [OF restaurant_rinv [OF assms], of k] by (simp add: kinv_def)

theorem restaurant_conserves_food_witness:
  "\<exists>s f. restaurant 10 s \<and> (Vegan, f) \<in> set (eaten s VEGAN) \<and>
     mset (cooked s VEGAN) = mset (map snd (eaten s VEGAN)) + mset (on_tray VEGAN s)"
proof -
  obtain s f where s: "restaurant 10 s" "(Vegan, f) \<in> set (eaten s VEGAN)" using vegan_served by blast
  with restaurant_conserves_food [OF s(1), of VEGAN] show ?thesis by auto
qed

text \<open>
  C7: the vegan customer only ever gets dishes of the vegan menu, and the non-vegan customer
  only those of the other.
\<close>

theorem restaurant_diets:
  assumes "restaurant cells s" and "10 \<le> cells"
  shows "((Vegan, f) \<in> set (eaten s k) \<longrightarrow> k = VEGAN \<and> dish f \<in> set vegan_name) \<and>
    ((NonVegan, f) \<in> set (eaten s k) \<longrightarrow> k = NON_VEGAN \<and> dish f \<in> set non_vegan_name)"
proof -
  note K = rinv_kinv [OF restaurant_rinv [OF assms], of k]
  have menu: "dish f \<in> set (menu k)" if "(p, f) \<in> set (eaten s k)" for p
  proof -
    have "f \<in># mset (map snd (eaten s k))" using that by force
    then have "f \<in># mset (cooked s k)" using K by (simp add: kinv_def)
    then show ?thesis using K by (simp add: kinv_def)
  qed
  have "uses p k" if "(p, f) \<in> set (eaten s k)" for p
    using restaurant_eaters [OF assms] that by (auto simp: eaters_def)
  with menu show ?thesis by force
qed

theorem restaurant_diets_witness:
  "\<exists>s f. restaurant 10 s \<and> (Vegan, f) \<in> set (eaten s VEGAN) \<and> dish f \<in> set vegan_name"
proof -
  obtain s f where s: "restaurant 10 s" "(Vegan, f) \<in> set (eaten s VEGAN)" using vegan_served by blast
  with restaurant_diets [OF s(1), of f VEGAN] show ?thesis by auto
qed

text \<open>
  C6: the hybrid customer takes one item of each buffer or none: outside the moves between
  its two takes, it has eaten as many vegan dishes as non-vegan ones.
\<close>

theorem restaurant_hybrid_pairs:
  assumes "restaurant cells s" and "10 \<le> cells"
  shows "hybrid_count VEGAN s =
    hybrid_count NON_VEGAN s + (if between_takes (pcs s Hybrid) then 1 else 0)"
  using restaurant_eaters [OF assms] by (simp add: eaters_def)

theorem restaurant_hybrid_pairs_witness:
  "restaurant 10 (start_sys 10) \<and> hybrid_count VEGAN (start_sys 10) = hybrid_count NON_VEGAN (start_sys 10)"
  using restaurant_hybrid_pairs [OF restaurant_start, of 10] restaurant_start
  by (simp add: start_sys_def between_takes_def)

lemma proc_step_blocked:
  assumes "proc_step p r x s = None" and "pc_ok p (pcs s p)" and "pcs s p \<noteq> Gone"
  obtains k where "pcs s p = Wait k" "uses p k" "sem_wait (sems s k) = None"
  using assms
  by (cases p; cases "pcs s p")
    (auto simp: chefDonatello_def chefPortecelli_def nonVeganCustomer_def veganCustomer_def
      hybridCustomer_def chef_step_def customer_step_def wait_on_def Let_def
      split: option.splits shm.splits if_splits)

lemma nobody_holds_free:
  assumes "rinv cells s" and "\<And>p. \<not> holds p (pcs s p) k"
  shows "sem_wait (sems s k) \<noteq> None"
  using kinv_agrees [OF rinv_kinv [OF assms(1)], of k] assms(2)
  by (auto simp: sem.agrees_def sem_free_def sem_wait_def)

text \<open>
  C3: no deadlock among the living. As long as no process was killed inside a section, some
  living process can take its next step, whatever \<open>rand()\<close> and the clock return; killing a
  process elsewhere does no harm. The hybrid customer's second \<open>sem_wait\<close> never closes a circle,
  because everyone who wants both semaphores takes the vegan one first.
\<close>

theorem restaurant_deadlock_free:
  assumes "restaurant cells s" and "10 \<le> cells"
    and "\<forall>q k. holds q (pcs s q) k \<longrightarrow> alive s q" and "\<exists>q. alive s q"
  shows "\<exists>p. alive s p \<and> (\<forall>rand time. proc_step p rand time s \<noteq> None)"
proof (rule ccontr)
  assume stuck: "\<not> ?thesis"
  note inv = restaurant_rinv [OF assms(1,2)]
  have waiting: "\<exists>k. pcs s p = Wait k \<and> uses p k \<and> sem_wait (sems s k) = None" if "alive s p" for p
  proof -
    from stuck that obtain r x where "proc_step p r x s = None" by blast
    moreover have "pcs s p \<noteq> Gone"
      using life.reachable_inv [OF assms(1)] by (simp add: lifecycle_def)
    ultimately show ?thesis using rinv_pc_ok [OF inv] by (blast elim: proc_step_blocked)
  qed
  have "\<not> holds p (pcs s p) NON_VEGAN" for p
  proof
    assume h: "holds p (pcs s p) NON_VEGAN"
    then have "alive s p" using assms(3) by blast
    then obtain k where "pcs s p = Wait k" using waiting by blast
    with h show False by simp
  qed
  then have non: "sem_wait (sems s NON_VEGAN) \<noteq> None" by (rule nobody_holds_free [OF inv])
  then have vegan: "pcs s p = Wait VEGAN \<and> sem_wait (sems s VEGAN) = None" if "alive s p" for p
  proof -
    from waiting [OF that] obtain k where k: "pcs s p = Wait k" "sem_wait (sems s k) = None" by blast
    with non show ?thesis by (cases k) simp_all
  qed
  have "\<not> holds p (pcs s p) VEGAN" for p
  proof
    assume h: "holds p (pcs s p) VEGAN"
    then have "alive s p" using assms(3) by blast
    then have "pcs s p = Wait VEGAN" using vegan by blast
    with h show False by simp
  qed
  then have "sem_wait (sems s VEGAN) \<noteq> None" by (rule nobody_holds_free [OF inv])
  moreover from assms(4) obtain q where "alive s q" ..
  ultimately show False using vegan [of q] by simp
qed

text \<open>
  The hybrid customer has the vegan semaphore and is blocked by the non-vegan customer, while
  Donatello has been killed in front of his section.
\<close>

theorem restaurant_deadlock_free_witness:
  "\<exists>s. restaurant 10 s \<and> \<not> alive s Donatello \<and> proc_step Hybrid 0 0 s = None \<and>
     (\<exists>p. alive s p \<and> (\<forall>rand time. proc_step p rand time s \<noteq> None))"
proof -
  obtain s where s: "run_procs [(NonVegan, 0), (NonVegan, 0), (Hybrid, 0), (Hybrid, 0)] (start_sys 10) = Some s"
      "pcs s = (\<lambda>_. Top)(NonVegan := Read, Hybrid := Wait NON_VEGAN)" "\<not> undef s" "alive s = (\<lambda>_. True)"
      "sems s NON_VEGAN = 0"
    by (simp add: start_sys_def nonVeganCustomer_def hybridCustomer_def customer_step_def wait_on_def
        sem_wait_def sys_ops Let_def)
  let ?t = "handle_sigint Donatello s"
  have t: "restaurant 10 ?t"
    by (rule reachable.reach_step [OF run_procs_reachable [OF s(1) restaurant_start]])
      (use s in \<open>auto intro: rstep.sigint\<close>)
  have st: "pcs ?t = pcs s" "alive ?t = (alive s)(Donatello := False)" "sems ?t = sems s"
    by (simp_all add: handle_sigint_def say_def)
  have "\<exists>p. alive ?t p \<and> (\<forall>rand time. proc_step p rand time ?t \<noteq> None)"
    by (rule restaurant_deadlock_free [OF t]) (auto simp: st s(2,4))
  moreover have "proc_step Hybrid 0 0 ?t = None"
    using s(2,5) st by (simp add: hybridCustomer_def wait_on_def sem_wait_def)
  moreover have "\<not> alive ?t Donatello" by (simp add: st)
  ultimately show ?thesis using t by blast
qed


text \<open>
  C8: a process killed by SIGINT inside a section never posts the semaphore: from then on
  it stays at 0 and no other process enters a section of that buffer again.
\<close>

theorem restaurant_killed_holder:
  assumes "restaurant cells s" and "10 \<le> cells" and "\<not> alive s p" and "holds p (pcs s p) k"
    and "reachable (\<lambda>u. u = s) rstep t"
  shows "sems t k = 0 \<and> (\<forall>q. q \<noteq> p \<longrightarrow> \<not> holds q (pcs t q) k)"
proof -
  from assms(5) have dead: "\<not> alive t p \<and> pcs t p = pcs s p"
  proof (induction rule: reachable.induct)
    case (reach_step u v)
    from reach_step(2) show ?case
    proof cases
      case (work q r x)
      with reach_step.IH proc_step_frame [OF work(3)] show ?thesis by metis
    next
      case (sigint q)
      with reach_step.IH show ?thesis by (simp add: handle_sigint_def say_def)
    qed
  qed (use assms(3) in simp)
  have "rinv cells t"
    by (rule restaurant_rinv [OF reachable_trans [OF assms(5,1)] assms(2)])
  with dead assms(4) holds_excl [OF rinv_kinv, of cells t p k] holds_taken show ?thesis
    by metis
qed

theorem restaurant_killed_holder_witness:
  "\<exists>s. restaurant 10 s \<and> \<not> alive s Vegan \<and> sems s VEGAN = 0"
proof -
  obtain s where s: "run_procs [(Vegan, 0), (Vegan, 0)] (start_sys 10) = Some s"
      "holds Vegan (pcs s Vegan) VEGAN" "\<not> undef s" "alive s Vegan"
    by (simp add: start_sys_def veganCustomer_def customer_step_def wait_on_def sem_wait_def sys_ops Let_def)
  let ?t = "handle_sigint Vegan s"
  have t: "restaurant 10 ?t"
    by (rule reachable.reach_step [OF run_procs_reachable [OF s(1) restaurant_start]])
      (use s in \<open>blast intro: rstep.sigint\<close>)
  have "\<not> alive ?t Vegan" "holds Vegan (pcs ?t Vegan) VEGAN"
    using s(2) by (simp_all add: handle_sigint_def say_def)
  moreover have "reachable (\<lambda>u. u = ?t) rstep ?t" by (rule reachable.reach_init) simp
  ultimately have "sems ?t VEGAN = 0" using restaurant_killed_holder [OF t] by simp
  with t \<open>\<not> alive ?t Vegan\<close> show ?thesis by blast
qed

end
