(* ===== verification/Children.thy ===== *)
theory Children
  imports Log
begin

text \<open>
  Starting and reaping child processes, as \<open>10-Semaphore/main.c\<close>, \<open>8-Pipe/main.c\<close> and
  \<open>3-Process\<close> do it. What \<open>fork\<close> and \<open>waitpid\<close> return is an argument; a wait status is
  a 32-bit word read by the macros of \<open>sys/wait.h\<close>.
\<close>

section \<open>Wait statuses\<close>

definition WEXITSTATUS :: "i32 \<Rightarrow> int" where
  "WEXITSTATUS status = uint (drop_bit 8 (status AND 0xFF00))"

definition WTERMSIG :: "i32 \<Rightarrow> int" where
  "WTERMSIG status = uint (status AND 0x7F)"

definition WIFEXITED :: "i32 \<Rightarrow> bool" where
  "WIFEXITED status \<longleftrightarrow> WTERMSIG status = 0"

text \<open>\<open>((signed char) ((status & 0x7f) + 1) >> 1) > 0\<close>: neither 0 nor 0x7f, a stop.\<close>

definition WIFSIGNALED :: "i32 \<Rightarrow> bool" where
  "WIFSIGNALED status \<longleftrightarrow> 0 < WTERMSIG status \<and> WTERMSIG status < 0x7F"

text \<open>The status the kernel reports for a way to end.\<close>

definition SIGABRT :: int where
  "SIGABRT = 6"

definition SIGINT :: int where
  "SIGINT = 2"

definition SIGUSR1 :: int where
  "SIGUSR1 = 10"

definition SIGALRM :: int where
  "SIGALRM = 14"

definition SIGTERM :: int where
  "SIGTERM = 15"

fun wait_status :: "ending \<Rightarrow> i32" where
  "wait_status Abort = word_of_int SIGABRT"
| "wait_status (Exit c) = push_bit 8 (word_of_int c AND 0xFF)"
| "wait_status (UnderscoreExit c) = push_bit 8 (word_of_int c AND 0xFF)"

lemma status_masks:
  "(0x7F :: i32) = mask 7" "(0xFF :: i32) = mask 8" "(0xFF00 :: i32) = push_bit 8 (mask 8)"
  by (simp_all add: mask_eq_exp_minus_1 push_bit_eq_mult)

lemma exit_status_bits:
  fixes c :: i32
  shows "push_bit 8 (c AND 0xFF) AND 0x7F = 0"
    and "drop_bit 8 (push_bit 8 (c AND 0xFF) AND 0xFF00) = c AND 0xFF"
  unfolding status_masks by (rule bit_eqI; auto simp: bit_simps)+

lemma uint_low_byte: "uint (word_of_int c AND 0xFF :: i32) = c mod 256"
proof -
  have "uint (word_of_int c AND 0xFF :: i32) = take_bit 8 (uint (word_of_int c :: i32))"
    unfolding status_masks take_bit_eq_mask [symmetric] by (rule unsigned_take_bit_eq)
  also have "\<dots> = take_bit 8 c" by (simp add: unsigned_of_int)
  finally show ?thesis by (simp add: take_bit_eq_mod)
qed

lemma wait_status_exit:
  "WIFEXITED (wait_status (Exit c))" "WEXITSTATUS (wait_status (Exit c)) = c mod 256"
  "WIFEXITED (wait_status (UnderscoreExit c))" "WEXITSTATUS (wait_status (UnderscoreExit c)) = c mod 256"
  unfolding WIFEXITED_def WTERMSIG_def WEXITSTATUS_def wait_status.simps exit_status_bits uint_low_byte
  by simp_all

section \<open>Forking\<close>

text \<open>
  A row of a \<open>handlers\<close> table. A handler is known by what it is; the parent handler is a
  function of the child's pid to what it logs, or null.
\<close>

record 'c fork_handler =
  roleDesc :: string
  parentHandler :: "(int \<Rightarrow> log_call list) option"
  childHandler :: "'c option"

text \<open>
  \<open>forkWithHandlers\<close>, by what \<open>fork\<close> returns: in the child it runs the handler, if any,
  and exits; in the parent it returns the pid or -1.
\<close>

datatype 'c forked = InChild "log_call list" "'c option" ending | InParent "log_call list" int

definition forkWithHandlers :: "'c fork_handler \<Rightarrow> int \<Rightarrow> 'c forked" where
  "forkWithHandlers h cid =
     (if cid = 0
      then InChild [log_info (''Child process for '' @ squoted ''%s'' @ '' started'') [ArgS (roleDesc h)]]
             (childHandler h) (Exit EXIT_SUCCESS)
      else if cid < 0
      then InParent [log_error ''Fork failed for %s'' [ArgS (roleDesc h)]] (-1)
      else InParent (log_info (''Child process for '' @ squoted ''%s'' @ '' created with pid = %d'')
               [ArgS (roleDesc h), ArgI cid]
             # (case parentHandler h of None \<Rightarrow> [] | Some f \<Rightarrow> f cid)) cid)"

text \<open>
  \<open>spawnChildProcesses\<close>: what the calling process has done when the call ends. \<open>pids i\<close>
  is the result of the \<open>i\<close>-th \<open>fork\<close>; \<open>cid\<close> the array, of which \<open>n\<close> is the length.
\<close>

datatype 'c spawned = BecameChild nat "'c option" ending | Spawned bool "int list"

fun spawn_loop :: "nat \<Rightarrow> (nat \<Rightarrow> int) \<Rightarrow> nat \<Rightarrow> 'c fork_handler list \<Rightarrow> int list \<Rightarrow>
    log_call list \<times> 'c spawned" where
  "spawn_loop n pids i [] cid = ([], Spawned True cid)"
| "spawn_loop n pids i (h # hs) cid =
     (if i \<ge> n then ([log_error ''Insufficient space in cid array'' []], Spawned False cid)
      else (case forkWithHandlers h (pids i) of
              InChild l c e \<Rightarrow> (l, BecameChild i c e)
            | InParent l r \<Rightarrow>
                (if r = -1 then (l, Spawned False (cid[i := r]))
                 else (let (l', res) = spawn_loop n pids (Suc i) hs (cid[i := r]) in (l @ l', res)))))"

definition spawnChildProcesses :: "(nat \<Rightarrow> int) \<Rightarrow> 'c fork_handler list \<Rightarrow> int list \<Rightarrow>
    log_call list \<times> 'c spawned" where
  "spawnChildProcesses pids handlers cid = spawn_loop (length cid) pids 0 handlers cid"

text \<open>\<open>waitForChildren\<close>: \<open>waits pid\<close> is the pair of \<open>waitpid\<close>'s result and the status.\<close>

definition wait_log :: "(int \<Rightarrow> int \<times> i32) \<Rightarrow> int \<Rightarrow> log_call" where
  "wait_log waits pid =
     (let (wpid, status) = waits pid
      in if wpid = -1 then log_error ''Failed to wait for child process with pid %d'' [ArgI pid]
         else if WIFEXITED status
         then log_info ''Child process %d exited with status %d'' [ArgI wpid, ArgI (WEXITSTATUS status)]
         else if WIFSIGNALED status
         then log_warn ''Child process %d terminated by signal %d'' [ArgI wpid, ArgI (WTERMSIG status)]
         else log_warn ''Child process %d exited abnormally'' [ArgI wpid])"

fun waitForChildren :: "(int \<Rightarrow> int \<times> i32) \<Rightarrow> int list \<Rightarrow> log_call list" where
  "waitForChildren waits [] = []"
| "waitForChildren waits (pid # cid) = wait_log waits pid # waitForChildren waits cid"

section \<open>What spawning does\<close>

lemma forkWithHandlers_parent:
  assumes "0 < cid"
  shows "\<exists>l. forkWithHandlers h cid = InParent l cid \<and> cid \<noteq> -1"
  using assms by (simp add: forkWithHandlers_def)

text \<open>In the parent every fork gave a pid: the array holds them all, in the table's order.\<close>

lemma spawn_loop_parent:
  assumes "\<And>j. i \<le> j \<Longrightarrow> j < i + length hs \<Longrightarrow> 0 < pids j" and "i + length hs \<le> n" and "n = length cid"
  shows "snd (spawn_loop n pids i hs cid) =
    Spawned True (take i cid @ map pids [i..<i + length hs] @ drop (i + length hs) cid)"
  using assms
proof (induction hs arbitrary: i cid)
  case Nil
  then show ?case by simp
next
  case (Cons h hs)
  have pos: "0 < pids i" using Cons.prems(1) [of i] by simp
  have "snd (spawn_loop n pids (Suc i) hs (cid[i := pids i])) =
      Spawned True (take (Suc i) (cid[i := pids i]) @ map pids [Suc i..<Suc i + length hs]
        @ drop (Suc i + length hs) (cid[i := pids i]))"
    using Cons.prems by (intro Cons.IH) auto
  moreover have "take (Suc i) (cid[i := pids i]) = take i cid @ [pids i]"
    using Cons.prems by (simp add: take_Suc_conv_app_nth)
  moreover have "[i..<i + length (h # hs)] = i # [Suc i..<Suc i + length hs]"
    by (subst upt_conv_Cons) simp_all
  moreover have "\<not> i \<ge> n" using Cons.prems(2) by simp
  ultimately show ?case
    using forkWithHandlers_parent [OF pos, of h]
    by (auto simp: split_beta simp del: upt_Suc)
qed

text \<open>The first fork that fails ends the spawning.\<close>

lemma spawn_loop_fails:
  assumes "\<And>j. i \<le> j \<Longrightarrow> j < i + m \<Longrightarrow> 0 < pids j" and "m < length hs" and "pids (i + m) < 0"
    and "i + m < n" and "n = length cid"
  shows "\<exists>cid'. snd (spawn_loop n pids i hs cid) = Spawned False cid' \<and> cid' ! (i + m) = -1"
  using assms
proof (induction hs arbitrary: i m cid)
  case (Cons h hs)
  show ?case
  proof (cases m)
    case 0
    with Cons.prems show ?thesis by (simp add: forkWithHandlers_def)
  next
    case (Suc m')
    have pos: "0 < pids i" using Cons.prems(1) [of i] Suc by simp
    have "\<exists>cid'. snd (spawn_loop n pids (Suc i) hs (cid[i := pids i])) = Spawned False cid' \<and>
        cid' ! (Suc i + m') = -1"
      using Cons.prems Suc by (intro Cons.IH) auto
    moreover have "\<not> i \<ge> n" using Cons.prems by simp
    ultimately show ?thesis
      using forkWithHandlers_parent [OF pos, of h] Suc by (auto simp: split_beta)
  qed
qed simp

text \<open>The child made by the \<open>m\<close>-th fork runs the \<open>m\<close>-th handler and then exits.\<close>

lemma spawn_loop_child:
  assumes "\<And>j. i \<le> j \<Longrightarrow> j < i + m \<Longrightarrow> 0 < pids j" and "m < length hs" and "pids (i + m) = 0"
    and "i + m < n"
  shows "snd (spawn_loop n pids i hs cid) =
    BecameChild (i + m) (childHandler (hs ! m)) (Exit EXIT_SUCCESS)"
  using assms
proof (induction hs arbitrary: i m cid)
  case (Cons h hs)
  show ?case
  proof (cases m)
    case 0
    with Cons.prems show ?thesis by (simp add: forkWithHandlers_def)
  next
    case (Suc m')
    have pos: "0 < pids i" using Cons.prems(1) [of i] Suc by simp
    have "snd (spawn_loop n pids (Suc i) hs (cid[i := pids i])) =
        BecameChild (Suc i + m') (childHandler (hs ! m')) (Exit EXIT_SUCCESS)"
      using Cons.prems Suc by (intro Cons.IH) auto
    moreover have "\<not> i \<ge> n" using Cons.prems by simp
    ultimately show ?thesis
      using forkWithHandlers_parent [OF pos, of h] Suc by (auto simp: split_beta)
  qed
qed simp

end
