(* ===== verification/RestaurantMain.thy ===== *)
theory RestaurantMain
  imports Restaurant Children ErrorHandler
begin

text \<open>
  The parent of \<open>10-Semaphore/main.c\<close>: the named semaphores and segments, \<open>shmInit\<close>,
  \<open>cleanup\<close>, the five forks and the loop that only a SIGINT ends. The kernel's names are
  state; whether a call fails, what \<open>fork\<close> returns and when a SIGINT comes are arguments.
\<close>

section \<open>Names and segments\<close>

text \<open>The value behind each semaphore name and the bytes behind each segment name.\<close>

record posix =
  sem_names :: "string \<Rightarrow> nat option"
  shm_names :: "string \<Rightarrow> u8 list option"

record semaphore =
  sem_file :: string
  sem_ptr :: "nat option"    \<comment> \<open>\<open>None\<close> for null and \<open>SEM_FAILED\<close>\<close>

record share_memory =
  seg_name :: string
  seg_fd :: int
  seg_len :: nat
  seg_addr :: "nat option"   \<comment> \<open>\<open>None\<close> for null and \<open>MAP_FAILED\<close>\<close>
  seg_sem :: semaphore

text \<open>\<open>sizeof(Food)\<close> is 272 on a 64-bit target, and ten follow the padded count.\<close>

definition sizeof_buffer :: nat where
  "sizeof_buffer = 8 + 10 * 272"

definition segment :: "string \<Rightarrow> share_memory" where
  "segment n = \<lparr>seg_name = n, seg_fd = 0, seg_len = sizeof_buffer, seg_addr = None,
     seg_sem = \<lparr>sem_file = '''', sem_ptr = None\<rparr>\<rparr>"

record init_answers =
  sem_open_r :: "nat option"
  shm_open_r :: int
  ftruncate_r :: int
  mmap_r :: "nat option"

text \<open>
  \<open>sem_open\<close> and \<open>shm_open\<close> with \<open>O_CREAT\<close> and without \<open>O_EXCL\<close>: an object that is there
  stays as it is.
\<close>

definition open_sem :: "string \<Rightarrow> nat \<Rightarrow> posix \<Rightarrow> posix" where
  "open_sem n v k =
     k\<lparr>sem_names := (sem_names k)(n := Some (case sem_names k n of None \<Rightarrow> v | Some w \<Rightarrow> w))\<rparr>"

definition open_shm :: "string \<Rightarrow> posix \<Rightarrow> posix" where
  "open_shm n k =
     k\<lparr>shm_names := (shm_names k)(n := Some (case shm_names k n of None \<Rightarrow> [] | Some b \<Rightarrow> b))\<rparr>"

definition resize :: "nat \<Rightarrow> u8 list \<Rightarrow> u8 list" where
  "resize len b = take len b @ replicate (len - length b) 0"

definition truncate_shm :: "string \<Rightarrow> nat \<Rightarrow> posix \<Rightarrow> posix" where
  "truncate_shm n len k = k\<lparr>shm_names := (shm_names k)(n := map_option (resize len) (shm_names k n))\<rparr>"

text \<open>Result, what was logged, the kernel and the structure afterwards.\<close>

definition shmInit :: "init_answers \<Rightarrow> posix \<Rightarrow> share_memory \<Rightarrow>
    bool \<times> log_call list \<times> posix \<times> share_memory" where
  "shmInit a k m =
     (let sem_name = snprintf_s 64 (seg_name m @ ''_sem'');
          m = m\<lparr>seg_sem := \<lparr>sem_file = snprintf_s 255 sem_name, sem_ptr = sem_open_r a\<rparr>\<rparr>
      in if sem_open_r a = None
         then (False, [log_error ''sem_open failed for %s'' [ArgS sem_name]], k, m)
         else
           let k = open_sem sem_name 1 k; m = m\<lparr>seg_fd := shm_open_r a\<rparr>
           in if shm_open_r a = -1 then (False, [log_error_ne ''shm_open'' []], k, m)
              else
                let k = open_shm (seg_name m) k
                in if ftruncate_r a = -1 then (False, [log_error_ne ''ftruncate'' []], k, m)
                   else
                     let k = truncate_shm (seg_name m) (seg_len m) k; m = m\<lparr>seg_addr := mmap_r a\<rparr>
                     in if mmap_r a = None then (False, [log_error_ne ''mmap'' []], k, m)
                        else (True, [], k, m))"

text \<open>\<open>cleanup\<close>, as its calls and their effect on the names.\<close>

datatype close_call = CloseFd int | ShmUnlink string | SemClose "nat option" | SemUnlink string

fun cleanup_calls :: "share_memory list \<Rightarrow> close_call list" where
  "cleanup_calls [] = []"
| "cleanup_calls (m # ms) =
     [CloseFd (seg_fd m), ShmUnlink (seg_name m), SemClose (sem_ptr (seg_sem m)),
      SemUnlink (sem_file (seg_sem m))] @ cleanup_calls ms"

fun close_effect :: "close_call \<Rightarrow> posix \<Rightarrow> posix" where
  "close_effect (ShmUnlink n) k = k\<lparr>shm_names := (shm_names k)(n := None)\<rparr>"
| "close_effect (SemUnlink n) k = k\<lparr>sem_names := (sem_names k)(n := None)\<rparr>"
| "close_effect _ k = k"

definition cleanup :: "share_memory list \<Rightarrow> posix \<Rightarrow> posix" where
  "cleanup ms k = fold close_effect (cleanup_calls ms) k"

section \<open>The parent\<close>

definition VEGAN_SHM_NAME :: string where
  "VEGAN_SHM_NAME = ''/vegan''"

definition NON_VEGAN_SHM_NAME :: string where
  "NON_VEGAN_SHM_NAME = ''/non_vegan''"

definition handlers :: "proc fork_handler list" where
  "handlers =
     [\<lparr>roleDesc = ''Chef Donatello'', parentHandler = None, childHandler = Some Donatello\<rparr>,
      \<lparr>roleDesc = ''Chef Portecelli'', parentHandler = None, childHandler = Some Portecelli\<rparr>,
      \<lparr>roleDesc = ''Non-Vegan Customer'', parentHandler = None, childHandler = Some NonVegan\<rparr>,
      \<lparr>roleDesc = ''Vegan Customer'', parentHandler = None, childHandler = Some Vegan\<rparr>,
      \<lparr>roleDesc = ''Hybrid Customer'', parentHandler = None, childHandler = Some Hybrid\<rparr>]"

text \<open>
  \<open>handle_sigint\<close> in the parent: what it logs, the flag, the names, and the signal that is
  pending with the default action when the handler returns.
\<close>

definition parent_sigint :: "share_memory list \<Rightarrow> posix \<Rightarrow>
    log_call list \<times> bool \<times> posix \<times> int option" where
  "parent_sigint ms k =
     ([log_info ''SIGINT received, cleaning up...'' []], False, cleanup ms k, Some SIGINT)"

text \<open>
  How a run of \<open>main\<close> stands: it exited early, it is in a child, a signal killed it, it is
  still in its loop, or it returned.
\<close>

datatype main_result =
    Ended ending posix
  | InHandler "proc option" posix
  | Killed int posix
  | Serving "int list" posix
  | Returned int posix

text \<open>
  \<open>while (is_running) { showFoodOnTray(); sleep(10); }\<close> and what follows it. The list says
  for each \<open>sleep\<close> whether a SIGINT comes in it; \<open>waits\<close> answers \<open>waitpid\<close>.
\<close>

fun main_loop :: "(int \<Rightarrow> int \<times> i32) \<Rightarrow> share_memory list \<Rightarrow> int list \<Rightarrow> bool \<Rightarrow> bool list \<Rightarrow> posix \<Rightarrow>
    log_call list \<times> main_result" where
  "main_loop waits ms cid is_running sigs k =
     (if \<not> is_running then (waitForChildren waits cid, Returned 0 (cleanup ms k))
      else (case sigs of
              [] \<Rightarrow> ([], Serving cid k)
            | False # sigs' \<Rightarrow> main_loop waits ms cid is_running sigs' k
            | True # sigs' \<Rightarrow>
                (let (l, is_running, k, pending) = parent_sigint ms k
                 in case pending of
                      Some s \<Rightarrow> (l, Killed s k)
                    | None \<Rightarrow> (let (l', r) = main_loop waits ms cid is_running sigs' k in (l @ l', r)))))"

declare main_loop.simps [simp del]

record main_answers =
  dumpcore :: "string option"
  init_vegan :: init_answers
  init_non_vegan :: init_answers
  fork_r :: "nat \<Rightarrow> int"
  wait_r :: "int \<Rightarrow> int \<times> i32"
  sigints :: "bool list"

definition main_restaurant :: "main_answers \<Rightarrow> posix \<Rightarrow> log_call list \<times> main_result" where
  "main_restaurant a k =
     (let (ok, l1, k, v) = shmInit (init_vegan a) k (segment VEGAN_SHM_NAME)
      in if \<not> ok then (l1, Ended (terminate (dumpcore a) EXIT_FAILURE True) k)
         else
           let (ok, l2, k, n) = shmInit (init_non_vegan a) k (segment NON_VEGAN_SHM_NAME)
           in if \<not> ok then (l1 @ l2, Ended (terminate (dumpcore a) EXIT_FAILURE True) k)
              else
                let (l3, sp) = spawnChildProcesses (fork_r a) handlers (replicate 5 0)
                in case sp of
                     BecameChild i c e \<Rightarrow> (l1 @ l2 @ l3, InHandler c k)
                   | Spawned False cid \<Rightarrow> (l1 @ l2 @ l3, Ended (terminate (dumpcore a) EXIT_FAILURE True) k)
                   | Spawned True cid \<Rightarrow>
                       (let (l4, r) = main_loop (wait_r a) [v, n] cid True (sigints a) k
                        in (l1 @ l2 @ l3 @ l4, r)))"

section \<open>What the parent does\<close>

definition init_ok :: "init_answers \<Rightarrow> bool" where
  "init_ok a \<longleftrightarrow> sem_open_r a \<noteq> None \<and> shm_open_r a \<noteq> -1 \<and> ftruncate_r a \<noteq> -1 \<and> mmap_r a \<noteq> None"

text \<open>The kernel after \<open>shmInit\<close> opened the objects of one name.\<close>

definition opened :: "string \<Rightarrow> posix \<Rightarrow> posix" where
  "opened n k = truncate_shm n sizeof_buffer (open_shm n (open_sem (n @ ''_sem'') 1 k))"

definition short_name :: "string \<Rightarrow> bool" where
  "short_name n \<longleftrightarrow> NUL \<notin> set n \<and> length n < 59"

lemma short_names [simp]: "short_name VEGAN_SHM_NAME" "short_name NON_VEGAN_SHM_NAME"
  by (simp_all add: short_name_def VEGAN_SHM_NAME_def NON_VEGAN_SHM_NAME_def)

lemma shmInit_succeeds:
  assumes "init_ok a" and n: "short_name n"
  shows "\<exists>m. shmInit a k (segment n) = (True, [], opened n k, m) \<and> seg_name m = n \<and>
    sem_file (seg_sem m) = n @ ''_sem''"
proof -
  have "snprintf_s 64 (n @ ''_sem'') = n @ ''_sem''" "snprintf_s 255 (n @ ''_sem'') = n @ ''_sem''"
    using n by (auto simp: short_name_def intro: snprintf_s_fits)
  with assms show ?thesis
    by (auto simp: shmInit_def init_ok_def opened_def segment_def Let_def)
qed

lemma shmInit_fails:
  assumes "\<not> init_ok a"
  shows "\<exists>l k' m. shmInit a k (segment n) = (False, [l], k', m) \<and> lc_level l = LOG_ERROR"
  using assms by (auto simp: shmInit_def init_ok_def Let_def log_error_def log_error_ne_def)

text \<open>With both segments open the outcome is what the forks and the loop make of it.\<close>

definition started :: "posix \<Rightarrow> posix" where
  "started k = opened NON_VEGAN_SHM_NAME (opened VEGAN_SHM_NAME k)"

lemma main_after_init:
  assumes "init_ok (init_vegan a)" and "init_ok (init_non_vegan a)"
  shows "\<exists>v n. seg_name v = VEGAN_SHM_NAME \<and> sem_file (seg_sem v) = VEGAN_SHM_NAME @ ''_sem'' \<and>
    seg_name n = NON_VEGAN_SHM_NAME \<and> sem_file (seg_sem n) = NON_VEGAN_SHM_NAME @ ''_sem'' \<and>
    snd (main_restaurant a k) =
      (case snd (spawnChildProcesses (fork_r a) handlers (replicate 5 0)) of
         BecameChild i c e \<Rightarrow> InHandler c (started k)
       | Spawned False cid \<Rightarrow> Ended (terminate (dumpcore a) EXIT_FAILURE True) (started k)
       | Spawned True cid \<Rightarrow> snd (main_loop (wait_r a) [v, n] cid True (sigints a) (started k)))"
proof -
  obtain v where v: "shmInit (init_vegan a) k (segment VEGAN_SHM_NAME) =
      (True, [], opened VEGAN_SHM_NAME k, v)" "seg_name v = VEGAN_SHM_NAME"
      "sem_file (seg_sem v) = VEGAN_SHM_NAME @ ''_sem''"
    using shmInit_succeeds [OF assms(1) short_names(1), of k] by blast
  obtain n where n: "shmInit (init_non_vegan a) (opened VEGAN_SHM_NAME k) (segment NON_VEGAN_SHM_NAME) =
      (True, [], started k, n)" "seg_name n = NON_VEGAN_SHM_NAME"
      "sem_file (seg_sem n) = NON_VEGAN_SHM_NAME @ ''_sem''"
    using shmInit_succeeds [OF assms(2) short_names(2), of "opened VEGAN_SHM_NAME k"]
    unfolding started_def by blast
  show ?thesis
    using v n by (intro exI [of _ v] exI [of _ n])
      (auto simp: main_restaurant_def split: prod.splits spawned.splits bool.splits)
qed

lemma main_loop_serves: "True \<notin> set sigs \<Longrightarrow> main_loop w ms cid True sigs k = ([], Serving cid k)"
  by (induction sigs) (auto simp: main_loop.simps split: bool.splits)

lemma main_loop_killed:
  "True \<in> set sigs \<Longrightarrow> snd (main_loop w ms cid True sigs k) = Killed SIGINT (cleanup ms k)"
proof (induction sigs)
  case (Cons b sigs)
  then show ?case
    by (cases b) (auto simp: main_loop.simps [of _ _ _ _ "_ # _"] parent_sigint_def)
qed simp

lemma main_loop_not_returned: "snd (main_loop w ms cid True sigs k) \<noteq> Returned r k'"
  using main_loop_serves [of sigs] main_loop_killed [of sigs] by (cases "True \<in> set sigs") auto

text \<open>The names: what was there is kept, and \<open>cleanup\<close> removes all four.\<close>

lemma started_names:
  "sem_names (started k) = (sem_names k)
     (''/vegan_sem'' := Some (case sem_names k ''/vegan_sem'' of None \<Rightarrow> 1 | Some v \<Rightarrow> v),
      ''/non_vegan_sem'' := Some (case sem_names k ''/non_vegan_sem'' of None \<Rightarrow> 1 | Some v \<Rightarrow> v))"
  "shm_names (started k) = (shm_names k)
     (''/vegan'' := Some (resize sizeof_buffer (case shm_names k ''/vegan'' of None \<Rightarrow> [] | Some b \<Rightarrow> b)),
      ''/non_vegan'' := Some (resize sizeof_buffer (case shm_names k ''/non_vegan'' of None \<Rightarrow> [] | Some b \<Rightarrow> b)))"
  by (simp_all add: started_def opened_def truncate_shm_def open_shm_def open_sem_def
    VEGAN_SHM_NAME_def NON_VEGAN_SHM_NAME_def fun_upd_twist del: One_nat_def)

lemma cleanup_started:
  assumes "seg_name v = VEGAN_SHM_NAME" "sem_file (seg_sem v) = VEGAN_SHM_NAME @ ''_sem''"
    "seg_name n = NON_VEGAN_SHM_NAME" "sem_file (seg_sem n) = NON_VEGAN_SHM_NAME @ ''_sem''"
  shows "cleanup [v, n] (started k) = k
    \<lparr>sem_names := (sem_names k)(''/vegan_sem'' := None, ''/non_vegan_sem'' := None),
     shm_names := (shm_names k)(''/vegan'' := None, ''/non_vegan'' := None)\<rparr>"
  using assms
  by (simp add: cleanup_def started_names VEGAN_SHM_NAME_def NON_VEGAN_SHM_NAME_def fun_upd_twist)

lemma resize_empty: "resize len [] = replicate len 0"
  by (simp add: resize_def)

lemma handlers_length: "length handlers = 5"
  by (simp add: handlers_def)

text \<open>
  C24: When the segments open and every fork gives a pid, main keeps serving, having started
  the five processes of the table in order. Objects that did not exist are a semaphore of
  value 1 and a zeroed buffer; a semaphore left over from an earlier run keeps its value (0
  if its holder died), and a left-over segment keeps its bytes.
\<close>

theorem restaurant_main_starts:
  assumes "init_ok (init_vegan a)" "init_ok (init_non_vegan a)"
    and "\<And>i. i < 5 \<Longrightarrow> 0 < fork_r a i" and "True \<notin> set (sigints a)"
  shows "\<exists>k'. snd (main_restaurant a k) = Serving (map (fork_r a) [0..<5]) k' \<and>
    sem_names k' = (sem_names k)
      (''/vegan_sem'' := Some (case sem_names k ''/vegan_sem'' of None \<Rightarrow> 1 | Some v \<Rightarrow> v),
       ''/non_vegan_sem'' := Some (case sem_names k ''/non_vegan_sem'' of None \<Rightarrow> 1 | Some v \<Rightarrow> v)) \<and>
    shm_names k' = (shm_names k)
      (''/vegan'' := Some (case shm_names k ''/vegan'' of
          None \<Rightarrow> replicate sizeof_buffer 0 | Some b \<Rightarrow> resize sizeof_buffer b),
       ''/non_vegan'' := Some (case shm_names k ''/non_vegan'' of
          None \<Rightarrow> replicate sizeof_buffer 0 | Some b \<Rightarrow> resize sizeof_buffer b))"
proof -
  have "snd (spawnChildProcesses (fork_r a) handlers (replicate 5 0)) =
      Spawned True (map (fork_r a) [0..<5])"
    using assms(3) spawn_loop_parent [of 0 handlers "fork_r a" 5 "replicate 5 0"]
    by (simp add: spawnChildProcesses_def handlers_length)
  then have "snd (main_restaurant a k) = Serving (map (fork_r a) [0..<5]) (started k)"
    using main_after_init [OF assms(1,2), of k] main_loop_serves [OF assms(4)] by auto
  then show ?thesis
    by (intro exI [of _ "started k"]) (simp add: started_names resize_empty option.case_distrib [of "resize _"] cong: option.case_cong)
qed

text \<open>A run in which nothing fails and a SIGINT comes in the third sleep, to instantiate them.\<close>

definition sample_run :: "bool list \<Rightarrow> main_answers" where
  "sample_run sigs =
     \<lparr>dumpcore = None,
      init_vegan = \<lparr>sem_open_r = Some 1, shm_open_r = 3, ftruncate_r = 0, mmap_r = Some 2\<rparr>,
      init_non_vegan = \<lparr>sem_open_r = Some 3, shm_open_r = 4, ftruncate_r = 0, mmap_r = Some 4\<rparr>,
      fork_r = (\<lambda>i. 100 + int i), wait_r = (\<lambda>pid. (pid, 0)), sigints = sigs\<rparr>"

definition no_names :: posix where
  "no_names = \<lparr>sem_names = (\<lambda>_. None), shm_names = (\<lambda>_. None)\<rparr>"

theorem restaurant_main_starts_witness:
  "\<exists>k'. snd (main_restaurant (sample_run [False]) (no_names\<lparr>sem_names := [''/vegan_sem'' \<mapsto> 0]\<rparr>)) =
       Serving [100, 101, 102, 103, 104] k' \<and>
     sem_names k' ''/vegan_sem'' = Some 0 \<and> sem_names k' ''/non_vegan_sem'' = Some 1"
  using restaurant_main_starts [of "sample_run [False]" "no_names\<lparr>sem_names := [''/vegan_sem'' \<mapsto> 0]\<rparr>"]
  by (auto simp: sample_run_def no_names_def init_ok_def upt_rec)

text \<open>
  C25: A SIGINT during the loop removes the four names the program uses and kills the parent;
  every other name is as before. On a system without those names the run leaves no trace.
\<close>

theorem restaurant_main_sigint:
  assumes "init_ok (init_vegan a)" "init_ok (init_non_vegan a)"
    and "\<And>i. i < 5 \<Longrightarrow> 0 < fork_r a i" and "True \<in> set (sigints a)"
  shows "snd (main_restaurant a k) = Killed SIGINT (k
    \<lparr>sem_names := (sem_names k)(''/vegan_sem'' := None, ''/non_vegan_sem'' := None),
     shm_names := (shm_names k)(''/vegan'' := None, ''/non_vegan'' := None)\<rparr>)"
proof -
  have "snd (spawnChildProcesses (fork_r a) handlers (replicate 5 0)) =
      Spawned True (map (fork_r a) [0..<5])"
    using assms(3) spawn_loop_parent [of 0 handlers "fork_r a" 5 "replicate 5 0"]
    by (simp add: spawnChildProcesses_def handlers_length)
  then show ?thesis
    using main_after_init [OF assms(1,2), of k] main_loop_killed [OF assms(4)] cleanup_started by auto
qed

theorem restaurant_main_sigint_witness:
  "snd (main_restaurant (sample_run [False, False, True]) no_names) = Killed SIGINT no_names"
  using restaurant_main_sigint [of "sample_run [False, False, True]" no_names]
  by (simp add: sample_run_def no_names_def init_ok_def)

text \<open>
  C26: \<open>waitForChildren\<close> and the \<open>cleanup\<close> at the end of main are dead code: whatever the
  kernel answers and whenever signals come, main does not return.
\<close>

theorem restaurant_main_never_returns: "snd (main_restaurant a k) \<noteq> Returned r k'"
proof (cases "init_ok (init_vegan a) \<and> init_ok (init_non_vegan a)")
  case True
  then show ?thesis
    using main_after_init [of a k] main_loop_not_returned
    by (cases "snd (spawnChildProcesses (fork_r a) handlers (replicate 5 0))")
      (auto split: bool.splits dest!: sym [of "Returned _ _"])
next
  case False
  then consider "\<not> init_ok (init_vegan a)" | "init_ok (init_vegan a)" "\<not> init_ok (init_non_vegan a)"
    by blast
  then show ?thesis
  proof cases
    case 1
    from shmInit_fails [OF this, of k VEGAN_SHM_NAME] show ?thesis
      by (auto simp: main_restaurant_def)
  next
    case 2
    from shmInit_succeeds [OF 2(1) short_names(1), of k]
      shmInit_fails [OF 2(2), of "opened VEGAN_SHM_NAME k" NON_VEGAN_SHM_NAME]
    show ?thesis by (auto simp: main_restaurant_def)
  qed
qed

text \<open>
  The child made by the \<open>m\<close>-th fork runs the handler of row \<open>m\<close> of the table on the
  opened segments, so each of the five roles is played by exactly one process.
\<close>

theorem restaurant_main_child:
  assumes "init_ok (init_vegan a)" "init_ok (init_non_vegan a)"
    and "\<And>i. i < m \<Longrightarrow> 0 < fork_r a i" and "fork_r a m = 0" and "m < 5"
  shows "snd (main_restaurant a k) =
    InHandler (Some ([Donatello, Portecelli, NonVegan, Vegan, Hybrid] ! m)) (started k)"
proof -
  have "snd (spawnChildProcesses (fork_r a) handlers (replicate 5 0)) =
      BecameChild m (childHandler (handlers ! m)) (Exit EXIT_SUCCESS)"
    using assms(3-5) spawn_loop_child [of 0 m "fork_r a" handlers 5 "replicate 5 0"]
    by (simp add: spawnChildProcesses_def handlers_length)
  moreover have "childHandler (handlers ! m) = Some ([Donatello, Portecelli, NonVegan, Vegan, Hybrid] ! m)"
    using assms(5) by (auto simp: handlers_def less_Suc_eq numeral_eq_Suc)
  ultimately show ?thesis
    using main_after_init [OF assms(1,2), of k] by auto
qed

theorem restaurant_main_child_witness:
  "snd (main_restaurant ((sample_run [])\<lparr>fork_r := \<lambda>i. if i = 3 then 0 else 100\<rparr>) no_names) =
     InHandler (Some Vegan) (started no_names)"
  using restaurant_main_child [of "(sample_run [])\<lparr>fork_r := \<lambda>i. if i = 3 then 0 else 100\<rparr>" 3 no_names]
  by (simp add: sample_run_def init_ok_def eval_nat_numeral)

text \<open>
  If a fork fails after some have succeeded, main exits with failure at once: the names
  stay behind, and the children already started are neither told nor waited for.
\<close>

theorem restaurant_main_fork_fails:
  assumes "init_ok (init_vegan a)" "init_ok (init_non_vegan a)" and "dumpcore a = None"
    and "\<And>i. i < m \<Longrightarrow> 0 < fork_r a i" and "fork_r a m < 0" and "m < 5"
  shows "snd (main_restaurant a k) = Ended (Exit EXIT_FAILURE) (started k)"
proof -
  have "\<exists>cid. snd (spawnChildProcesses (fork_r a) handlers (replicate 5 0)) = Spawned False cid"
    using assms(4-6) spawn_loop_fails [of 0 m "fork_r a" handlers 5 "replicate 5 0"]
    by (auto simp: spawnChildProcesses_def handlers_length)
  then show ?thesis
    using main_after_init [OF assms(1,2), of k] assms(3) by (auto simp: terminate_def)
qed

theorem restaurant_main_fork_fails_witness:
  "snd (main_restaurant ((sample_run [])\<lparr>fork_r := \<lambda>i. if i = 3 then -1 else 100\<rparr>) no_names) =
     Ended (Exit EXIT_FAILURE) (started no_names)"
  using restaurant_main_fork_fails [of "(sample_run [])\<lparr>fork_r := \<lambda>i. if i = 3 then -1 else 100\<rparr>" 3 no_names]
  by (simp add: sample_run_def init_ok_def)

end
