(* ===== verification/Pipe.thy ===== *)
theory Pipe
  imports Children
begin

text \<open>
  \<open>8-Pipe/main.c\<close>, which runs \<open>ls -l | wc -l\<close>: the file descriptors of the parent and the
  two children, through \<open>pipe\<close>, \<open>fork\<close>, \<open>dup2\<close> and \<open>close\<close>. Whether \<open>pipe\<close>, \<open>fork\<close>
  and \<open>execl\<close> succeed and what \<open>waitpid\<close> gives are arguments. Whether a child ever ends, and so
  whether \<open>waitpid\<close> returns, may depend on the descriptors the parent holds at that moment:
  a reader of the pipe sees no end of file while somebody has its write end open.
\<close>

section \<open>File descriptors\<close>

datatype chan = ReadEnd | WriteEnd | Std nat

type_synonym fds = "int \<Rightarrow> chan option"

definition STDIN_FILENO :: int where
  "STDIN_FILENO = 0"

definition STDOUT_FILENO :: int where
  "STDOUT_FILENO = 1"

definition close_fd :: "int \<Rightarrow> fds \<Rightarrow> fds" where
  "close_fd fd t = t(fd := None)"

text \<open>\<open>None\<close> for the result -1; a descriptor duplicated onto itself is left alone.\<close>

definition dup2 :: "int \<Rightarrow> int \<Rightarrow> fds \<Rightarrow> fds option" where
  "dup2 old new t =
     (if t old = None \<or> new < 0 then None else if old = new then Some t else Some (t(new := t old)))"

section \<open>The program\<close>

datatype command = Command (path: string) (argv: "string list")

text \<open>
  How a process ends up, and with which descriptors: running another program, ended, returned from
  \<open>main\<close>, or blocked for ever in \<open>waitpid\<close> for a child.
\<close>

datatype run = Runs command fds | Finished ending fds | Return int fds | Hangs int fds

record pipe_answers =
  dumpcore :: "string option"
  pipe_r :: "(int \<times> int) option"
  fork_r :: "nat \<Rightarrow> int"
  wait_r :: "int \<Rightarrow> fds \<Rightarrow> (int \<times> i32) option"   \<comment> \<open>\<open>None\<close>: does not return\<close>
  exec_fails :: bool

definition initializePipe :: "(int \<times> int) option \<Rightarrow> fds \<Rightarrow> log_call list \<times> ((int \<times> int) \<times> fds) option" where
  "initializePipe r t =
     (case r of None \<Rightarrow> ([log_error ''pipe creation failed'' []], None)
      | Some (r, w) \<Rightarrow> ([], Some ((r, w), t(r \<mapsto> ReadEnd, w \<mapsto> WriteEnd))))"

definition executeCommandWithPipe :: "pipe_answers \<Rightarrow> int \<times> int \<Rightarrow> int \<Rightarrow> int \<Rightarrow>
    string \<Rightarrow> string \<Rightarrow> string \<Rightarrow> string \<Rightarrow> fds \<Rightarrow> log_call list \<times> run" where
  "executeCommandWithPipe a pfd redirectFd pipeEndToUse cmdPath arg0 arg1 desc t =
     (let t = close_fd (if redirectFd = STDIN_FILENO then snd pfd else fst pfd) t
      in case dup2 pipeEndToUse redirectFd t of
           None \<Rightarrow> ([log_error ''dup2 failed'' []], Finished (terminate (dumpcore a) EXIT_FAILURE False) t)
         | Some t \<Rightarrow>
             (let t = close_fd pipeEndToUse t
              in if exec_fails a
                 then ([log_error ''execl failed for %s'' [ArgS desc]],
                       Finished (terminate (dumpcore a) EXIT_FAILURE False) t)
                 else ([], Runs (Command cmdPath [arg0, arg1]) t)))"

definition childHandlerLs :: "pipe_answers \<Rightarrow> int \<times> int \<Rightarrow> fds \<Rightarrow> log_call list \<times> run" where
  "childHandlerLs a pfd =
     executeCommandWithPipe a pfd STDOUT_FILENO (snd pfd) ''/bin/ls'' ''ls'' ''-l'' ''ls -l Command''"

definition childHandlerWc :: "pipe_answers \<Rightarrow> int \<times> int \<Rightarrow> fds \<Rightarrow> log_call list \<times> run" where
  "childHandlerWc a pfd =
     executeCommandWithPipe a pfd STDIN_FILENO (fst pfd) ''/usr/bin/wc'' ''wc'' ''-l'' ''wc -l Command''"

datatype role = Ls | Wc

definition handlers :: "role fork_handler list" where
  "handlers =
     [\<lparr>roleDesc = ''ls -l Command'', parentHandler = None, childHandler = Some Ls\<rparr>,
      \<lparr>roleDesc = ''wc -l Command'', parentHandler = None, childHandler = Some Wc\<rparr>]"

fun run_handler :: "role \<Rightarrow> pipe_answers \<Rightarrow> int \<times> int \<Rightarrow> fds \<Rightarrow> log_call list \<times> run" where
  "run_handler Ls = childHandlerLs"
| "run_handler Wc = childHandlerWc"

definition cleanup :: "int \<times> int \<Rightarrow> fds \<Rightarrow> fds" where
  "cleanup pfd t = close_fd (snd pfd) (close_fd (fst pfd) t)"

text \<open>
  The copy of \<open>spawnChildProcesses\<close> in this program, over its own table and its array of two
  pids, and that of \<open>waitForChildren\<close>, which also gives how the parent ends: each \<open>waitpid\<close> is
  called with the descriptors the parent holds then.
\<close>

definition spawn_commands :: "(nat \<Rightarrow> int) \<Rightarrow> log_call list \<times> role spawned" where
  "spawn_commands pids = spawnChildProcesses pids handlers (replicate 2 0)"

fun wait_commands :: "(int \<Rightarrow> fds \<Rightarrow> (int \<times> i32) option) \<Rightarrow> fds \<Rightarrow> int list \<Rightarrow> log_call list \<times> run" where
  "wait_commands waits t [] = ([], Return 0 t)"
| "wait_commands waits t (pid # cid) =
     (case waits pid t of
        None \<Rightarrow> ([], Hangs pid t)
      | Some w \<Rightarrow> (let (l, r) = wait_commands waits t cid in (wait_log (\<lambda>_. w) pid # l, r)))"

text \<open>
  \<open>main\<close>, in whichever process it runs: \<open>fork\<close> returns 0 in the child it makes.
\<close>

definition main_pipe :: "pipe_answers \<Rightarrow> fds \<Rightarrow> log_call list \<times> run" where
  "main_pipe a t =
     (case initializePipe (pipe_r a) t of
        (l1, None) \<Rightarrow> (l1, Finished (terminate (dumpcore a) EXIT_FAILURE True) t)
      | (l1, Some (pfd, t)) \<Rightarrow>
          (case spawn_commands (fork_r a) of
             (l2, BecameChild i None e) \<Rightarrow> (l1 @ l2, Finished e t)
           | (l2, BecameChild i (Some c) e) \<Rightarrow>
               (let (l3, r) = run_handler c a pfd t in (l1 @ l2 @ l3, r))
           | (l2, Spawned False cid) \<Rightarrow> (l1 @ l2, Finished (terminate (dumpcore a) EXIT_FAILURE True) t)
           | (l2, Spawned True cid) \<Rightarrow>
               (let t = cleanup pfd t; (l3, r) = wait_commands (wait_r a) t cid
                in (l1 @ l2 @ l3, r))))"

section \<open>Plumbing\<close>

text \<open>What the kernel promises of the two descriptors: distinct, not in use, not negative.\<close>

definition pipe_fds :: "int \<times> int \<Rightarrow> fds \<Rightarrow> bool" where
  "pipe_fds p t \<longleftrightarrow> fst p \<noteq> snd p \<and> 0 \<le> fst p \<and> 0 \<le> snd p \<and> t (fst p) = None \<and> t (snd p) = None"

definition no_pipe :: "fds \<Rightarrow> bool" where
  "no_pipe t \<longleftrightarrow> (\<forall>fd. t fd \<noteq> Some ReadEnd \<and> t fd \<noteq> Some WriteEnd)"

definition holds_only :: "chan \<Rightarrow> int \<Rightarrow> fds \<Rightarrow> bool" where
  "holds_only c fd t \<longleftrightarrow> t fd = Some c \<and>
     (\<forall>i. t i = Some ReadEnd \<or> t i = Some WriteEnd \<longrightarrow> i = fd)"

lemma commands_length: "length handlers = 2"
  by (simp add: handlers_def)

lemma spawned_child:
  assumes "fork_r a 0 = 0"
  shows "snd (spawn_commands (fork_r a)) =
    BecameChild 0 (Some Ls) (Exit EXIT_SUCCESS)"
  using assms spawn_loop_child [of 0 0 "fork_r a" handlers 2 "replicate 2 0"]
  by (simp add: spawn_commands_def spawnChildProcesses_def handlers_def)

lemma spawned_child_wc:
  assumes "0 < fork_r a 0" "fork_r a 1 = 0"
  shows "snd (spawn_commands (fork_r a)) =
    BecameChild 1 (Some Wc) (Exit EXIT_SUCCESS)"
  using assms spawn_loop_child [of 0 1 "fork_r a" handlers 2 "replicate 2 0"]
  by (simp add: spawn_commands_def spawnChildProcesses_def handlers_def)

lemma spawned_both:
  assumes "0 < fork_r a 0" "0 < fork_r a 1"
  shows "snd (spawn_commands (fork_r a)) =
    Spawned True [fork_r a 0, fork_r a 1]"
proof -
  have "\<And>j. j < 2 \<Longrightarrow> 0 < fork_r a j" using assms by (auto simp: less_Suc_eq numeral_2_eq_2)
  then show ?thesis
    using spawn_loop_parent [of 0 handlers "fork_r a" 2 "replicate 2 0"]
    by (simp add: spawn_commands_def spawnChildProcesses_def commands_length upt_rec)
qed

text \<open>
  When no call fails, the child of the first fork runs \<open>ls -l\<close> with the pipe's write end
  as its standard output and no other pipe descriptor, if the pipe got neither of the
  standard descriptors.
\<close>

theorem pipe_ls_child:
  assumes "pipe_r a = Some p" "pipe_fds p t" "no_pipe t" and "\<not> exec_fails a"
    and "fork_r a 0 = 0" and "1 < fst p" "1 < snd p"
  shows "\<exists>t'. snd (main_pipe a t) = Runs (Command ''/bin/ls'' [''ls'', ''-l'']) t' \<and>
    holds_only WriteEnd STDOUT_FILENO t' \<and> t' STDIN_FILENO = t STDIN_FILENO"
proof -
  obtain r w where p: "p = (r, w)" by (cases p)
  show ?thesis
    using assms spawned_child [OF assms(5)]
    by (cases "spawn_commands (fork_r a)")
      (auto simp: p main_pipe_def initializePipe_def childHandlerLs_def executeCommandWithPipe_def
        close_fd_def dup2_def STDIN_FILENO_def STDOUT_FILENO_def pipe_fds_def holds_only_def no_pipe_def)
qed

text \<open>
  Descriptors as a shell gives them, and a run where everything succeeds; the children only end
  when the parent does not hold the write end of the pipe.
\<close>

definition shell_fds :: fds where
  "shell_fds = [0 \<mapsto> Std 0, 1 \<mapsto> Std 1, 2 \<mapsto> Std 2]"

definition sample_pipe :: "int \<times> int \<Rightarrow> (nat \<Rightarrow> int) \<Rightarrow> pipe_answers" where
  "sample_pipe p f = \<lparr>dumpcore = None, pipe_r = Some p, fork_r = f, wait_r = (\<lambda>pid t. if t (snd p) = Some WriteEnd then None else Some (pid, 0)), exec_fails = False\<rparr>"

lemma shell_fds_ok: "pipe_fds (3, 4) shell_fds" "no_pipe shell_fds" "shell_fds 0 = Some (Std 0)" "shell_fds 4 = None"
  by (simp_all add: shell_fds_def pipe_fds_def no_pipe_def)

theorem pipe_ls_child_witness:
  "\<exists>t'. snd (main_pipe (sample_pipe (3, 4) (\<lambda>_. 0)) shell_fds) =
     Runs (Command ''/bin/ls'' [''ls'', ''-l'']) t' \<and>
     holds_only WriteEnd STDOUT_FILENO t' \<and> t' STDIN_FILENO = Some (Std 0)"
  using pipe_ls_child [of "sample_pipe (3, 4) (\<lambda>_. 0)" "(3, 4)" shell_fds]
  by (simp add: sample_pipe_def shell_fds_ok STDIN_FILENO_def)

text \<open>
  C27: The child of the second fork runs \<open>wc -l\<close> reading the pipe and holding no write end, and the
  parent holds no pipe descriptor at either of its two calls of \<open>waitpid\<close>: each is made with the
  descriptors the program was started with, and whether the parent returns or hangs is decided by
  what \<open>waitpid\<close> gives there. So \<open>ls\<close> is the only writer, and its end is \<open>wc\<close>'s end of file.
\<close>

theorem pipe_wc_reads_only:
  assumes "pipe_r a = Some p" "pipe_fds p t" "no_pipe t" and "\<not> exec_fails a"
    and "0 < fork_r a 0" and "1 < fst p" "1 < snd p"
  shows "(fork_r a 1 = 0 \<longrightarrow>
      (\<exists>t'. snd (main_pipe a t) = Runs (Command ''/usr/bin/wc'' [''wc'', ''-l'']) t' \<and>
        holds_only ReadEnd STDIN_FILENO t' \<and> t' STDOUT_FILENO = t STDOUT_FILENO)) \<and>
    (0 < fork_r a 1 \<longrightarrow> snd (main_pipe a t) =
      (if wait_r a (fork_r a 0) t = None then Hangs (fork_r a 0) t
       else if wait_r a (fork_r a 1) t = None then Hangs (fork_r a 1) t
       else Return 0 t))"
proof -
  obtain r w where p: "p = (r, w)" by (cases p)
  have "fork_r a 1 = 0 \<Longrightarrow>
      \<exists>t'. snd (main_pipe a t) = Runs (Command ''/usr/bin/wc'' [''wc'', ''-l'']) t' \<and>
        holds_only ReadEnd STDIN_FILENO t' \<and> t' STDOUT_FILENO = t STDOUT_FILENO"
    using assms spawned_child_wc [OF assms(5)]
    by (cases "spawn_commands (fork_r a)")
      (auto simp: p main_pipe_def initializePipe_def childHandlerWc_def executeCommandWithPipe_def
        close_fd_def dup2_def STDIN_FILENO_def STDOUT_FILENO_def pipe_fds_def holds_only_def no_pipe_def)
  moreover have "0 < fork_r a 1 \<Longrightarrow> snd (main_pipe a t) =
      (if wait_r a (fork_r a 0) t = None then Hangs (fork_r a 0) t
       else if wait_r a (fork_r a 1) t = None then Hangs (fork_r a 1) t
       else Return 0 t)"
  proof -
    assume pos: "0 < fork_r a 1"
    have closed: "cleanup p (t(r \<mapsto> ReadEnd, w \<mapsto> WriteEnd)) = t"
      using assms(2) by (auto simp: p cleanup_def close_fd_def pipe_fds_def)
    obtain l where "spawn_commands (fork_r a) = (l, Spawned True [fork_r a 0, fork_r a 1])"
      using spawned_both [OF assms(5) pos] by (cases "spawn_commands (fork_r a)") simp
    then have "snd (main_pipe a t) = snd (wait_commands (wait_r a) t [fork_r a 0, fork_r a 1])"
      using assms(1) closed p by (simp add: main_pipe_def initializePipe_def split_beta)
    then show ?thesis by (simp add: split_beta split: option.splits)
  qed
  ultimately show ?thesis by blast
qed

text \<open>With children that wait for the parent to close its write end, the parent returns.\<close>

theorem pipe_wc_reads_only_witness:
  "snd (main_pipe (sample_pipe (3, 4) (\<lambda>_. 100)) shell_fds) = Return 0 shell_fds \<and>
   (\<exists>t'. snd (main_pipe (sample_pipe (3, 4) (\<lambda>i. if i = 0 then 100 else 0)) shell_fds) =
     Runs (Command ''/usr/bin/wc'' [''wc'', ''-l'']) t' \<and> holds_only ReadEnd STDIN_FILENO t')"
  using pipe_wc_reads_only [of "sample_pipe (3, 4) (\<lambda>_. 100)" "(3, 4)" shell_fds]
    pipe_wc_reads_only [of "sample_pipe (3, 4) (\<lambda>i. if i = 0 then 100 else 0)" "(3, 4)" shell_fds]
  by (auto simp: sample_pipe_def shell_fds_ok)

text \<open>
  Started with its standard input closed, the program gets descriptor 0 for the pipe's
  read end; the child closes it after a \<open>dup2\<close> onto itself, and \<open>wc\<close> runs without any input.
\<close>

theorem pipe_closed_stdin:
  assumes "pipe_r a = Some (0, w)" "0 < w" "t 0 = None" and "\<not> exec_fails a"
    and "0 < fork_r a 0" "fork_r a 1 = 0"
  shows "\<exists>t'. snd (main_pipe a t) = Runs (Command ''/usr/bin/wc'' [''wc'', ''-l'']) t' \<and>
    t' STDIN_FILENO = None"
  using assms spawned_child_wc [OF assms(5,6)]
  by (cases "spawn_commands (fork_r a)")
    (auto simp: main_pipe_def initializePipe_def childHandlerWc_def executeCommandWithPipe_def
      close_fd_def dup2_def STDIN_FILENO_def)

theorem pipe_closed_stdin_witness:
  "\<exists>t'. snd (main_pipe (sample_pipe (0, 3) (\<lambda>i. if i = 0 then 100 else 0)) (shell_fds(0 := None))) =
     Runs (Command ''/usr/bin/wc'' [''wc'', ''-l'']) t' \<and> t' STDIN_FILENO = None"
  using pipe_closed_stdin [of "sample_pipe (0, 3) (\<lambda>i. if i = 0 then 100 else 0)" 3 "shell_fds(0 := None)"]
  by (simp add: sample_pipe_def)

end
