(* ===== verification/ThreadMains.thy ===== *)
theory ThreadMains
  imports StrUtils Log ErrorHandler
begin

text \<open>
  The main threads of \<open>4-Thread\<close>: creating and joining the threads, with what the pthread
  calls and \<open>malloc\<close> return as arguments. \<open>ok\<close> stands for the macro \<open>SUCCESS\<close>: the header
  \<open>CmnBase/cmnbase.h\<close> defines it as 1 and then includes \<open>strutils.h\<close>, which defines it again
  as 0, so the programs are compiled with \<open>ok\<close> equal to \<open>FAILURE\<close>.
\<close>

section \<open>Creating and joining\<close>

definition FAILURE :: u32 where
  "FAILURE = 0"

definition cmnbase_SUCCESS :: u32 where
  "cmnbase_SUCCESS = 1"

text \<open>\<open>create_threads\<close>: what is logged, how many threads were started, \<open>errno\<close> and the result.\<close>

function create_loop :: "u32 \<Rightarrow> (nat \<Rightarrow> int) \<Rightarrow> nat \<Rightarrow> nat \<Rightarrow> log_call list \<times> nat \<times> int \<times> u32" where
  "create_loop ok create_r num tnum =
     (if tnum < num
      then (let ret = create_r tnum
            in if ret \<noteq> 0 then ([log_error_ne ''pthread_create failure'' []], tnum, ret, FAILURE)
               else create_loop ok create_r num (Suc tnum))
      else ([], tnum, 0, ok))"
  by pat_completeness auto
termination
  by (relation "measure (\<lambda>(_, _, num, tnum). num - tnum)") auto

declare create_loop.simps [simp del]

definition dquoted :: "string \<Rightarrow> string" where
  "dquoted s = CHR 0x22 # s @ [CHR 0x22]"

definition joined_log :: "nat \<Rightarrow> string \<Rightarrow> log_call" where
  "joined_log tnum v =
     log_info (''Joined with thread %d; returned value was '' @ dquoted ''%s'') [ArgI (int tnum), ArgS v]"

text \<open>\<open>join_threads\<close>: \<open>value_r t\<close> is the string thread \<open>t\<close> returned, \<open>None\<close> for null.\<close>

function join_loop :: "u32 \<Rightarrow> (nat \<Rightarrow> int) \<Rightarrow> (nat \<Rightarrow> string option) \<Rightarrow> nat \<Rightarrow> nat \<Rightarrow>
    log_call list \<times> int \<times> u32" where
  "join_loop ok join_r value_r num tnum =
     (if tnum < num
      then (let ret = join_r tnum
            in if ret \<noteq> 0 then ([log_error_ne ''pthread_join failure'' []], ret, FAILURE)
               else (let (l, e, r) = join_loop ok join_r value_r num (Suc tnum)
                     in ((case value_r tnum of None \<Rightarrow> [] | Some v \<Rightarrow> [joined_log tnum v]) @ l, e, r)))
      else ([], 0, ok))"
  by pat_completeness auto
termination
  by (relation "measure (\<lambda>(_, _, _, num, tnum). num - tnum)") auto

declare join_loop.simps [simp del]

lemma create_loop_ok:
  "(\<And>t. tnum \<le> t \<Longrightarrow> t < num \<Longrightarrow> create_r t = 0) \<Longrightarrow> tnum \<le> num \<Longrightarrow>
    create_loop ok create_r num tnum = ([], num, 0, ok)"
proof (induction "num - tnum" arbitrary: tnum)
  case (Suc d)
  then show ?case by (subst create_loop.simps) simp
qed (simp add: create_loop.simps)

lemma create_loop_result: "snd (snd (snd (create_loop ok create_r num tnum))) \<in> {ok, FAILURE}"
proof (induction ok create_r num tnum rule: create_loop.induct)
  case (1 ok create_r num tnum)
  show ?case
    by (subst create_loop.simps) (use 1 in \<open>auto simp: Let_def\<close>)
qed

lemma join_loop_ok:
  "(\<And>t. tnum \<le> t \<Longrightarrow> t < num \<Longrightarrow> join_r t = 0 \<and> value_r t = Some (v t)) \<Longrightarrow> tnum \<le> num \<Longrightarrow>
    join_loop ok join_r value_r num tnum = (map (\<lambda>t. joined_log t (v t)) [tnum..<num], 0, ok)"
proof (induction "num - tnum" arbitrary: tnum)
  case (Suc d)
  then have "tnum < num" by simp
  with Suc show ?case by (subst join_loop.simps) (simp add: upt_conv_Cons)
qed (simp add: join_loop.simps)

section \<open>task1\<close>

text \<open>\<open>entry\<close>: what thread \<open>tnum\<close> logs and returns; \<open>tid\<close> is what it reads as its id.\<close>

definition entry1 :: "nat \<Rightarrow> int \<Rightarrow> bool \<Rightarrow> log_call list \<times> string option" where
  "entry1 tnum tid malloc_ok =
     ([log_info ''Thread %d is running... with tid %ld'' [ArgI (int tnum), ArgI tid]],
      if malloc_ok then Some (''Thread '' @ show_nat tnum @ '' end'') else None)"

record thread_answers =
  dumpcore :: "string option"
  malloc_r :: "nat \<Rightarrow> bool"
  create_r :: "nat \<Rightarrow> nat \<Rightarrow> int"    \<comment> \<open>for the first and the second group of threads\<close>
  join_r :: "nat \<Rightarrow> nat \<Rightarrow> int"
  value_r :: "nat \<Rightarrow> nat \<Rightarrow> string option"

definition create_threads1 :: "u32 \<Rightarrow> thread_answers \<Rightarrow> log_call list \<times> nat \<times> int \<times> u32" where
  "create_threads1 ok a = create_loop ok (create_r a 0) 2 0"

definition join_threads1 :: "u32 \<Rightarrow> thread_answers \<Rightarrow> log_call list \<times> int \<times> u32" where
  "join_threads1 ok a = join_loop ok (join_r a 0) (value_r a 0) 2 0"

definition main1 :: "u32 \<Rightarrow> thread_answers \<Rightarrow> log_call list \<times> outcome" where
  "main1 ok a =
     (if \<not> malloc_r a 0
      then ([log_error ''malloc failure'' []], Ends (terminate (dumpcore a) EXIT_FAILURE True))
      else
        let (l1, _, _, r) = create_threads1 ok a
        in if r = FAILURE then (l1, Ends (terminate (dumpcore a) EXIT_FAILURE True))
           else
             let (l2, _, r) = join_threads1 ok a
             in if r = FAILURE then (l1 @ l2, Ends (terminate (dumpcore a) EXIT_FAILURE True))
                else (l1 @ l2 @ [log_info ''All threads done'' []], Returns 0))"

section \<open>task2\<close>

text \<open>Its \<open>join_threads\<close> does not look at the values, and its \<open>create_mutex\<close> does nothing.\<close>

definition create_threads2 :: "u32 \<Rightarrow> thread_answers \<Rightarrow> nat \<Rightarrow> log_call list \<times> nat \<times> int \<times> u32" where
  "create_threads2 ok a num = create_loop ok (create_r a 0) num 0"

definition join_threads2 :: "u32 \<Rightarrow> thread_answers \<Rightarrow> nat \<Rightarrow> log_call list \<times> int \<times> u32" where
  "join_threads2 ok a num = join_loop ok (join_r a 0) (\<lambda>_. None) num 0"

definition create_mutex :: "u32 \<Rightarrow> u32" where
  "create_mutex ok = ok"

text \<open>\<open>final\<close> is the value of \<open>shared_counter\<close> once the threads are joined.\<close>

definition main2 :: "u32 \<Rightarrow> thread_answers \<Rightarrow> u32 \<Rightarrow> log_call list \<times> nat \<times> outcome" where
  "main2 ok a final =
     (if \<not> malloc_r a 0
      then ([log_error ''malloc failure'' []], 0, Ends (terminate (dumpcore a) EXIT_FAILURE True))
      else if create_mutex ok = FAILURE then ([], 0, Ends (terminate (dumpcore a) EXIT_FAILURE True))
      else
        let (l1, n, _, r) = create_threads2 ok a 3
        in if r = FAILURE then (l1, n, Ends (terminate (dumpcore a) EXIT_FAILURE True))
           else
             let (l2, _, r) = join_threads2 ok a 3
             in if r = FAILURE then (l1 @ l2, n, Ends (terminate (dumpcore a) EXIT_FAILURE True))
                else (l1 @ l2 @ [log_info ''Final value of shared_counter: %u'' [ArgI (uint final)]],
                      n, Returns 0))"

section \<open>task4\<close>

definition create_threads4 :: "u32 \<Rightarrow> thread_answers \<Rightarrow> nat \<Rightarrow> nat \<Rightarrow> log_call list \<times> nat \<times> int \<times> u32" where
  "create_threads4 ok a grp num = create_loop ok (create_r a grp) num 0"

definition join_threads4 :: "u32 \<Rightarrow> thread_answers \<Rightarrow> nat \<Rightarrow> nat \<Rightarrow> log_call list \<times> int \<times> u32" where
  "join_threads4 ok a grp num = join_loop ok (join_r a grp) (value_r a grp) num 0"

text \<open>Group 0 are the five readers, group 1 the two writers.\<close>

definition main4 :: "u32 \<Rightarrow> thread_answers \<Rightarrow> log_call list \<times> outcome" where
  "main4 ok a =
     (let fail = Ends (terminate (dumpcore a) EXIT_FAILURE True)
      in if \<not> malloc_r a 0 \<or> \<not> malloc_r a 1 then ([log_error ''malloc failure'' []], fail)
      else
        let (l1, _, _, r1) = create_threads4 ok a 0 5
        in if r1 = FAILURE then (l1, fail)
        else
          let (l2, _, _, r2) = create_threads4 ok a 1 2
          in if r2 = FAILURE then (l1 @ l2, fail)
          else
            let (l3, _, r3) = join_threads4 ok a 0 5
            in if r3 = FAILURE then (l1 @ l2 @ l3, fail)
            else
              let (l4, _, r4) = join_threads4 ok a 1 2
              in if r4 = FAILURE then (l1 @ l2 @ l3 @ l4, fail)
                 else (l1 @ l2 @ l3 @ l4 @ [log_info ''All threads done'' []], Returns 0))"

section \<open>What the main threads do\<close>

text \<open>
  C23: As compiled, with \<open>SUCCESS\<close> equal to \<open>FAILURE\<close>, the three programs always end with
  \<open>terminate(EXIT_FAILURE, true)\<close>, whatever the pthread calls return: they never join, and
  the second one never creates a thread.
\<close>

theorem thread_mains_always_fail:
  "snd (main1 SUCCESS a) = Ends (terminate (dumpcore a) EXIT_FAILURE True) \<and>
   (\<exists>l. main2 SUCCESS a final = (l, 0, Ends (terminate (dumpcore a) EXIT_FAILURE True))) \<and>
   snd (main4 SUCCESS a) = Ends (terminate (dumpcore a) EXIT_FAILURE True)"
proof -
  have ok: "SUCCESS = FAILURE" by (simp add: SUCCESS_def FAILURE_def)
  have "snd (snd (snd (create_loop FAILURE r num t))) = FAILURE" for r num t
    using create_loop_result [of FAILURE r num t] by simp
  then have "snd (main1 FAILURE a) = Ends (terminate (dumpcore a) EXIT_FAILURE True)"
      "snd (main4 FAILURE a) = Ends (terminate (dumpcore a) EXIT_FAILURE True)"
    by (simp_all add: main1_def main4_def create_threads1_def create_threads4_def Let_def split_beta)
  moreover have "\<exists>l. main2 FAILURE a final = (l, 0, Ends (terminate (dumpcore a) EXIT_FAILURE True))"
    by (simp add: main2_def create_mutex_def)
  ultimately show ?thesis unfolding ok by blast
qed

text \<open>
  With \<open>SUCCESS\<close> as \<open>cmnbase.h\<close> means it, the first program joins both threads in order,
  prints what each returned and returns 0, when no call fails.
\<close>

theorem main1_intended:
  assumes "\<forall>i. malloc_r a i" and "\<forall>t. create_r a 0 t = 0" and "\<forall>t. join_r a 0 t = 0"
    and "\<forall>t. value_r a 0 t = snd (entry1 t (tid t) True)"
  shows "main1 cmnbase_SUCCESS a =
    ([joined_log 0 ''Thread 0 end'', joined_log 1 ''Thread 1 end'', log_info ''All threads done'' []],
     Returns 0)"
proof -
  have "create_threads1 cmnbase_SUCCESS a = ([], 2, 0, cmnbase_SUCCESS)"
    unfolding create_threads1_def using assms(2) by (intro create_loop_ok) auto
  moreover have "join_threads1 cmnbase_SUCCESS a =
      (map (\<lambda>t. joined_log t (''Thread '' @ show_nat t @ '' end'')) [0..<2], 0, cmnbase_SUCCESS)"
    unfolding join_threads1_def using assms(3,4) by (intro join_loop_ok) (auto simp: entry1_def)
  moreover have "cmnbase_SUCCESS \<noteq> FAILURE" by (simp add: cmnbase_SUCCESS_def FAILURE_def)
  moreover have "show_nat 0 = ''0''" "show_nat 1 = ''1''"
    by (subst show_nat.simps, simp)+
  ultimately show ?thesis
    using assms(1) by (simp add: main1_def upt_rec)
qed

theorem main1_intended_witness:
  "snd (main1 cmnbase_SUCCESS
      \<lparr>dumpcore = None, malloc_r = \<lambda>_. True, create_r = \<lambda>_ _. 0, join_r = \<lambda>_ _. 0,
       value_r = \<lambda>_ t. snd (entry1 t 5 True)\<rparr>) = Returns 0"
  by (subst main1_intended [of _ "\<lambda>_. 5"]) simp_all

section \<open>task3\<close>

text \<open>
  \<open>main\<close> of \<open>task3\<close> goes on after a failing \<open>pthread_create\<close>, and then joins a handle nobody
  has set: \<open>None\<close>. Thread 0 is the customer, thread 1 the producer.
\<close>

definition main3 :: "thread_answers \<Rightarrow> (log_call list \<times> outcome) option" where
  "main3 a =
     (let l1 = (if create_r a 0 0 \<noteq> 0 then [log_error_ne ''pthread_create failure'' []] else []);
          l2 = (if create_r a 0 1 \<noteq> 0 then [log_error_ne ''pthread_create failure'' []] else [])
      in if create_r a 0 1 \<noteq> 0 then None
         else
           let l3 = (if join_r a 0 1 \<noteq> 0 then [log_error_ne ''pthread_join failure'' []] else [])
           in if create_r a 0 0 \<noteq> 0 then None
              else
                let l4 = (if join_r a 0 0 \<noteq> 0 then [log_error_ne ''pthread_join failure'' []] else [])
                in Some (l1 @ l2 @ l3 @ l4, Returns 0))"

text \<open>
  The main of the producer and customer returns 0 whatever \<open>pthread_join\<close> says, with one
  logged line for each failing join; but if a thread could not be created it goes on to join
  an indeterminate handle.
\<close>

theorem main3_result:
  "main3 a = (if create_r a 0 0 = 0 \<and> create_r a 0 1 = 0
    then Some (replicate ((if join_r a 0 0 = 0 then 0 else 1) + (if join_r a 0 1 = 0 then 0 else 1))
                 (log_error_ne ''pthread_join failure'' []), Returns 0)
    else None)"
  by (simp add: main3_def numeral_2_eq_2)

end
