(* ===== verification/Counter.thy ===== *)
theory Counter
  imports Locks Log
begin

text \<open>
  The threads of \<open>4-Thread/task2.c\<close>: \<open>entry\<close> as a step function on each thread's program
  counter, interleaved. \<open>shared_counter++\<close> is a read and a write of their own, so that what
  the mutex gives is proved. The number of threads is a parameter; main starts three.
\<close>

section \<open>Threads\<close>

datatype tpc =
    Begin      \<comment> \<open>about to log that it runs\<close>
  | Test       \<comment> \<open>at the loop's condition\<close>
  | Acquire    \<comment> \<open>at \<open>pthread_mutex_lock\<close>\<close>
  | Load       \<comment> \<open>about to read \<open>shared_counter\<close>\<close>
  | Store      \<comment> \<open>about to write it\<close>
  | Release    \<comment> \<open>at \<open>pthread_mutex_unlock\<close>\<close>
  | Report     \<comment> \<open>about to log the counter\<close>
  | Over

record cstate =
  mutex :: mutex
  shared_counter :: u32
  tpcs :: "nat \<Rightarrow> tpc"
  idx :: "nat \<Rightarrow> u32"        \<comment> \<open>the loop variable of each thread\<close>
  reg :: "nat \<Rightarrow> u32"        \<comment> \<open>the value read by the increment in progress\<close>
  tlogs :: "log_call list"

definition at :: "nat \<Rightarrow> tpc \<Rightarrow> cstate \<Rightarrow> cstate" where
  "at t c s = s\<lparr>tpcs := (tpcs s)(t := c)\<rparr>"

text \<open>\<open>i < 1000000\<close>\<close>

definition LOOPS :: u32 where
  "LOOPS = 1000000"

definition entry_step :: "nat \<Rightarrow> int \<Rightarrow> cstate \<Rightarrow> cstate option" where
  "entry_step t tid s =
     (case tpcs s t of
        Begin \<Rightarrow>
          Some (at t Test (s\<lparr>idx := (idx s)(t := 0),
            tlogs := tlogs s @ [log_info ''Thread %d is running... with tid %ld'' [ArgI (int t), ArgI tid]]\<rparr>))
      | Test \<Rightarrow> Some (at t (if idx s t < LOOPS then Acquire else Report) s)
      | Acquire \<Rightarrow>
          (case mutex_lock (mutex s) of None \<Rightarrow> None | Some m \<Rightarrow> Some (at t Load (s\<lparr>mutex := m\<rparr>)))
      | Load \<Rightarrow> Some (at t Store (s\<lparr>reg := (reg s)(t := shared_counter s)\<rparr>))
      | Store \<Rightarrow> Some (at t Release (s\<lparr>shared_counter := reg s t + 1\<rparr>))
      | Release \<Rightarrow>
          Some (at t Test (s\<lparr>mutex := mutex_unlock (mutex s), idx := (idx s)(t := idx s t + 1)\<rparr>))
      | Report \<Rightarrow>
          Some (at t Over (s\<lparr>tlogs := tlogs s @ [log_info
            ''Thread %d finished execution, share_counter: %d''
            [ArgI (int t), ArgI (sint (shared_counter s))]]\<rparr>))
      | Over \<Rightarrow> None)"

inductive cstep :: "nat \<Rightarrow> cstate \<Rightarrow> cstate \<Rightarrow> bool" for n :: nat where
  thread: "t < n \<Longrightarrow> entry_step t tid s = Some s' \<Longrightarrow> cstep n s s'"

inductive_cases cstepE: "cstep n s s'"

definition cstart :: cstate where
  "cstart = \<lparr>mutex = Unlocked, shared_counter = 0, tpcs = (\<lambda>_. Begin), idx = (\<lambda>_. 0),
     reg = (\<lambda>_. 0), tlogs = []\<rparr>"

abbreviation counting :: "nat \<Rightarrow> cstate \<Rightarrow> bool" where
  "counting n \<equiv> reachable (\<lambda>s. s = cstart) (cstep n)"

section \<open>The invariant\<close>

text \<open>Inside the section: from the lock to the unlock.\<close>

definition inside :: "tpc \<Rightarrow> bool" where
  "inside c \<longleftrightarrow> c \<in> {Load, Store, Release}"

definition holders :: "nat \<Rightarrow> cstate \<Rightarrow> nat set" where
  "holders n s = {t. t < n \<and> inside (tpcs s t)}"

text \<open>The increments a thread has made.\<close>

definition incs :: "cstate \<Rightarrow> nat \<Rightarrow> nat" where
  "incs s t = unat (idx s t) + (if tpcs s t = Release then 1 else 0)"

definition tinv :: "cstate \<Rightarrow> nat \<Rightarrow> bool" where
  "tinv s t \<longleftrightarrow>
     (tpcs s t = Begin \<longrightarrow> idx s t = 0) \<and> idx s t \<le> LOOPS \<and>
     (inside (tpcs s t) \<or> tpcs s t = Acquire \<longrightarrow> idx s t < LOOPS) \<and>
     (tpcs s t \<in> {Report, Over} \<longrightarrow> idx s t = LOOPS) \<and>
     (tpcs s t = Store \<longrightarrow> reg s t = shared_counter s)"

definition cinv :: "nat \<Rightarrow> cstate \<Rightarrow> bool" where
  "cinv n s \<longleftrightarrow> mtx.agrees (mutex s) (holders n s) \<and> (\<forall>t < n. tinv s t) \<and>
     shared_counter s = word_of_nat (\<Sum>t < n. incs s t)"

lemma other_thread: "u \<noteq> t \<Longrightarrow> entry_step t tid s = Some s' \<Longrightarrow>
    tpcs s' u = tpcs s u \<and> idx s' u = idx s u \<and> reg s' u = reg s u"
  by (auto simp: entry_step_def at_def Let_def split: tpc.splits option.splits)

lemma counter_changes: "entry_step t tid s = Some s' \<Longrightarrow>
    shared_counter s' = (if tpcs s t = Store then reg s t + 1 else shared_counter s)"
  by (auto simp: entry_step_def at_def split: tpc.splits option.splits)

lemma incs_change:
  assumes "entry_step t tid s = Some s'" and "tinv s t"
  shows "incs s' t = incs s t + (if tpcs s t = Store then 1 else 0)"
  using assms unat_Suc_lt [of "idx s t" LOOPS]
  by (auto simp: entry_step_def at_def incs_def tinv_def inside_def split: tpc.splits option.splits if_splits)

lemma holders_change:
  assumes "entry_step t tid s = Some s'" and "t < n"
  shows "holders n s' = (if inside (tpcs s' t) then insert t (holders n s - {t}) else holders n s - {t})"
proof (rule set_eqI)
  fix u
  show "u \<in> holders n s' \<longleftrightarrow>
      u \<in> (if inside (tpcs s' t) then insert t (holders n s - {t}) else holders n s - {t})"
    using assms(2) other_thread [OF _ assms(1), of u] by (cases "u = t") (auto simp: holders_def)
qed

lemma agrees_step:
  assumes "entry_step t tid s = Some s'" and "t < n" and "mtx.agrees (mutex s) (holders n s)"
  shows "mtx.agrees (mutex s') (holders n s')"
proof -
  have "t \<in> holders n s \<longleftrightarrow> inside (tpcs s t)" using assms(2) by (simp add: holders_def)
  then show ?thesis
    using assms(1) mtx.agrees_acquire [OF assms(3), of _ t] mtx.agrees_release [OF assms(3), of t] assms(3)
    unfolding holders_change [OF assms(1,2)]
    by (auto simp: entry_step_def at_def inside_def insert_absorb split: tpc.splits option.splits if_splits)
qed

lemma tinv_step:
  assumes "entry_step t tid s = Some s'" and "t < n" and "cinv n s" and u: "u < n"
  shows "tinv s' u"
proof (cases "u = t")
  case True
  have "tinv s t" using assms(2,3) by (simp add: cinv_def)
  then show ?thesis
    using assms(1) unat_Suc_le [of "idx s t" LOOPS] True
    by (auto simp: entry_step_def at_def tinv_def inside_def order_le_less
      split: tpc.splits option.splits if_splits)
next
  case False
  have "tinv s u" using assms(3) u by (simp add: cinv_def)
  moreover have "tpcs s t = Store \<Longrightarrow> tpcs s u \<noteq> Store"
    using False assms(2,3) u mtx.agrees_exclusive [of "mutex s" "holders n s" t u]
    by (auto simp: cinv_def holders_def inside_def)
  ultimately show ?thesis
    using other_thread [OF False assms(1)] counter_changes [OF assms(1)] by (auto simp: tinv_def)
qed

lemma cinv_step:
  assumes "cinv n s" and "cstep n s s'"
  shows "cinv n s'"
  using assms(2)
proof cases
  case (thread t tid)
  have inv: "tinv s t" using assms(1) thread(1) by (simp add: cinv_def)
  have "(\<Sum>u < n. incs s' u) + incs s t = (\<Sum>u < n. incs s u) + incs s' t"
    using other_thread [OF _ thread(2)] by (intro sum_one_changed thread(1)) (auto simp: incs_def)
  then have "(\<Sum>u < n. incs s' u) = (\<Sum>u < n. incs s u) + (if tpcs s t = Store then 1 else 0)"
    using incs_change [OF thread(2) inv] by simp
  moreover have "shared_counter s' = shared_counter s + (if tpcs s t = Store then 1 else 0)"
    using counter_changes [OF thread(2)] inv by (auto simp: tinv_def)
  ultimately have "shared_counter s' = word_of_nat (\<Sum>u < n. incs s' u)"
    using assms(1) by (simp add: cinv_def)
  with agrees_step [OF thread(2,1)] tinv_step [OF thread(2,1) assms(1)] assms(1) show ?thesis
    by (simp add: cinv_def)
qed

interpretation counter: invariant_of "\<lambda>s. s = cstart" "cstep n" "cinv n"
proof
  show "cinv n s" if "s = cstart" for s
    using that by (auto simp: cinv_def tinv_def incs_def cstart_def inside_def holders_def LOOPS_def
        mtx.agrees_def mutex_free_def)
qed (rule cinv_step)

section \<open>Progress\<close>

text \<open>The steps a thread has left, if it never has to wait.\<close>

fun weight :: "tpc \<Rightarrow> nat" where
  "weight Begin = 6"
| "weight Test = 5"
| "weight Acquire = 4"
| "weight Load = 3"
| "weight Store = 2"
| "weight Release = 1"
| "weight Report = 4"
| "weight Over = 3"

definition left :: "cstate \<Rightarrow> nat \<Rightarrow> nat" where
  "left s t = 6 * (unat LOOPS - unat (idx s t)) + weight (tpcs s t)"

lemma left_decreases:
  assumes "entry_step t tid s = Some s'" and "tinv s t"
  shows "left s' t < left s t"
  using assms unat_Suc_lt [of "idx s t" LOOPS] unat_lt [of "idx s t" LOOPS]
  by (auto simp: entry_step_def at_def left_def tinv_def inside_def split: tpc.splits option.splits if_splits)

lemma work_decreases:
  assumes "cinv n s" and "cstep n s s'"
  shows "(\<Sum>t < n. left s' t) < (\<Sum>t < n. left s t)"
  using assms(2)
proof cases
  case (thread t tid)
  have "(\<Sum>u < n. left s' u) + left s t = (\<Sum>u < n. left s u) + left s' t"
    using other_thread [OF _ thread(2)] by (intro sum_one_changed thread(1)) (auto simp: left_def)
  moreover have "left s' t < left s t"
    using left_decreases [OF thread(2)] assms(1) thread(1) by (simp add: cinv_def)
  ultimately show ?thesis by simp
qed

lemma counting_wf: "wf {(s', s). counting n s \<and> cstep n s s'}"
  by (rule wf_subset [OF wf_measure [of "\<lambda>s. \<Sum>t < n. left s t"]])
    (auto intro!: work_decreases [OF counter.reachable_inv])

lemma entry_step_blocked: "entry_step t tid s = None \<Longrightarrow>
    tpcs s t = Over \<or> tpcs s t = Acquire \<and> mutex s = Locked"
  by (cases "mutex s") (auto simp: entry_step_def split: tpc.splits)

lemma counting_progress:
  assumes "counting n s" and "t < n" and "tpcs s t \<noteq> Over"
  shows "\<exists>s'. cstep n s s'"
proof (rule ccontr)
  assume stuck: "\<nexists>s'. cstep n s s'"
  then have none: "entry_step u 0 s = None" if "u < n" for u
    using that by (metis cstep.thread not_None_eq)
  have "mutex s = Locked" using entry_step_blocked [OF none [OF assms(2)]] assms(3) by blast
  then obtain u where "u < n" "inside (tpcs s u)"
    using counter.reachable_inv [OF assms(1)]
    by (auto simp: cinv_def mtx.agrees_def mutex_free_def holders_def)
  with entry_step_blocked [OF none, of u] show False by (auto simp: inside_def)
qed

lemma counting_ends: "\<exists>s. counting n s \<and> (\<forall>t < n. tpcs s t = Over)"
proof -
  have "\<exists>u. counting n u \<and> (\<forall>t < n. tpcs u t = Over)" if "counting n s" for s
    using counting_wf [of n] that
  proof (induction s rule: wf_induct_rule)
    case (less s)
    show ?case
    proof (cases "\<forall>t < n. tpcs s t = Over")
      case False
      then obtain s' where "cstep n s s'" using counting_progress [OF less.prems] by blast
      with less show ?thesis by (blast intro: reachable.reach_step)
    qed (use less.prems in blast)
  qed
  from this [OF reachable.reach_init] show ?thesis by simp
qed

section \<open>Specification: an atomic counter\<close>

text \<open>The counter and how often each thread has raised it, in one indivisible step each.\<close>

inductive tick :: "nat \<Rightarrow> u32 \<times> (nat \<Rightarrow> nat) \<Rightarrow> u32 \<times> (nat \<Rightarrow> nat) \<Rightarrow> bool" for n :: nat where
  raise: "t < n \<Longrightarrow> k t < 1000000 \<Longrightarrow> tick n (c, k) (c + 1, k(t := Suc (k t)))"

definition as_ticks :: "cstate \<Rightarrow> u32 \<times> (nat \<Rightarrow> nat)" where
  "as_ticks s = (shared_counter s, incs s)"

lemma entry_step_ticks:
  assumes "cinv n s" and "t < n" and "entry_step t tid s = Some s'"
  shows "as_ticks s' = as_ticks s \<or> tick n (as_ticks s) (as_ticks s')"
proof -
  have inv: "tinv s t" using assms(1,2) by (simp add: cinv_def)
  have eq: "incs s' = (incs s)(t := incs s t + (if tpcs s t = Store then 1 else 0))"
    using incs_change [OF assms(3) inv] other_thread [OF _ assms(3)] by (auto simp: incs_def)
  have cnt: "shared_counter s' = shared_counter s + (if tpcs s t = Store then 1 else 0)"
    using counter_changes [OF assms(3)] inv by (auto simp: tinv_def)
  show ?thesis
  proof (cases "tpcs s t = Store")
    case True
    then have "incs s t < 1000000"
      using inv unat_lt [of "idx s t" LOOPS] by (simp add: tinv_def inside_def incs_def LOOPS_def)
    from tick.raise [where k = "incs s", OF assms(2) this] True eq cnt show ?thesis
      by (simp add: as_ticks_def)
  qed (use eq cnt in \<open>simp add: as_ticks_def\<close>)
qed

interpretation ticking: refines "\<lambda>s. s = cstart" "cstep n" "\<lambda>a. a = (0, \<lambda>_. 0)" "tick n" as_ticks
proof
  show "as_ticks s = (0, \<lambda>_. 0)" if "s = cstart" for s
    using that by (auto simp: as_ticks_def cstart_def incs_def)
next
  fix s s'
  assume s: "counting n s" and "cstep n s s'"
  from this(2) show "as_ticks s' = as_ticks s \<or> tick n (as_ticks s) (as_ticks s')"
    by cases (use entry_step_ticks [OF counter.reachable_inv [OF s]] in blast)
qed

section \<open>Properties\<close>

text \<open>
  C10: The threads implement an atomic counter: through the counter and the increments made,
  every interleaving of their reads, writes and lock operations is a sequence of indivisible
  increments, at most 1000000 by each thread.
\<close>

theorem counter_refines_atomic:
  assumes "counting n s"
  shows "reachable (\<lambda>a. a = (0, \<lambda>_. 0)) (tick n) (shared_counter s, incs s)"
  using ticking.abs_reachable [OF assms] by (simp add: as_ticks_def)

theorem counter_refines_atomic_witness:
  "\<exists>s. counting 3 s \<and> (\<forall>t < 3. tpcs s t = Over) \<and>
     reachable (\<lambda>a. a = (0, \<lambda>_. 0)) (tick 3) (shared_counter s, incs s)"
  using counting_ends [of 3] counter_refines_atomic [of 3] by blast

text \<open>
  C9: No increment is lost: when \<open>n\<close> threads have finished, in whatever order the scheduler
  ran them, the counter is \<open>n\<close> times 1000000, modulo \<open>2 ^ 32\<close>; with the three threads of
  the program it is 3000000.
\<close>

theorem counter_total:
  assumes "counting n s" and "\<forall>t < n. tpcs s t = Over"
  shows "shared_counter s = word_of_nat (n * 1000000)"
proof -
  have inv: "cinv n s" by (rule counter.reachable_inv [OF assms(1)])
  have "(\<Sum>t < n. incs s t) = (\<Sum>t < n. 1000000)"
    using inv assms(2) by (intro sum.cong) (auto simp: cinv_def tinv_def incs_def LOOPS_def)
  with inv show ?thesis by (simp add: cinv_def)
qed

theorem counter_total_witness:
  "\<exists>s. counting 3 s \<and> (\<forall>t < 3. tpcs s t = Over) \<and> shared_counter s = 3000000"
  using counting_ends [of 3] counter_total [of 3] by auto

text \<open>
  At most one thread is between locking and unlocking, and while one is, the mutex is
  locked: reading and writing the counter is one step for the others.
\<close>

theorem counter_exclusive:
  assumes "counting n s" and "t < n" "u < n" and "inside (tpcs s t)" "inside (tpcs s u)"
  shows "t = u \<and> mutex s = Locked"
proof -
  have "mtx.agrees (mutex s) (holders n s)"
    using counter.reachable_inv [OF assms(1)] by (simp add: cinv_def)
  moreover have "t \<in> holders n s" "u \<in> holders n s" using assms by (simp_all add: holders_def)
  ultimately show ?thesis
    using mtx.agrees_exclusive [of "mutex s" "holders n s" t u]
    by (auto simp: mtx.agrees_def mutex_free_def mutex_taken_def)
qed

theorem counter_exclusive_witness:
  "\<exists>s. counting 3 s \<and> inside (tpcs s 2) \<and> mutex s = Locked"
proof -
  let ?log = "log_info ''Thread %d is running... with tid %ld'' [ArgI 2, ArgI 9]"
  let ?s1 = "at 2 Test (cstart\<lparr>idx := (\<lambda>_. 0)(2 := 0), tlogs := [?log]\<rparr>)"
  let ?s2 = "at 2 Acquire ?s1"
  let ?s3 = "at 2 Load (?s2\<lparr>mutex := Locked\<rparr>)"
  have "entry_step 2 9 cstart = Some ?s1" "entry_step 2 9 ?s1 = Some ?s2" "entry_step 2 9 ?s2 = Some ?s3"
    by (simp_all add: entry_step_def at_def cstart_def LOOPS_def)
  then have "cstep 3 cstart ?s1" "cstep 3 ?s1 ?s2" "cstep 3 ?s2 ?s3"
    by (auto intro!: cstep.thread [of 2 3 9])
  moreover have "counting 3 cstart" by (rule reachable.reach_init) simp
  ultimately have "counting 3 ?s3" by (blast intro: reachable.reach_step)
  moreover have "inside (tpcs ?s3 2)" by (simp add: at_def inside_def)
  ultimately show ?thesis using counter_exclusive [of 3 ?s3 2 2] by (intro exI [of _ ?s3]) simp
qed

text \<open>
  C11: Every run of the threads is finite, and none gets stuck: a state in which no thread can
  step is one where all have returned.
\<close>

theorem counter_runs_end:
  "wf {(s', s). counting n s \<and> cstep n s s'} \<and>
   (counting n s \<and> \<not> (\<forall>t < n. tpcs s t = Over) \<longrightarrow> (\<exists>s'. cstep n s s'))"
  using counting_wf counting_progress by blast

theorem counter_runs_end_witness: "\<exists>s'. cstep 3 cstart s'"
proof -
  have "counting 3 cstart" by (rule reachable.reach_init) simp
  moreover have "tpcs cstart 0 \<noteq> Over" by (simp add: cstart_def)
  ultimately show ?thesis using counter_runs_end [of 3 cstart] by (metis zero_less_numeral)
qed

end
