(* ===== verification/CondVar.thy ===== *)
theory CondVar
  imports Locks Log ErrorHandler "HOL-Library.Sublist"
begin

text \<open>
  \<open>4-Thread/task3.c\<close>: a producer hands ten values to a customer through one variable, a flag,
  a mutex and a condition variable. The two threads are interleaved at every access; a signal
  with nobody waiting is lost and a wait may end spuriously, as POSIX documents. \<open>produced\<close>
  and \<open>consumed\<close> record what was written and what was printed; no step reads them.
\<close>

section \<open>Threads\<close>

datatype ppc = PTest | PLock | PData | PReady | PSignal | PUnlock | POver

datatype cpc = CTest | CLock | CCheck | CWaiting | CRelock | CPrint | CReset | CUnlock | COver

record cvstate =
  mutex :: mutex
  data :: u32
  data_ready :: bool
  ppc :: ppc
  pi :: u32
  cpc :: cpc
  ci :: u32
  cvlogs :: "log_call list"
  produced :: "u32 list"
  consumed :: "u32 list"

text \<open>The value of \<open>rand()\<close> is the argument.\<close>

definition producer :: "u32 \<Rightarrow> cvstate \<Rightarrow> cvstate option" where
  "producer rand s =
     (case ppc s of
        PTest \<Rightarrow> Some (s\<lparr>ppc := if pi s < 10 then PLock else POver\<rparr>)
      | PLock \<Rightarrow>
          (case mutex_lock (mutex s) of None \<Rightarrow> None | Some m \<Rightarrow> Some (s\<lparr>mutex := m, ppc := PData\<rparr>))
      | PData \<Rightarrow>
          (let d = rand mod 100
           in Some (s\<lparr>data := d, ppc := PReady, produced := produced s @ [d],
                cvlogs := cvlogs s @ [log_info ''Producer modify data... %d'' [ArgI (sint d)]]\<rparr>))
      | PReady \<Rightarrow> Some (s\<lparr>data_ready := True, ppc := PSignal\<rparr>)
      | PSignal \<Rightarrow> Some (s\<lparr>cpc := if cpc s = CWaiting then CRelock else cpc s, ppc := PUnlock\<rparr>)
      | PUnlock \<Rightarrow> Some (s\<lparr>mutex := mutex_unlock (mutex s), pi := pi s + 1, ppc := PTest\<rparr>)
      | POver \<Rightarrow> None)"

definition customer :: "cvstate \<Rightarrow> cvstate option" where
  "customer s =
     (case cpc s of
        CTest \<Rightarrow>
          Some (if ci s < 10
                then s\<lparr>cpc := CLock, cvlogs := cvlogs s @ [log_info ''Customer is waiting data...'' []]\<rparr>
                else s\<lparr>cpc := COver\<rparr>)
      | CLock \<Rightarrow>
          (case mutex_lock (mutex s) of None \<Rightarrow> None | Some m \<Rightarrow> Some (s\<lparr>mutex := m, cpc := CCheck\<rparr>))
      | CCheck \<Rightarrow>
          Some (if \<not> data_ready s then s\<lparr>mutex := mutex_unlock (mutex s), cpc := CWaiting\<rparr>
                else s\<lparr>cpc := CPrint\<rparr>)
      | CWaiting \<Rightarrow> None
      | CRelock \<Rightarrow>
          (case mutex_lock (mutex s) of None \<Rightarrow> None | Some m \<Rightarrow> Some (s\<lparr>mutex := m, cpc := CCheck\<rparr>))
      | CPrint \<Rightarrow>
          Some (s\<lparr>cpc := CReset, consumed := consumed s @ [data s],
            cvlogs := cvlogs s @ [log_info ''Data: %d'' [ArgI (sint (data s))]]\<rparr>)
      | CReset \<Rightarrow> Some (s\<lparr>data_ready := False, cpc := CUnlock\<rparr>)
      | CUnlock \<Rightarrow> Some (s\<lparr>mutex := mutex_unlock (mutex s), ci := ci s + 1, cpc := CTest\<rparr>)
      | COver \<Rightarrow> None)"

inductive cvstep :: "cvstate \<Rightarrow> cvstate \<Rightarrow> bool" where
  produce: "producer rand s = Some s' \<Longrightarrow> cvstep s s'"
| consume: "customer s = Some s' \<Longrightarrow> cvstep s s'"
| spurious: "cpc s = CWaiting \<Longrightarrow> cvstep s (s\<lparr>cpc := CRelock\<rparr>)"

definition cvstart :: cvstate where
  "cvstart = \<lparr>mutex = Unlocked, data = 0, data_ready = False, ppc = PTest, pi = 0, cpc = CTest,
     ci = 0, cvlogs = [], produced = [], consumed = []\<rparr>"

abbreviation handing :: "cvstate \<Rightarrow> bool" where
  "handing \<equiv> reachable (\<lambda>s. s = cvstart) cvstep"

section \<open>The invariant\<close>

datatype thread = Producer | Customer

text \<open>Where a thread holds the mutex, and where its current round has produced or printed.\<close>

fun psec :: "ppc \<Rightarrow> bool" where
  "psec PTest = False" | "psec PLock = False" | "psec PData = True" | "psec PReady = True"
| "psec PSignal = True" | "psec PUnlock = True" | "psec POver = False"

fun csec :: "cpc \<Rightarrow> bool" where
  "csec CTest = False" | "csec CLock = False" | "csec CCheck = True" | "csec CWaiting = False"
| "csec CRelock = False" | "csec CPrint = True" | "csec CReset = True" | "csec CUnlock = True"
| "csec COver = False"

fun made :: "ppc \<Rightarrow> nat" where
  "made PReady = 1" | "made PSignal = 1" | "made PUnlock = 1" | "made _ = 0"

fun printed :: "cpc \<Rightarrow> nat" where
  "printed CReset = 1" | "printed CUnlock = 1" | "printed _ = 0"

definition in_section :: "cvstate \<Rightarrow> thread set" where
  "in_section s = {t. case t of Producer \<Rightarrow> psec (ppc s) | Customer \<Rightarrow> csec (cpc s)}"

text \<open>The last value is not yet printed.\<close>

definition fresh :: "cvstate \<Rightarrow> bool" where
  "fresh s \<longleftrightarrow> data_ready s \<and> cpc s \<noteq> CReset \<or> ppc s = PReady"

text \<open>A loop variable agrees with its place in the loop.\<close>

definition loop_ok :: "bool \<Rightarrow> bool \<Rightarrow> u32 \<Rightarrow> bool" where
  "loop_ok at_test over i \<longleftrightarrow> i \<le> 10 \<and> (at_test \<or> over \<or> i < 10) \<and> (over \<longrightarrow> i = 10)"

definition cvcounts :: "cvstate \<Rightarrow> bool" where
  "cvcounts s \<longleftrightarrow>
     length (produced s) = unat (pi s) + made (ppc s) \<and>
     length (consumed s) = unat (ci s) + printed (cpc s) \<and>
     loop_ok (ppc s = PTest) (ppc s = POver) (pi s) \<and> loop_ok (cpc s = CTest) (cpc s = COver) (ci s)"

definition cvhist :: "cvstate \<Rightarrow> bool" where
  "cvhist s \<longleftrightarrow>
     (fresh s \<longrightarrow> produced s \<noteq> [] \<and> data s = last (produced s) \<and>
        subseq (consumed s) (butlast (produced s))) \<and>
     subseq (consumed s) (produced s) \<and> (cpc s = CPrint \<longrightarrow> data_ready s)"

definition cvinv :: "cvstate \<Rightarrow> bool" where
  "cvinv s \<longleftrightarrow> mtx.agrees (mutex s) (in_section s) \<and> cvcounts s \<and> cvhist s"

lemma all_thread: "(\<forall>x. P x) \<longleftrightarrow> P Producer \<and> P Customer"
  by (metis thread.exhaust)

lemma ex_thread: "(\<exists>x. P x) \<longleftrightarrow> P Producer \<or> P Customer"
  by (metis thread.exhaust)

lemma agrees_two:
  "mtx.agrees m H \<longleftrightarrow> (m = Unlocked \<and> Producer \<notin> H \<and> Customer \<notin> H) \<or>
     (m = Locked \<and> (Producer \<in> H \<longleftrightarrow> Customer \<notin> H))"
proof -
  have "H = {} \<longleftrightarrow> Producer \<notin> H \<and> Customer \<notin> H"
      "H = {Producer} \<longleftrightarrow> Producer \<in> H \<and> Customer \<notin> H"
      "H = {Customer} \<longleftrightarrow> Producer \<notin> H \<and> Customer \<in> H"
    unfolding set_eq_iff all_thread by simp_all
  then show ?thesis
    unfolding mtx.agrees_def mutex_free_def mutex_taken_def ex_thread by (cases m) blast+
qed

lemma subseq_last: "ys \<noteq> [] \<Longrightarrow> subseq xs (butlast ys) \<Longrightarrow> subseq (xs @ [last ys]) ys"
  by (cases ys rule: rev_cases) (auto intro: list_emb_append_mono)

lemmas thread_defs = producer_def customer_def Let_def

lemma agrees_pcs:
  "mtx.agrees m (in_section s) \<longleftrightarrow>
    (case m of Unlocked \<Rightarrow> \<not> psec (ppc s) \<and> \<not> csec (cpc s)
     | Locked \<Rightarrow> psec (ppc s) = (\<not> csec (cpc s)))"
  by (cases m) (simp_all add: agrees_two in_section_def)

lemma loop_ok_next: "loop_ok False False i \<Longrightarrow> loop_ok True False (i + 1) \<and> unat (i + 1) = Suc (unat i)"
  using unat_Suc_lt [of i 10] unat_Suc_le [of i 10] by (simp add: loop_ok_def)

lemma loop_ok_test: "loop_ok True False i \<Longrightarrow> (i < 10 \<longrightarrow> loop_ok False False i) \<and> (\<not> i < 10 \<longrightarrow> loop_ok False True i)"
  by (auto simp: loop_ok_def order_le_less)

lemma agrees_producer:
  assumes "mtx.agrees (mutex s) (in_section s)" "producer r s = Some s'"
  shows "mtx.agrees (mutex s') (in_section s')"
  using assms unfolding agrees_pcs
  by (cases "mutex s"; cases "ppc s") (auto simp: thread_defs)

lemma agrees_customer:
  assumes "mtx.agrees (mutex s) (in_section s)" "customer s = Some s'"
  shows "mtx.agrees (mutex s') (in_section s')"
  using assms unfolding agrees_pcs
  by (cases "mutex s"; cases "cpc s") (auto simp: thread_defs split: if_splits)

lemma counts_producer:
  assumes "cvcounts s" "producer r s = Some s'"
  shows "cvcounts s'"
  using assms loop_ok_next [of "pi s"] loop_ok_test [of "pi s"]
  by (cases "ppc s"; cases "cpc s") (auto simp: thread_defs cvcounts_def split: option.splits if_splits)

lemma counts_customer:
  assumes "cvcounts s" "customer s = Some s'"
  shows "cvcounts s'"
  using assms loop_ok_next [of "ci s"] loop_ok_test [of "ci s"]
  by (cases "cpc s") (auto simp: thread_defs cvcounts_def split: option.splits if_splits)

lemma hist_producer:
  assumes "cvhist s" "mtx.agrees (mutex s) (in_section s)" "producer r s = Some s'"
  shows "cvhist s'"
proof (cases "ppc s")
  case PData
  have "subseq (consumed s) (produced s @ [d])" for d
    using assms(1) by (simp add: cvhist_def subseq_rev_drop_many)
  then show ?thesis using PData assms(1,3) by (auto simp: thread_defs cvhist_def fresh_def)
next
  case PReady
  then show ?thesis using assms(1,3) by (auto simp: thread_defs cvhist_def fresh_def)
next
  case PSignal
  have "cpc s \<noteq> CReset" using PSignal assms(2) by (cases "mutex s") (auto simp: agrees_pcs)
  then show ?thesis using PSignal assms(1,3) by (auto simp: thread_defs cvhist_def fresh_def split: if_splits)
next
  case PLock
  then show ?thesis using assms(1,3) by (cases "mutex s") (auto simp: thread_defs cvhist_def fresh_def)
qed (use assms(1,3) in \<open>auto simp: thread_defs cvhist_def fresh_def split: if_splits\<close>)

lemma hist_customer:
  assumes "cvhist s" "mtx.agrees (mutex s) (in_section s)" "customer s = Some s'"
  shows "cvhist s'"
proof (cases "cpc s = CPrint")
  case True
  then have "fresh s" using assms(1) by (simp add: cvhist_def fresh_def)
  then have "subseq (consumed s @ [data s]) (produced s)"
    using assms(1) subseq_last [of "produced s" "consumed s"] by (simp add: cvhist_def)
  moreover have "ppc s \<noteq> PReady"
    using assms(2) True by (cases "mutex s") (auto simp: agrees_pcs)
  ultimately show ?thesis using True assms(3) by (auto simp: thread_defs cvhist_def fresh_def)
next
  case False
  then show ?thesis
    using assms unfolding agrees_pcs
    by (cases "mutex s"; cases "cpc s") (auto simp: thread_defs cvhist_def fresh_def split: if_splits)
qed

lemma cvinv_step: "cvinv s \<Longrightarrow> cvstep s s' \<Longrightarrow> cvinv s'"
proof (erule cvstep.cases)
  show "cvinv s'" if "cvinv s" "s = u" "s' = u\<lparr>cpc := CRelock\<rparr>" "cpc u = CWaiting" for u
    using that by (auto simp: cvinv_def agrees_pcs cvcounts_def cvhist_def fresh_def split: mutex.splits)
qed (auto simp: cvinv_def intro: agrees_producer counts_producer hist_producer
  agrees_customer counts_customer hist_customer)

interpretation hand: invariant_of "\<lambda>s. s = cvstart" cvstep cvinv
proof
  show "cvinv s" if "s = cvstart" for s
    using that by (simp add: cvinv_def agrees_pcs cvcounts_def cvhist_def fresh_def cvstart_def loop_ok_def)
qed (rule cvinv_step)

section \<open>After the producer's last round\<close>

text \<open>How many values the customer can still count on: those printed and the one at hand.\<close>

definition prospect :: "cvstate \<Rightarrow> nat" where
  "prospect s = length (consumed s) + (if data_ready s \<and> cpc s \<noteq> CReset then 1 else 0)"

lemma prospect_customer: "cvhist s \<Longrightarrow> customer s = Some s' \<Longrightarrow> prospect s' \<le> prospect s \<and> ppc s' = ppc s"
  by (cases "cpc s") (auto simp: customer_def prospect_def cvhist_def split: option.splits if_splits)

lemma prospect_step:
  assumes "cvhist s" "ppc s = POver" "cvstep s s'"
  shows "prospect s' \<le> prospect s \<and> ppc s' = POver"
  using assms(3)
proof cases
  case (produce rand)
  with assms(2) show ?thesis by (simp add: producer_def)
next
  case consume
  with assms(1,2) prospect_customer show ?thesis by fastforce
next
  case spurious
  with assms(2) show ?thesis by (simp add: prospect_def)
qed

lemma prospect_reachable:
  assumes "reachable (\<lambda>u. u = s) cvstep t" and "handing s" and "ppc s = POver"
  shows "prospect t \<le> prospect s \<and> ppc t = POver"
  using assms(1)
proof (induction rule: reachable.induct)
  case (reach_step u v)
  have "cvhist u"
    using hand.reachable_inv [OF reachable_trans [OF reach_step(1) assms(2)]] by (simp add: cvinv_def)
  from prospect_step [OF this _ reach_step(2)] reach_step.IH show ?case by auto
qed (use assms(3) in simp)

text \<open>Rounds of the producer while the customer is not scheduled.\<close>

definition undisturbed :: "u32 \<Rightarrow> cvstate \<Rightarrow> bool" where
  "undisturbed i s \<longleftrightarrow> handing s \<and> mutex s = Unlocked \<and> ppc s = PTest \<and> pi s = i \<and> cpc s = CTest \<and>
     consumed s = []"

lemma produce_step: "handing s \<Longrightarrow> producer 0 s = Some s' \<Longrightarrow> handing s'"
  by (blast intro: reachable.reach_step cvstep.produce)

lemma consume_step: "handing s \<Longrightarrow> customer s = Some s' \<Longrightarrow> handing s'"
  by (blast intro: reachable.reach_step cvstep.consume)

lemma producer_round:
  assumes "undisturbed i s" and "i < 10"
  shows "\<exists>t. undisturbed (i + 1) t"
proof -
  let ?next = "\<lambda>s. the (producer 0 s)"
  have go: "handing u \<and> producer 0 u \<noteq> None \<Longrightarrow> handing (?next u)" for u
    using produce_step by auto
  let ?t = "?next (?next (?next (?next (?next (?next s)))))"
  note s = assms [unfolded undisturbed_def]
  have "handing ?t"
    by (intro go conjI) (use s in \<open>simp_all add: producer_def Let_def\<close>)
  then have "undisturbed (i + 1) ?t"
    using s by (simp add: undisturbed_def producer_def Let_def)
  then show ?thesis by blast
qed

lemma producer_rounds: "n \<le> 10 \<Longrightarrow> \<exists>s. undisturbed (word_of_nat n) s"
proof (induction n)
  case 0
  have "undisturbed 0 cvstart" by (simp add: undisturbed_def reachable.reach_init) (simp add: cvstart_def)
  then show ?case by auto
next
  case (Suc n)
  then obtain s where s: "undisturbed (word_of_nat n) s" by auto
  have "unat (word_of_nat n :: u32) = n" using Suc.prems by (intro unat_of_nat_lt [of _ 10]) simp
  then have "(word_of_nat n :: u32) < 10" using Suc.prems by (simp add: word_less_nat_alt)
  from producer_round [OF s this] show ?case by (simp add: add.commute)
qed

text \<open>Rounds in which producer and customer take turns.\<close>

definition in_turn :: "u32 \<Rightarrow> cvstate \<Rightarrow> bool" where
  "in_turn i s \<longleftrightarrow> handing s \<and> mutex s = Unlocked \<and> ppc s = PTest \<and> pi s = i \<and> cpc s = CTest \<and>
     ci s = i \<and> \<not> data_ready s"

lemma turn_round:
  assumes "in_turn i s" and "i < 10"
  shows "\<exists>t. in_turn (i + 1) t"
proof -
  let ?next = "\<lambda>s. the (producer 0 s)" and ?use = "\<lambda>s. the (customer s)"
  have go: "handing u \<and> producer 0 u \<noteq> None \<Longrightarrow> handing (?next u)"
      "handing u \<and> customer u \<noteq> None \<Longrightarrow> handing (?use u)" for u
    using produce_step [of u "?next u"] consume_step [of u "?use u"] by simp_all
  let ?m = "?next (?next (?next (?next (?next (?next s)))))"
  note s = assms [unfolded in_turn_def]
  have "handing ?m"
    by (intro go(1) conjI) (use s in \<open>simp_all add: producer_def Let_def\<close>)
  moreover have "mutex ?m = Unlocked \<and> ppc ?m = PTest \<and> pi ?m = i + 1 \<and> cpc ?m = CTest \<and> ci ?m = i \<and>
      data_ready ?m"
    using s by (simp add: producer_def Let_def)
  ultimately obtain m where m: "handing m" "mutex m = Unlocked" "ppc m = PTest" "pi m = i + 1"
      "cpc m = CTest" "ci m = i" "data_ready m" by blast
  let ?t = "?use (?use (?use (?use (?use (?use m)))))"
  have "handing ?t"
    by (intro go(2) conjI) (use m s in \<open>simp_all add: customer_def\<close>)
  then have "in_turn (i + 1) ?t"
    using m s by (simp add: in_turn_def customer_def)
  then show ?thesis by blast
qed

lemma turn_rounds: "n \<le> 10 \<Longrightarrow> \<exists>s. in_turn (word_of_nat n) s"
proof (induction n)
  case 0
  have "in_turn 0 cvstart" by (simp add: in_turn_def reachable.reach_init) (simp add: cvstart_def)
  then show ?case by auto
next
  case (Suc n)
  then obtain s where s: "in_turn (word_of_nat n) s" by auto
  have "unat (word_of_nat n :: u32) = n" using Suc.prems by (intro unat_of_nat_lt [of _ 10]) simp
  then have "(word_of_nat n :: u32) < 10" using Suc.prems by (simp add: word_less_nat_alt)
  from turn_round [OF s this] show ?case by (simp add: add.commute)
qed

section \<open>Specification: a mailbox of one place\<close>

text \<open>A value put in replaces one that was not taken; a value is taken once.\<close>

record mailbox =
  slot :: "u32 option"
  sent :: "u32 list"
  taken :: "u32 list"

inductive mail :: "mailbox \<Rightarrow> mailbox \<Rightarrow> bool" where
  put: "length (sent m) < 10 \<Longrightarrow> v < 100 \<Longrightarrow> mail m (m\<lparr>slot := Some v, sent := sent m @ [v]\<rparr>)"
| take: "slot m = Some v \<Longrightarrow> mail m (m\<lparr>slot := None, taken := taken m @ [v]\<rparr>)"

definition empty_mailbox :: mailbox where
  "empty_mailbox = \<lparr>slot = None, sent = [], taken = []\<rparr>"

definition as_mailbox :: "cvstate \<Rightarrow> mailbox" where
  "as_mailbox s = \<lparr>slot = if fresh s then Some (data s) else None, sent = produced s, taken = consumed s\<rparr>"

lemma producer_mail:
  assumes "cvinv s" and "producer r s = Some s'"
  shows "as_mailbox s' = as_mailbox s \<or> mail (as_mailbox s) (as_mailbox s')"
proof (cases "ppc s = PData")
  case True
  have "r mod 100 < 100" by (simp add: word_less_nat_alt unat_mod)
  moreover have "length (produced s) < 10"
    using assms(1) True unat_lt [of "pi s" 10] by (simp add: cvinv_def cvcounts_def loop_ok_def)
  ultimately have "mail (as_mailbox s)
      ((as_mailbox s)\<lparr>slot := Some (r mod 100), sent := sent (as_mailbox s) @ [r mod 100]\<rparr>)"
    by (intro mail.put) (simp_all add: as_mailbox_def)
  with True assms(2) show ?thesis by (auto simp: producer_def Let_def as_mailbox_def fresh_def)
next
  case False
  moreover have "psec (ppc s) \<Longrightarrow> cpc s \<noteq> CReset"
    using assms(1) by (cases "mutex s") (auto simp: cvinv_def agrees_pcs)
  ultimately have "as_mailbox s' = as_mailbox s"
    using assms(2) by (cases "ppc s") (auto simp: producer_def as_mailbox_def fresh_def split: option.splits if_splits)
  then show ?thesis by simp
qed

lemma customer_mail:
  assumes "cvinv s" and "customer s = Some s'"
  shows "as_mailbox s' = as_mailbox s \<or> mail (as_mailbox s) (as_mailbox s')"
proof (cases "cpc s = CPrint")
  case True
  have ready: "data_ready s" "ppc s \<noteq> PReady"
    using assms(1) True by (cases "mutex s"; auto simp: cvinv_def cvhist_def agrees_pcs)+
  then have "mail (as_mailbox s) ((as_mailbox s)\<lparr>slot := None, taken := taken (as_mailbox s) @ [data s]\<rparr>)"
    using True by (intro mail.take) (simp add: as_mailbox_def fresh_def)
  with True ready assms(2) show ?thesis by (auto simp: customer_def as_mailbox_def fresh_def)
next
  case False
  then have "as_mailbox s' = as_mailbox s"
    using assms(2) by (cases "cpc s") (auto simp: customer_def as_mailbox_def fresh_def split: option.splits if_splits)
  then show ?thesis by simp
qed

interpretation mailing: refines "\<lambda>s. s = cvstart" cvstep "\<lambda>m. m = empty_mailbox" mail as_mailbox
proof
  show "as_mailbox s = empty_mailbox" if "s = cvstart" for s
    using that by (simp add: as_mailbox_def empty_mailbox_def cvstart_def fresh_def)
next
  fix s t
  assume s: "handing s" and "cvstep s t"
  from this(2) show "as_mailbox t = as_mailbox s \<or> mail (as_mailbox s) (as_mailbox t)"
  proof cases
    case spurious
    then show ?thesis by (simp add: as_mailbox_def fresh_def)
  qed (use producer_mail customer_mail hand.reachable_inv [OF s] in blast)+
qed

section \<open>Properties\<close>

text \<open>
  C12: The two threads implement the mailbox: seen through its slot and the two histories,
  every interleaving is a sequence of puts of at most ten values below 100, each replacing
  what is in the slot, and of takes that empty it.
\<close>

theorem handoff_refines_mailbox:
  assumes "handing s"
  shows "reachable (\<lambda>m. m = empty_mailbox) mail (as_mailbox s)"
  by (rule mailing.abs_reachable [OF assms])

theorem handoff_refines_mailbox_witness:
  "\<exists>s. handing s \<and> reachable (\<lambda>m. m = empty_mailbox) mail (as_mailbox s) \<and> ppc s = PTest \<and> pi s = 10"
proof -
  obtain s where s: "undisturbed 10 s" using producer_rounds [of 10] by auto
  with handoff_refines_mailbox [of s] show ?thesis by (auto simp: undisturbed_def)
qed

text \<open>
  In every interleaving the printed values are a subsequence of the produced ones: nothing
  is printed twice, out of order, or without having been produced.
\<close>

theorem handoff_subseq:
  assumes "handing s"
  shows "subseq (consumed s) (produced s)"
  using hand.reachable_inv [OF assms] by (simp add: cvinv_def cvhist_def)

theorem handoff_subseq_witness: "handing cvstart \<and> subseq (consumed cvstart) (produced cvstart)"
  using handoff_subseq [OF reachable.reach_init [of "\<lambda>s. s = cvstart"]]
  by (simp add: reachable.reach_init)

text \<open>
  C13: If the customer finishes, it has printed every produced value, all ten, in order.
\<close>

theorem handoff_complete:
  assumes "handing s" and "cpc s = COver"
  shows "consumed s = produced s \<and> length (consumed s) = 10"
proof -
  have inv: "cvcounts s" "subseq (consumed s) (produced s)"
    using hand.reachable_inv [OF assms(1)] by (simp_all add: cvinv_def cvhist_def)
  have "length (consumed s) = 10" using inv(1) assms(2) by (simp add: cvcounts_def loop_ok_def)
  moreover have "length (produced s) \<le> 10"
    using inv(1) unat_lt [of "pi s" 10]
    by (cases "ppc s") (auto simp: cvcounts_def loop_ok_def word_le_nat_alt)
  ultimately show ?thesis
    using inv(2) list_emb_length [OF inv(2)] subseq_same_length [OF inv(2)] by simp
qed

theorem handoff_complete_witness: "\<exists>s. handing s \<and> cpc s = COver \<and> length (consumed s) = 10"
proof -
  obtain s where s: "in_turn 10 s" using turn_rounds [of 10] by auto
  then have "customer s = Some (s\<lparr>cpc := COver\<rparr>)" by (simp add: in_turn_def customer_def)
  with s have "handing (s\<lparr>cpc := COver\<rparr>)" by (auto simp: in_turn_def intro: consume_step)
  with handoff_complete [OF this] show ?thesis by auto
qed

text \<open>
  C14: The flag holds one value only, and the producer never waits for it to be taken: once
  the producer is done and fewer than ten values were printed or are at hand, the customer
  never finishes, whatever is scheduled and however often it wakes up spuriously.
\<close>

theorem handoff_stalls:
  assumes "handing s" and "ppc s = POver" and "prospect s < 10"
    and "reachable (\<lambda>u. u = s) cvstep t"
  shows "cpc t \<noteq> COver"
proof
  assume "cpc t = COver"
  moreover have "cvcounts t"
    using hand.reachable_inv [OF reachable_trans [OF assms(4,1)]] by (simp add: cvinv_def)
  ultimately have "length (consumed t) = 10" by (simp add: cvcounts_def loop_ok_def)
  with prospect_reachable [OF assms(4,1,2)] assms(3) show False by (simp add: prospect_def)
qed

theorem handoff_stalls_witness:
  "\<exists>s. handing s \<and> ppc s = POver \<and> (\<forall>t. reachable (\<lambda>u. u = s) cvstep t \<longrightarrow> cpc t \<noteq> COver)"
proof -
  obtain s where s: "undisturbed 10 s" using producer_rounds [of 10] by auto
  let ?t = "s\<lparr>ppc := POver\<rparr>"
  have "producer 0 s = Some ?t" using s by (simp add: undisturbed_def producer_def)
  with s have t: "handing ?t" by (auto simp: undisturbed_def intro: produce_step)
  have "prospect ?t < 10" using s by (simp add: undisturbed_def prospect_def)
  with handoff_stalls [OF t] t show ?thesis by (intro exI [of _ ?t]) simp
qed

end
