(* ===== verification/RWLock.thy ===== *)
theory RWLock
  imports Locks Log
begin

text \<open>
  The threads of \<open>4-Thread/task4.c\<close>: readers that print \<open>data\<close> five times under a read lock
  and writers that count it up under the write lock, interleaved. The numbers of readers and
  writers are parameters; main starts five and two. \<open>seen\<close> records what a reader printed.
\<close>

section \<open>Threads\<close>

datatype rpc = RLock | RTest | RPrint | RUnlock | ROver

datatype wpc = WLock | WInit | WTest | WPrint | WNext | WUnlock | WOver

record rwstate =
  rwlock :: rwlock
  data :: u32
  rpcs :: "nat \<Rightarrow> rpc"
  ridx :: "nat \<Rightarrow> u32"
  wpcs :: "nat \<Rightarrow> wpc"
  seen :: "nat \<Rightarrow> u32 list"
  rwlogs :: "log_call list"

definition OR_NUM_THREADS :: u32 where
  "OR_NUM_THREADS = 5"

definition OW_NUM_THREADS :: u32 where
  "OW_NUM_THREADS = 2"

text \<open>What a thread returns, if \<open>malloc\<close> gave it room.\<close>

definition rt_value :: "nat \<Rightarrow> bool \<Rightarrow> string option" where
  "rt_value t malloc_ok = (if malloc_ok then Some (''READ thread '' @ show_nat t) else None)"

definition wt_value :: "nat \<Rightarrow> bool \<Rightarrow> string option" where
  "wt_value t malloc_ok = (if malloc_ok then Some (''WRITE thread '' @ show_nat t) else None)"

definition rt_entry :: "nat \<Rightarrow> rwstate \<Rightarrow> rwstate option" where
  "rt_entry t s =
     (case rpcs s t of
        RLock \<Rightarrow>
          (case rwlock_rdlock (rwlock s) of None \<Rightarrow> None
           | Some l \<Rightarrow> Some (s\<lparr>rwlock := l, ridx := (ridx s)(t := 0), rpcs := (rpcs s)(t := RTest)\<rparr>))
      | RTest \<Rightarrow> Some (s\<lparr>rpcs := (rpcs s)(t := if ridx s t < OR_NUM_THREADS then RPrint else RUnlock)\<rparr>)
      | RPrint \<Rightarrow>
          Some (s\<lparr>rwlogs := rwlogs s @ [log_info ''READ thread %d read data... %d''
                    [ArgI (int t), ArgI (sint (data s))]],
                seen := (seen s)(t := seen s t @ [data s]),
                ridx := (ridx s)(t := ridx s t + 1), rpcs := (rpcs s)(t := RTest)\<rparr>)
      | RUnlock \<Rightarrow> Some (s\<lparr>rwlock := rwlock_unlock (rwlock s), rpcs := (rpcs s)(t := ROver)\<rparr>)
      | ROver \<Rightarrow> None)"

definition wt_entry :: "nat \<Rightarrow> rwstate \<Rightarrow> rwstate option" where
  "wt_entry t s =
     (case wpcs s t of
        WLock \<Rightarrow>
          (case rwlock_wrlock (rwlock s) of None \<Rightarrow> None
           | Some l \<Rightarrow> Some (s\<lparr>rwlock := l, wpcs := (wpcs s)(t := WInit)\<rparr>))
      | WInit \<Rightarrow> Some (s\<lparr>data := 0, wpcs := (wpcs s)(t := WTest)\<rparr>)
      | WTest \<Rightarrow> Some (s\<lparr>wpcs := (wpcs s)(t := if data s < OW_NUM_THREADS then WPrint else WUnlock)\<rparr>)
      | WPrint \<Rightarrow>
          Some (s\<lparr>rwlogs := rwlogs s @ [log_info ''WRITE thread %d modify data... %d''
                    [ArgI (int t), ArgI (sint (data s))]],
                wpcs := (wpcs s)(t := WNext)\<rparr>)
      | WNext \<Rightarrow> Some (s\<lparr>data := data s + 1, wpcs := (wpcs s)(t := WTest)\<rparr>)
      | WUnlock \<Rightarrow> Some (s\<lparr>rwlock := rwlock_unlock (rwlock s), wpcs := (wpcs s)(t := WOver)\<rparr>)
      | WOver \<Rightarrow> None)"

inductive rwstep :: "nat \<Rightarrow> nat \<Rightarrow> rwstate \<Rightarrow> rwstate \<Rightarrow> bool" for nr nw :: nat where
  reading: "t < nr \<Longrightarrow> rt_entry t s = Some s' \<Longrightarrow> rwstep nr nw s s'"
| writing: "t < nw \<Longrightarrow> wt_entry t s = Some s' \<Longrightarrow> rwstep nr nw s s'"

definition rwstart :: rwstate where
  "rwstart = \<lparr>rwlock = Unheld, data = 0, rpcs = (\<lambda>_. RLock), ridx = (\<lambda>_. 0), wpcs = (\<lambda>_. WLock),
     seen = (\<lambda>_. []), rwlogs = []\<rparr>"

abbreviation sharing :: "nat \<Rightarrow> nat \<Rightarrow> rwstate \<Rightarrow> bool" where
  "sharing nr nw \<equiv> reachable (\<lambda>s. s = rwstart) (rwstep nr nw)"

section \<open>The invariant\<close>

fun rin :: "rpc \<Rightarrow> bool" where
  "rin RLock = False" | "rin RTest = True" | "rin RPrint = True" | "rin RUnlock = True" | "rin ROver = False"

fun win :: "wpc \<Rightarrow> bool" where
  "win WLock = False" | "win WInit = True" | "win WTest = True" | "win WPrint = True"
| "win WNext = True" | "win WUnlock = True" | "win WOver = False"

definition R_in :: "nat \<Rightarrow> rwstate \<Rightarrow> nat set" where
  "R_in nr s = {t. t < nr \<and> rin (rpcs s t)}"

definition W_in :: "nat \<Rightarrow> rwstate \<Rightarrow> nat set" where
  "W_in nw s = {t. t < nw \<and> win (wpcs s t)}"

text \<open>Between the writers' sections the data is 0 or 2.\<close>

definition settled :: "u32 \<Rightarrow> bool" where
  "settled d \<longleftrightarrow> d = 0 \<or> d = 2"

fun wdata :: "wpc \<Rightarrow> u32 \<Rightarrow> bool" where
  "wdata WTest d = (d \<le> 2)"
| "wdata WPrint d = (d < 2)"
| "wdata WNext d = (d < 2)"
| "wdata WUnlock d = (d = 2)"
| "wdata _ d = True"

text \<open>What a reader has printed: nothing yet, or the same settled value each time.\<close>

definition rinv_at :: "rwstate \<Rightarrow> nat \<Rightarrow> bool" where
  "rinv_at s t \<longleftrightarrow>
     (rpcs s t = RLock \<longrightarrow> seen s t = []) \<and>
     (rpcs s t \<noteq> RLock \<longrightarrow> length (seen s t) = unat (ridx s t) \<and> ridx s t \<le> 5) \<and>
     (rpcs s t = RPrint \<longrightarrow> ridx s t < 5) \<and> (rpcs s t \<in> {RUnlock, ROver} \<longrightarrow> ridx s t = 5) \<and>
     (\<exists>d. settled d \<and> (rin (rpcs s t) \<longrightarrow> d = data s) \<and> set (seen s t) \<subseteq> {d})"

definition rwinv :: "nat \<Rightarrow> nat \<Rightarrow> rwstate \<Rightarrow> bool" where
  "rwinv nr nw s \<longleftrightarrow> rwl.agrees (rwlock s) (R_in nr s) (W_in nw s) \<and>
     (\<forall>t < nr. rinv_at s t) \<and> (\<forall>t < nw. wdata (wpcs s t) (data s)) \<and>
     (W_in nw s = {} \<longrightarrow> settled (data s))"

lemma rt_other: "rt_entry t s = Some s' \<Longrightarrow>
    wpcs s' = wpcs s \<and> data s' = data s \<and>
    (u \<noteq> t \<longrightarrow> rpcs s' u = rpcs s u \<and> ridx s' u = ridx s u \<and> seen s' u = seen s u)"
  by (cases "rpcs s t") (auto simp: rt_entry_def split: option.splits)

lemma wt_other: "wt_entry t s = Some s' \<Longrightarrow>
    rpcs s' = rpcs s \<and> ridx s' = ridx s \<and> seen s' = seen s \<and> (u \<noteq> t \<longrightarrow> wpcs s' u = wpcs s u)"
  by (cases "wpcs s t") (auto simp: wt_entry_def split: option.splits)

lemma R_in_change:
  assumes "rt_entry t s = Some s'" and "t < nr"
  shows "R_in nr s' = (if rin (rpcs s' t) then insert t (R_in nr s - {t}) else R_in nr s - {t})"
proof (rule set_eqI)
  fix u
  show "u \<in> R_in nr s' \<longleftrightarrow>
      u \<in> (if rin (rpcs s' t) then insert t (R_in nr s - {t}) else R_in nr s - {t})"
    using assms(2) rt_other [OF assms(1), of u] by (cases "u = t") (auto simp: R_in_def)
qed

lemma W_in_change:
  assumes "wt_entry t s = Some s'" and "t < nw"
  shows "W_in nw s' = (if win (wpcs s' t) then insert t (W_in nw s - {t}) else W_in nw s - {t})"
proof (rule set_eqI)
  fix u
  show "u \<in> W_in nw s' \<longleftrightarrow>
      u \<in> (if win (wpcs s' t) then insert t (W_in nw s - {t}) else W_in nw s - {t})"
    using assms(2) wt_other [OF assms(1), of u] by (cases "u = t") (auto simp: W_in_def)
qed

lemma rin_if: "rin (if b then RPrint else RUnlock)"
  by simp

lemma win_if: "win (if b then WPrint else WUnlock)"
  by simp

lemma agrees_rt:
  assumes "rt_entry t s = Some s'" "t < nr" "rwl.agrees (rwlock s) (R_in nr s) W"
  shows "rwl.agrees (rwlock s') (R_in nr s') W"
proof -
  have mem: "t \<in> R_in nr s \<longleftrightarrow> rin (rpcs s t)" using assms(2) by (simp add: R_in_def)
  note change = R_in_change [OF assms(1,2)]
  show ?thesis
  proof (cases "rpcs s t")
    case RLock
    then show ?thesis
      using assms(1) mem change rwl.agrees_rdlock [OF assms(3), of _ t]
      by (auto simp: rt_entry_def split: option.splits)
  next
    case RUnlock
    then show ?thesis
      using assms(1) mem change rwl.agrees_release_read [OF assms(3), of t] by (auto simp: rt_entry_def)
  next
    case ROver
    then show ?thesis using assms(1) by (simp add: rt_entry_def)
  qed (use assms(1,3) mem change in \<open>auto simp: rt_entry_def insert_absorb rin_if\<close>)
qed

lemma agrees_wt:
  assumes "wt_entry t s = Some s'" "t < nw" "rwl.agrees (rwlock s) R (W_in nw s)"
  shows "rwl.agrees (rwlock s') R (W_in nw s')"
proof -
  have mem: "t \<in> W_in nw s \<longleftrightarrow> win (wpcs s t)" using assms(2) by (simp add: W_in_def)
  note change = W_in_change [OF assms(1,2)]
  show ?thesis
  proof (cases "wpcs s t")
    case WLock
    then obtain l where l: "rwlock_wrlock (rwlock s) = Some l" "rwlock s' = l" "wpcs s' t = WInit"
      using assms(1) by (auto simp: wt_entry_def split: option.splits)
    with rwl.agrees_wrlock [OF assms(3) l(1), of t] rwl.agrees_wrlock_empty [OF assms(3) l(1)] change
    show ?thesis by simp
  next
    case WUnlock
    then have "W_in nw s = {t}" using mem rwl.agrees_writer [OF assms(3), of t] by simp
    with WUnlock show ?thesis
      using assms(1) mem change rwl.agrees_release_write [OF assms(3), of t] by (auto simp: wt_entry_def)
  next
    case WOver
    then show ?thesis using assms(1) by (simp add: wt_entry_def)
  qed (use assms(1,3) mem change in \<open>auto simp: wt_entry_def insert_absorb win_if\<close>)
qed

lemma rinv_at_self:
  assumes "rt_entry t s = Some s'" "rinv_at s t" and "rin (rpcs s' t) \<Longrightarrow> settled (data s)"
  shows "rinv_at s' t"
proof (cases "rpcs s t")
  case RLock
  then show ?thesis using assms by (auto simp: rt_entry_def rinv_at_def split: option.splits)
next
  case RTest
  then show ?thesis
    using assms(1,2) by (auto simp: rt_entry_def rinv_at_def OR_NUM_THREADS_def order_le_less)
next
  case RPrint
  then show ?thesis
    using assms(1,2) unat_Suc_lt [of "ridx s t" 5] unat_Suc_le [of "ridx s t" 5]
    by (auto simp: rt_entry_def rinv_at_def)
qed (use assms(1,2) in \<open>auto simp: rt_entry_def rinv_at_def\<close>)

lemma rinv_at_frame:
  assumes "rinv_at s u" "rpcs s' u = rpcs s u" "ridx s' u = ridx s u" "seen s' u = seen s u"
    and "rin (rpcs s u) \<Longrightarrow> data s' = data s"
  shows "rinv_at s' u"
  using assms unfolding rinv_at_def by simp

lemma wdata_step:
  assumes "wt_entry t s = Some s'" "wdata (wpcs s t) (data s)"
  shows "wdata (wpcs s' t) (data s')"
proof (cases "wpcs s t")
  case WTest
  then show ?thesis using assms by (auto simp: wt_entry_def OW_NUM_THREADS_def)
next
  case WNext
  then show ?thesis using assms unat_Suc_le [of "data s" 2] by (auto simp: wt_entry_def)
qed (use assms in \<open>auto simp: wt_entry_def split: option.splits\<close>)

lemma rwinv_rt:
  assumes inv: "rwinv nr nw s" and step: "rt_entry t s = Some s'" and t: "t < nr"
  shows "rwinv nr nw s'"
proof -
  have agr: "rwl.agrees (rwlock s) (R_in nr s) (W_in nw s)" using inv by (simp add: rwinv_def)
  have w: "W_in nw s' = W_in nw s" "data s' = data s" "wpcs s' = wpcs s"
    using rt_other [OF step] by (simp_all add: W_in_def)
  have agr': "rwl.agrees (rwlock s') (R_in nr s') (W_in nw s')"
    using agrees_rt [OF step t agr] w by simp
  have "settled (data s)" if "rin (rpcs s' t)"
  proof -
    have "t \<in> R_in nr s'" using that t by (simp add: R_in_def)
    then have "W_in nw s = {}" using rwl.agrees_reader [OF agr'] w by blast
    then show ?thesis using inv by (simp add: rwinv_def)
  qed
  then have self: "rinv_at s' t" using rinv_at_self [OF step] inv t by (simp add: rwinv_def)
  have "rinv_at s' u" if "u < nr" for u
  proof (cases "u = t")
    case False
    have "rinv_at s u" using inv that by (simp add: rwinv_def)
    then show ?thesis using False rt_other [OF step, of u] by (auto intro: rinv_at_frame)
  qed (use self in simp)
  then show ?thesis using inv agr' w by (simp add: rwinv_def)
qed

lemma rwinv_wt:
  assumes inv: "rwinv nr nw s" and step: "wt_entry t s = Some s'" and t: "t < nw"
  shows "rwinv nr nw s'"
proof -
  have agr: "rwl.agrees (rwlock s) (R_in nr s) (W_in nw s)" using inv by (simp add: rwinv_def)
  have r: "R_in nr s' = R_in nr s" "rpcs s' = rpcs s" "ridx s' = ridx s" "seen s' = seen s"
    using wt_other [OF step] by (simp_all add: R_in_def)
  have agr': "rwl.agrees (rwlock s') (R_in nr s') (W_in nw s')"
    using agrees_wt [OF step t agr] r by simp
  have data: "data s' = data s" if "\<not> win (wpcs s t)"
    using step that by (cases "wpcs s t") (auto simp: wt_entry_def split: option.splits)
  have alone: "R_in nr s = {} \<and> W_in nw s = {t}" if "win (wpcs s t)"
    using that t rwl.agrees_writer [OF agr, of t] by (simp add: W_in_def)
  have own: "wdata (wpcs s' t) (data s')"
    using wdata_step [OF step] inv t by (simp add: rwinv_def)
  have reader: "rinv_at s' u" if "u < nr" for u
  proof -
    have "rinv_at s u" using inv that by (simp add: rwinv_def)
    moreover have "rin (rpcs s u) \<Longrightarrow> data s' = data s"
      using alone data that by (cases "win (wpcs s t)") (auto simp: R_in_def)
    ultimately show ?thesis using r by (intro rinv_at_frame [of s u s']) simp_all
  qed
  have writer: "wdata (wpcs s' u) (data s')" if "u < nw" for u
  proof (cases "u = t")
    case False
    have old: "wdata (wpcs s u) (data s)" using inv that by (simp add: rwinv_def)
    have pc: "wpcs s' u = wpcs s u" using wt_other [OF step] False by blast
    show ?thesis
    proof (cases "win (wpcs s t)")
      case True
      then have "\<not> win (wpcs s u)" using alone that False by (auto simp: W_in_def)
      then show ?thesis using pc by (cases "wpcs s u") simp_all
    qed (use old pc data in simp)
  qed (use own in simp)
  have "settled (data s')" if "W_in nw s' = {}"
  proof (cases "win (wpcs s t)")
    case True
    moreover have "\<not> win (wpcs s' t)" using that t by (auto simp: W_in_def)
    ultimately have "wpcs s t = WUnlock" "data s' = data s"
      using step by (cases "wpcs s t"; auto simp: wt_entry_def split: if_splits)+
    then show ?thesis using inv t by (auto simp: rwinv_def settled_def)
  next
    case False
    have "\<not> win (wpcs s' t)" using that t by (auto simp: W_in_def)
    then have "W_in nw s = {}" using W_in_change [OF step t] that False by (auto simp: W_in_def)
    then show ?thesis using inv data [OF False] by (simp add: rwinv_def)
  qed
  with agr' reader writer show ?thesis by (simp add: rwinv_def)
qed

interpretation share: invariant_of "\<lambda>s. s = rwstart" "rwstep nr nw" "rwinv nr nw"
proof
  show "rwinv nr nw s" if "s = rwstart" for s
    using that rwl.agrees_start [of Unheld]
    by (auto simp: rwinv_def rwstart_def R_in_def W_in_def rinv_at_def settled_def rw_writing_def)
next
  show "rwinv nr nw t" if "rwinv nr nw s" "rwstep nr nw s t" for s t
    using that(2) by cases (use that(1) rwinv_rt rwinv_wt in blast)+
qed

section \<open>Properties\<close>

text \<open>A schedule executed step by step, to build reachable states: \<open>Inl\<close> a reader, \<open>Inr\<close> a writer.\<close>

fun run_rw :: "(nat + nat) list \<Rightarrow> rwstate \<Rightarrow> rwstate option" where
  "run_rw [] s = Some s"
| "run_rw (Inl t # sch) s = (case rt_entry t s of None \<Rightarrow> None | Some s' \<Rightarrow> run_rw sch s')"
| "run_rw (Inr t # sch) s = (case wt_entry t s of None \<Rightarrow> None | Some s' \<Rightarrow> run_rw sch s')"

lemma run_rw_sharing:
  "run_rw sch s = Some s' \<Longrightarrow> sharing nr nw s \<Longrightarrow> \<forall>e \<in> set sch. case_sum (\<lambda>t. t < nr) (\<lambda>t. t < nw) e \<Longrightarrow>
    sharing nr nw s'"
proof (induction sch s rule: run_rw.induct)
  case (2 t sch s)
  then obtain u where "rt_entry t s = Some u" "run_rw sch u = Some s'" by (auto split: option.splits)
  with 2 show ?case by (auto intro: reachable.reach_step rwstep.reading)
next
  case (3 t sch s)
  then obtain u where "wt_entry t s = Some u" "run_rw sch u = Some s'" by (auto split: option.splits)
  with 3 show ?case by (auto intro: reachable.reach_step rwstep.writing)
qed auto

text \<open>
  C15: A reader never sees a writer at work: all it prints is one value, the same each time,
  and that value is 0 or 2; a reader that has finished has printed it five times.
\<close>

theorem rw_readers_consistent:
  assumes "sharing nr nw s" and "t < nr"
  shows "\<exists>d. (d = 0 \<or> d = 2) \<and> set (seen s t) \<subseteq> {d} \<and> (rpcs s t = ROver \<longrightarrow> seen s t = replicate 5 d)"
proof -
  have inv: "rinv_at s t" using share.reachable_inv [OF assms(1)] assms(2) by (simp add: rwinv_def)
  then obtain d where d: "d = 0 \<or> d = 2" "set (seen s t) \<subseteq> {d}"
    by (auto simp: rinv_at_def settled_def)
  moreover have "seen s t = replicate 5 d" if "rpcs s t = ROver"
    using inv that d(2) by (intro replicate_eqI) (auto simp: rinv_at_def)
  ultimately show ?thesis by blast
qed

theorem rw_readers_consistent_witness:
  "\<exists>s. sharing 5 2 s \<and> (\<exists>d. (d = 0 \<or> d = 2) \<and> set (seen s 3) \<subseteq> {d}) \<and> seen s 3 = [2]"
proof -
  let ?sch = "[Inr 1, Inr 1, Inr 1, Inr 1, Inr 1, Inr 1, Inr 1, Inr 1, Inr 1, Inr 1, Inl 3, Inl 3, Inl 3]"
  obtain s where s: "run_rw ?sch rwstart = Some s" "seen s 3 = [2]"
    by (simp add: rwstart_def wt_entry_def rt_entry_def OW_NUM_THREADS_def OR_NUM_THREADS_def)
  have "sharing 5 2 s"
    by (rule run_rw_sharing [OF s(1)]) (auto intro: reachable.reach_init)
  with rw_readers_consistent [of 5 2 s 3] s(2) show ?thesis by auto
qed

text \<open>
  C16: A thread that holds the lock for writing is alone: no reader and no other writer is
  between its lock and its unlock.
\<close>

theorem rw_writer_alone:
  assumes "sharing nr nw s" and "w < nw" "win (wpcs s w)"
  shows "(\<forall>t < nr. \<not> rin (rpcs s t)) \<and> (\<forall>u < nw. win (wpcs s u) \<longrightarrow> u = w)"
proof -
  have "rwl.agrees (rwlock s) (R_in nr s) (W_in nw s)"
    using share.reachable_inv [OF assms(1)] by (simp add: rwinv_def)
  from rwl.agrees_writer [OF this, of w] assms(2,3) show ?thesis by (auto simp: R_in_def W_in_def)
qed

theorem rw_writer_alone_witness:
  "\<exists>s. sharing 5 2 s \<and> win (wpcs s 1) \<and> \<not> rin (rpcs s 0) \<and> \<not> win (wpcs s 0)"
proof -
  obtain s where s: "run_rw [Inr 1] rwstart = Some s" "win (wpcs s 1)"
    by (simp add: rwstart_def wt_entry_def)
  have "sharing 5 2 s" by (rule run_rw_sharing [OF s(1)]) (auto intro: reachable.reach_init)
  with rw_writer_alone [of 5 2 s 1] s(2) show ?thesis by force
qed

end
