(* ===== verification/Signals.thy ===== *)
theory Signals
  imports Children
begin

text \<open>
  \<open>5-Signal\<close>: a counter of SIGINTs (\<open>task1\<close>), a ten-second timer (\<open>task2\<close>) and a loop over
  \<open>select\<close> that takes its signals from a descriptor (\<open>task4\<close>). When signals come and what the
  calls return are lists of events; a handler runs as one step, because it blocks all signals.
\<close>

section \<open>task1\<close>

datatype int_event = Loop | Sigint

record int_state =
  signal_count :: u32
  caught :: bool             \<comment> \<open>SIGINT has the handler, not the default action\<close>
  ilogs :: "log_call list"

datatype int_run = Running int_state | Died int int_state | Stopped ending int_state

text \<open>\<open>signal_r\<close> is whether \<open>signal\<close> works.\<close>

definition sigint_handler :: "string option \<Rightarrow> bool \<Rightarrow> int_state \<Rightarrow> int_run" where
  "sigint_handler dumpcore signal_r s =
     (let c = signal_count s + 1;
          s = s\<lparr>signal_count := c, ilogs := ilogs s @ [log_info ''SIGINT received %d'' [ArgI (sint c)]]\<rparr>
      in if c < 2 then Running s
         else if \<not> signal_r
         then Stopped (terminate dumpcore EXIT_FAILURE True)
                (s\<lparr>ilogs := ilogs s @ [log_error_ne ''signal failure'' []]\<rparr>)
         else Running (s\<lparr>caught := False\<rparr>))"

definition handle_signal1 :: "string option \<Rightarrow> bool \<Rightarrow> int \<Rightarrow> int_state \<Rightarrow> int_run" where
  "handle_signal1 dumpcore signal_r sig_num s =
     (if sig_num = SIGINT then sigint_handler dumpcore signal_r s
      else Running (s\<lparr>ilogs := ilogs s @ [log_warn ''Unexpected signal %d'' [ArgI sig_num]]\<rparr>))"

fun loop1 :: "string option \<Rightarrow> bool \<Rightarrow> int_event list \<Rightarrow> int_state \<Rightarrow> int_run" where
  "loop1 d r [] s = Running s"
| "loop1 d r (Loop # es) s =
     loop1 d r es (s\<lparr>ilogs := ilogs s @ [log_info ''Program processing...'' []]\<rparr>)"
| "loop1 d r (Sigint # es) s =
     (if \<not> caught s then Died SIGINT s
      else (case handle_signal1 d r SIGINT s of Running s' \<Rightarrow> loop1 d r es s' | res \<Rightarrow> res))"

definition main_sigint :: "string option \<Rightarrow> bool \<Rightarrow> bool \<Rightarrow> int_event list \<Rightarrow> int_run" where
  "main_sigint dumpcore sigaction_r signal_r es =
     (let s = \<lparr>signal_count = 0, caught = sigaction_r, ilogs = []\<rparr>
      in if \<not> sigaction_r
         then Stopped (terminate dumpcore EXIT_FAILURE True)
                (s\<lparr>ilogs := [log_error_ne ''Error: cannot handle SIGINT'' []]\<rparr>)
         else loop1 dumpcore signal_r es s)"

section \<open>task2\<close>

datatype alarm_event = Poll | Alarm

text \<open>\<open>Poll\<close> is a test of the loop, \<open>Alarm\<close> the delivery of the pending SIGALRM.\<close>

definition handle_sigalrm :: "i32 \<Rightarrow> i32 \<times> log_call" where
  "handle_sigalrm seconds = (seconds + 1, log_info ''Timer: %d seconds'' [ArgI (sint (seconds + 1))])"

datatype alarm_run = Polling i32 | Expired outcome | AlarmKills int

fun loop2 :: "bool \<Rightarrow> alarm_event list \<Rightarrow> i32 \<Rightarrow> log_call list \<times> alarm_run" where
  "loop2 handled [] seconds = ([], Polling seconds)"
| "loop2 handled (Poll # es) seconds =
     (if sint seconds < 10 then loop2 handled es seconds else ([], Expired (Returns 0)))"
| "loop2 handled (Alarm # es) seconds =
     (if \<not> handled then ([], AlarmKills SIGALRM)
      else (let (seconds, l) = handle_sigalrm seconds; (ls, r) = loop2 handled es seconds in (l # ls, r)))"

definition main_timer :: "int \<Rightarrow> bool \<Rightarrow> alarm_event list \<Rightarrow> log_call list \<times> alarm_run" where
  "main_timer pid sigaction_r es =
     (let l1 = [log_info ''Process %d is running...'' [ArgI pid]];
          l2 = (if sigaction_r then [] else [log_error_ne ''Cannot handle SIGALRM'' []]);
          (l3, r) = loop2 sigaction_r es 0
      in (l1 @ l2 @ l3, r))"

section \<open>task4\<close>

text \<open>
  What one round finds: whether \<open>select\<close> fails, the signal read from the descriptor if it is
  ready (\<open>None\<close> inside for a short read), and what \<open>fgets\<close> gives if standard input is ready.
\<close>

record round =
  select_fails :: bool
  sfd_ready :: "int option option"
  stdin_ready :: "string option option"

datatype shown = Logged log_call | Printed string

datatype fd_run = Waiting | Over outcome

fun loop4 :: "string option \<Rightarrow> round list \<Rightarrow> shown list \<times> fd_run" where
  "loop4 d [] = ([], Waiting)"
| "loop4 d (x # xs) =
     (let input = (case stdin_ready x of
            Some (Some line) \<Rightarrow> [Printed (''Your input: '' @ line)] | _ \<Rightarrow> []);
          next = (\<lambda>l. let (ls, r) = loop4 d xs in (l @ input @ ls, r));
          fail = Over (Ends (terminate d EXIT_FAILURE True))
      in if select_fails x then ([Logged (log_error_ne ''select'' [])], fail)
         else (case sfd_ready x of
             None \<Rightarrow> next []
           | Some None \<Rightarrow> ([Logged (log_error_ne ''read'' [])], fail)
           | Some (Some signo) \<Rightarrow>
               (if signo = SIGINT then next [Logged (log_info ''SIGINT received.'' [])]
                else if signo = SIGTERM
                then ([Logged (log_info ''SIGTERM received. Exit program'' []),
                       Printed (''Ending program.'' @ [CHR 0x0A])], Over (Returns 0))
                else next [])))"

definition main_signalfd :: "string option \<Rightarrow> bool \<Rightarrow> int \<Rightarrow> round list \<Rightarrow> shown list \<times> fd_run" where
  "main_signalfd d sigprocmask_r sfd xs =
     (let fail = Over (Ends (terminate d EXIT_FAILURE True))
      in if \<not> sigprocmask_r then ([Logged (log_error_ne ''sigprocmask'' [])], fail)
         else if sfd = -1 then ([Logged (log_error_ne ''signalfd'' [])], fail)
         else (let (ls, r) = loop4 d xs in (Logged (log_info ''Program is running...'' []) # ls, r)))"

section \<open>What the programs do\<close>

definition sigints_in :: "int_event list \<Rightarrow> nat" where
  "sigints_in es = length (filter (\<lambda>e. e = Sigint) es)"

definition alarms_in :: "alarm_event list \<Rightarrow> nat" where
  "alarms_in es = length (filter (\<lambda>e. e = Alarm) es)"

lemma events_simps [simp]:
  "sigints_in [] = 0" "sigints_in (Loop # es) = sigints_in es" "sigints_in (Sigint # es) = Suc (sigints_in es)"
  "alarms_in [] = 0" "alarms_in (Poll # ps) = alarms_in ps" "alarms_in (Alarm # ps) = Suc (alarms_in ps)"
  by (simp_all add: sigints_in_def alarms_in_def)

lemma loop1_counts:
  assumes "signal_count s = word_of_nat c" "caught s = (c < 2)" "c \<le> 2"
  shows "\<exists>s'. loop1 d True es s =
      (if c + sigints_in es \<le> 2 then Running s' else Died SIGINT s') \<and>
    signal_count s' = word_of_nat (min 2 (c + sigints_in es)) \<and> caught s' = (c + sigints_in es < 2)"
  using assms
proof (induction es arbitrary: s c)
  case (Cons e es)
  show ?case
  proof (cases e)
    case Loop
    then show ?thesis using Cons.IH [of "s\<lparr>ilogs := _\<rparr>" c] Cons.prems by simp
  next
    case Sigint
    from Cons.prems(3) consider "c = 0" | "c = 1" | "c = 2" by linarith
    then show ?thesis
    proof cases
      case 1
      then show ?thesis
        using Cons.IH [of "s\<lparr>signal_count := 1, ilogs := _\<rparr>" 1] Cons.prems Sigint
        by (simp add: handle_signal1_def sigint_handler_def Let_def)
    next
      case 2
      then show ?thesis
        using Cons.IH [of "s\<lparr>signal_count := 2, ilogs := _, caught := False\<rparr>" 2] Cons.prems Sigint
        by (simp add: handle_signal1_def sigint_handler_def Let_def)
    next
      case 3
      then show ?thesis using Cons.prems Sigint by auto
    qed
  qed
qed (auto intro: exI [of _ s])

text \<open>
  C21: The first two SIGINTs are counted, and the second only restores the default action: it
  does not end the program, as its comment says. It takes a third SIGINT, and that kills it.
\<close>

theorem sigint_third_kills:
  "\<exists>s. main_sigint d True True es =
      (if sigints_in es \<le> 2 then Running s else Died SIGINT s) \<and>
    signal_count s = word_of_nat (min 2 (sigints_in es)) \<and> caught s = (sigints_in es < 2)"
  using loop1_counts [of "\<lparr>signal_count = 0, caught = True, ilogs = []\<rparr>" 0 d es]
  by (simp add: main_sigint_def)

definition timer_log :: "nat \<Rightarrow> log_call" where
  "timer_log n = log_info ''Timer: %d seconds'' [ArgI (int n)]"

lemma small_seconds:
  assumes "n \<le> 10"
  shows "sint (word_of_nat n :: i32) = int n"
  using assms by (auto simp: numeral_eq_Suc le_Suc_eq)

lemma loop2_ten:
  "n + alarms_in xs = 10 \<Longrightarrow>
    loop2 True (xs @ Poll # ys) (word_of_nat n) = (map timer_log [Suc n..<11], Expired (Returns 0))"
proof (induction xs arbitrary: n)
  case Nil
  then show ?case using small_seconds [of n] by simp
next
  case (Cons x xs)
  show ?case
  proof (cases x)
    case Poll
    show ?thesis
    proof (cases "n = 10")
      case False
      then show ?thesis using Poll Cons small_seconds [of n] by simp
    qed (use Poll small_seconds [of n] in simp)
  next
    case Alarm
    then have n: "Suc n \<le> 10" "Suc n + alarms_in xs = 10" using Cons.prems by simp_all
    have "(word_of_nat n :: i32) + 1 = word_of_nat (Suc n)" by (simp add: add.commute)
    then have "handle_sigalrm (word_of_nat n) = (word_of_nat (Suc n), timer_log (Suc n))"
      using small_seconds [OF n(1)] by (simp only: handle_sigalrm_def timer_log_def)
    moreover have "[Suc n..<11] = Suc n # [Suc (Suc n)..<11]" using n(1) by (simp add: upt_conv_Cons)
    ultimately show ?thesis using Alarm Cons.IH [OF n(2)] by simp
  qed
qed

text \<open>
  However the loop's tests and the alarms fall, the timer announces the seconds 1 to 10,
  one for each alarm, and returns 0 at the first test after the tenth.
\<close>

theorem timer_counts_ten:
  assumes "alarms_in xs = 10"
  shows "main_timer pid True (xs @ Poll # ys) =
    (log_info ''Process %d is running...'' [ArgI pid] # map timer_log [1..<11], Expired (Returns 0))"
  using loop2_ten [of 0 xs ys] assms by (simp add: main_timer_def)

theorem timer_counts_ten_witness:
  "snd (main_timer 7 True (replicate 10 Alarm @ [Poll])) = Expired (Returns 0)"
  by (subst timer_counts_ten) (simp_all add: numeral_eq_Suc)

text \<open>What a round without failure and without SIGTERM shows.\<close>

definition quiet :: "round \<Rightarrow> bool" where
  "quiet x \<longleftrightarrow> \<not> select_fails x \<and> sfd_ready x \<noteq> Some None \<and> sfd_ready x \<noteq> Some (Some SIGTERM)"

definition display :: "round \<Rightarrow> shown list" where
  "display x =
     (if sfd_ready x = Some (Some SIGINT) then [Logged (log_info ''SIGINT received.'' [])] else []) @
     (case stdin_ready x of Some (Some line) \<Rightarrow> [Printed (''Your input: '' @ line)] | _ \<Rightarrow> [])"

lemma loop4_quiet:
  "\<forall>x \<in> set xs. quiet x \<Longrightarrow>
    loop4 d (xs @ ys) = (concat (map display xs) @ fst (loop4 d ys), snd (loop4 d ys))"
proof (induction xs)
  case (Cons x xs)
  then show ?case
    by (auto simp: quiet_def display_def Let_def SIGINT_def SIGTERM_def split_beta split: option.splits)
qed simp

text \<open>
  C22: The loop serves both sources, signal before input in each round, and ends with the first
  SIGTERM: a line that is ready in that round is not read, and later rounds do not happen.
\<close>

theorem signalfd_until_sigterm:
  assumes "\<forall>x \<in> set xs. quiet x" and "\<not> select_fails y" "sfd_ready y = Some (Some SIGTERM)" and "sfd \<noteq> -1"
  shows "main_signalfd d True sfd (xs @ y # zs) =
    (Logged (log_info ''Program is running...'' []) # concat (map display xs) @
       [Logged (log_info ''SIGTERM received. Exit program'' []),
        Printed (''Ending program.'' @ [CHR 0x0A])],
     Over (Returns 0))"
  using assms loop4_quiet [OF assms(1), of d "y # zs"]
  by (simp add: main_signalfd_def SIGINT_def SIGTERM_def)

theorem signalfd_until_sigterm_witness:
  "snd (main_signalfd None True 3
     [\<lparr>select_fails = False, sfd_ready = Some (Some SIGINT), stdin_ready = Some (Some ''x'')\<rparr>,
      \<lparr>select_fails = False, sfd_ready = Some (Some SIGTERM), stdin_ready = Some (Some ''y'')\<rparr>]) = Over (Returns 0)"
  using signalfd_until_sigterm
    [of "[\<lparr>select_fails = False, sfd_ready = Some (Some SIGINT), stdin_ready = Some (Some ''x'')\<rparr>]"
      "\<lparr>select_fails = False, sfd_ready = Some (Some SIGTERM), stdin_ready = Some (Some ''y'')\<rparr>" 3 None "[]"]
  by (simp add: quiet_def SIGINT_def SIGTERM_def)

end
