(* ===== verification/Usr1.thy ===== *)
theory Usr1
  imports Children
begin

text \<open>
  \<open>5-Signal/task3.c\<close>: a parent sends SIGUSR1 to its child five times and then waits; the
  child counts the signals in a handler and pauses until it has seen five. The two processes
  and the delivery of the pending signal are interleaved. SIGUSR1 is a standard signal: one
  that is sent while one is pending is merged with it. \<open>count\<close> exists once in each process.
\<close>

section \<open>The two processes\<close>

datatype sender = S_Test | S_Send | S_Kill | S_Wait | S_Done

datatype receiver =
    R_Setup     \<comment> \<open>before \<open>sigaction\<close>\<close>
  | R_Test      \<comment> \<open>at the loop's condition\<close>
  | R_Enter     \<comment> \<open>about to call \<open>pause\<close>\<close>
  | R_Pause     \<comment> \<open>inside \<open>pause\<close>\<close>
  | R_Gone

record usr =
  spc :: sender
  scount :: u32
  rpc :: receiver
  rcount :: u32
  handled :: bool
  pending :: bool
  status :: "i32 option"       \<comment> \<open>how the child ended\<close>
  slogs :: "log_call list"
  rlogs :: "log_call list"

definition EXIT_VALUE :: int where
  "EXIT_VALUE = 8"

definition parent_entry :: "usr \<Rightarrow> usr option" where
  "parent_entry s =
     (case spc s of
        S_Test \<Rightarrow> Some (s\<lparr>spc := if scount s < 5 then S_Send else S_Wait\<rparr>)
      | S_Send \<Rightarrow>
          Some (s\<lparr>scount := scount s + 1, spc := S_Kill,
            slogs := slogs s @ [log_info ''Parent send the SIGUSR1... %d'' [ArgI (sint (scount s + 1))]]\<rparr>)
      | S_Kill \<Rightarrow> Some (s\<lparr>pending := pending s \<or> rpc s \<noteq> R_Gone, spc := S_Test\<rparr>)
      | S_Wait \<Rightarrow>
          (case status s of None \<Rightarrow> None
           | Some st \<Rightarrow>
               Some (s\<lparr>spc := S_Done,
                 slogs := slogs s @
                   [if WIFEXITED st
                    then log_info ''Child process exit normally with exit status = %d'' [ArgI (WEXITSTATUS st)]
                    else log_info ''Child process exit abnormally'' []]\<rparr>))
      | S_Done \<Rightarrow> None)"

text \<open>\<open>ok\<close> is whether \<open>sigaction\<close> works; the child goes on if it does not.\<close>

definition child_entry :: "bool \<Rightarrow> usr \<Rightarrow> usr option" where
  "child_entry ok s =
     (case rpc s of
        R_Setup \<Rightarrow>
          Some (s\<lparr>handled := ok, rpc := R_Test,
            rlogs := rlogs s @ (if ok then [] else [log_error_ne ''Cannot handle SIGUSR1'' []])\<rparr>)
      | R_Test \<Rightarrow>
          Some (if rcount s < 5 then s\<lparr>rpc := R_Enter\<rparr>
                else s\<lparr>rpc := R_Gone, pending := False, status := Some (wait_status (Exit EXIT_VALUE))\<rparr>)
      | R_Enter \<Rightarrow> Some (s\<lparr>rpc := R_Pause\<rparr>)
      | R_Pause \<Rightarrow> None
      | R_Gone \<Rightarrow> None)"

definition handle_usr1 :: "usr \<Rightarrow> usr" where
  "handle_usr1 s = s\<lparr>rcount := rcount s + 1,
     rlogs := rlogs s @ [log_info (''Received signal from parent %d times'' @ [CHR 0x0A])
       [ArgI (sint (rcount s + 1))]]\<rparr>"

text \<open>Delivery: the handler runs and \<open>pause\<close> returns, or the default action ends the child.\<close>

definition deliver_usr1 :: "usr \<Rightarrow> usr option" where
  "deliver_usr1 s =
     (if \<not> pending s \<or> rpc s = R_Gone then None
      else if handled s
      then Some ((handle_usr1 s)\<lparr>pending := False, rpc := if rpc s = R_Pause then R_Test else rpc s\<rparr>)
      else Some (s\<lparr>pending := False, rpc := R_Gone, status := Some (word_of_int SIGUSR1)\<rparr>))"

inductive ustep :: "bool \<Rightarrow> usr \<Rightarrow> usr \<Rightarrow> bool" for ok :: bool where
  sends: "parent_entry s = Some s' \<Longrightarrow> ustep ok s s'"
| receives: "child_entry ok s = Some s' \<Longrightarrow> ustep ok s s'"
| delivers: "deliver_usr1 s = Some s' \<Longrightarrow> ustep ok s s'"

text \<open>After \<open>fork\<close>: the parent's line names both processes, the child's its own.\<close>

definition ustart :: "int \<Rightarrow> int \<Rightarrow> usr" where
  "ustart ppid cpid =
     \<lparr>spc = S_Test, scount = 0, rpc = R_Setup, rcount = 0, handled = False, pending = False, status = None,
      slogs = [log_info ''This is parent process, parent pid = %d, child pid = %d. Wait child process...''
                 [ArgI ppid, ArgI cpid]],
      rlogs = [log_info ''This is child process, pid = %d'' [ArgI cpid]]\<rparr>"

abbreviation signalling :: "bool \<Rightarrow> int \<Rightarrow> int \<Rightarrow> usr \<Rightarrow> bool" where
  "signalling ok ppid cpid \<equiv> reachable (\<lambda>s. s = ustart ppid cpid) (ustep ok)"

section \<open>The invariant\<close>

fun sender_ok :: "sender \<Rightarrow> nat \<Rightarrow> bool" where
  "sender_ok S_Test n = (n \<le> 5)" | "sender_ok S_Send n = (n < 5)" | "sender_ok S_Kill n = (0 < n \<and> n \<le> 5)"
| "sender_ok S_Wait n = (n = 5)" | "sender_ok S_Done n = (n = 5)"

text \<open>The signals that have been sent.\<close>

fun sent_signals :: "sender \<Rightarrow> nat \<Rightarrow> nat" where
  "sent_signals S_Kill n = n - 1" | "sent_signals _ n = n"

definition end_ok :: "i32 \<Rightarrow> u32 \<Rightarrow> bool \<Rightarrow> bool" where
  "end_ok st c h \<longleftrightarrow> st = wait_status (Exit EXIT_VALUE) \<and> c = 5 \<or> st = word_of_int SIGUSR1 \<and> \<not> h"

definition receiver_ok :: "usr \<Rightarrow> bool" where
  "receiver_ok s \<longleftrightarrow>
     (case status s of None \<Rightarrow> rpc s \<noteq> R_Gone \<and> spc s \<noteq> S_Done
      | Some st \<Rightarrow> rpc s = R_Gone \<and> \<not> pending s \<and> end_ok st (rcount s) (handled s))"

definition received_ok :: "usr \<Rightarrow> bool" where
  "received_ok s \<longleftrightarrow>
     unat (rcount s) + (if pending s then 1 else 0) \<le> sent_signals (spc s) (unat (scount s))"

definition uinv :: "usr \<Rightarrow> bool" where
  "uinv s \<longleftrightarrow> sender_ok (spc s) (unat (scount s)) \<and> received_ok s \<and> receiver_ok s"

lemma unat_below_5: "(c :: u32) < 5 \<longleftrightarrow> unat c < 5"
  by (simp add: word_less_nat_alt)

lemma unat_next: "unat (c :: u32) < 5 \<Longrightarrow> unat (c + 1) = Suc (unat c)"
  using unat_Suc_lt [of c 5] by (simp add: word_less_nat_alt)

lemma sent_le_5: "sender_ok p n \<Longrightarrow> sent_signals p n \<le> 5"
  by (cases p) auto

lemma uinv_parent:
  assumes "uinv s" "parent_entry s = Some s'"
  shows "uinv s'"
proof (cases "spc s")
  case S_Test
  then show ?thesis
    using assms by (cases "status s")
      (auto simp: parent_entry_def uinv_def received_ok_def receiver_ok_def unat_below_5)
next
  case S_Send
  then show ?thesis
    using assms unat_next [of "scount s"] by (cases "status s")
      (auto simp: parent_entry_def uinv_def received_ok_def receiver_ok_def)
next
  case S_Kill
  then show ?thesis
    using assms by (cases "status s"; cases "pending s")
      (auto simp: parent_entry_def uinv_def received_ok_def receiver_ok_def)
next
  case S_Wait
  then show ?thesis
    using assms by (cases "status s")
      (auto simp: parent_entry_def uinv_def received_ok_def receiver_ok_def)
next
  case S_Done
  then show ?thesis using assms by (simp add: parent_entry_def)
qed

lemma uinv_child:
  assumes "uinv s" "child_entry ok s = Some s'"
  shows "uinv s'"
proof (cases "rpc s")
  case R_Test
  show ?thesis
  proof (cases "rcount s < 5")
    case False
    have "unat (rcount s) \<le> 5"
      using assms(1) sent_le_5 [of "spc s" "unat (scount s)"] by (simp add: uinv_def received_ok_def)
    with False have "rcount s = 5" by (simp add: unat_below_5 word_unat_eq_iff)
    moreover have "status s = None" using assms(1) R_Test by (cases "status s") (auto simp: uinv_def receiver_ok_def)
    ultimately show ?thesis
      using assms R_Test by (auto simp: child_entry_def uinv_def received_ok_def receiver_ok_def end_ok_def)
  qed (use assms R_Test in \<open>cases "status s"; auto simp: child_entry_def uinv_def received_ok_def receiver_ok_def\<close>)
qed (use assms in \<open>cases "status s"; auto simp: child_entry_def uinv_def received_ok_def receiver_ok_def\<close>)+

lemma uinv_deliver:
  assumes "uinv s" "deliver_usr1 s = Some s'"
  shows "uinv s'"
proof -
  have p: "pending s" "rpc s \<noteq> R_Gone" using assms(2) by (auto simp: deliver_usr1_def split: if_splits)
  then have st: "status s = None" using assms(1) by (cases "status s") (auto simp: uinv_def receiver_ok_def)
  have "unat (rcount s) < 5"
    using assms(1) p sent_le_5 [of "spc s" "unat (scount s)"] by (simp add: uinv_def received_ok_def)
  then have more: "unat (rcount s + 1) = Suc (unat (rcount s))" by (rule unat_next)
  show ?thesis
    using assms p st more by (cases "handled s"; cases "rpc s")
      (auto simp: deliver_usr1_def handle_usr1_def uinv_def received_ok_def receiver_ok_def end_ok_def)
qed

interpretation usr1: invariant_of "\<lambda>s. s = ustart ppid cpid" "ustep ok" uinv
proof
  show "uinv s" if "s = ustart ppid cpid" for s
    using that by (simp add: ustart_def uinv_def received_ok_def receiver_ok_def)
next
  show "uinv t" if "uinv s" "ustep ok s t" for s t
    using that(2) by cases (use that(1) uinv_parent uinv_child uinv_deliver in blast)+
qed

section \<open>Runs end\<close>

fun sender_weight :: "sender \<Rightarrow> nat" where
  "sender_weight S_Test = 2" | "sender_weight S_Send = 1" | "sender_weight S_Kill = 3"
| "sender_weight S_Wait = 1" | "sender_weight S_Done = 0"

fun receiver_weight :: "receiver \<Rightarrow> nat" where
  "receiver_weight R_Setup = 4" | "receiver_weight R_Test = 3" | "receiver_weight R_Enter = 2"
| "receiver_weight R_Pause = 1" | "receiver_weight R_Gone = 0"

definition work_left :: "usr \<Rightarrow> nat" where
  "work_left s = 10 * (3 * (5 - unat (scount s)) + sender_weight (spc s)) +
     (if pending s then 5 else 0) + receiver_weight (rpc s)"

lemma work_parent: "uinv s \<Longrightarrow> parent_entry s = Some s' \<Longrightarrow> work_left s' < work_left s"
  using unat_next [of "scount s"]
  by (cases "spc s") (auto simp: parent_entry_def work_left_def uinv_def split: option.splits)

lemma work_child: "child_entry ok s = Some s' \<Longrightarrow> work_left s' < work_left s"
  by (cases "rpc s") (auto simp: child_entry_def work_left_def split: if_splits)

lemma work_deliver: "deliver_usr1 s = Some s' \<Longrightarrow> work_left s' < work_left s"
  by (cases "rpc s"; cases "handled s")
    (auto simp: deliver_usr1_def handle_usr1_def work_left_def split: if_splits)

lemma work_step: "uinv s \<Longrightarrow> ustep ok s s' \<Longrightarrow> work_left s' < work_left s"
  by (erule ustep.cases) (auto intro: work_parent work_child work_deliver)

lemma usr1_wf: "wf {(s', s). signalling ok ppid cpid s \<and> ustep ok s s'}"
  by (rule wf_subset [OF wf_measure [of work_left]]) (auto intro!: work_step [OF usr1.reachable_inv])

lemma stuck_usr1:
  assumes "\<nexists>s'. ustep ok s s'"
  shows "(spc s = S_Done \<or> spc s = S_Wait \<and> status s = None) \<and> (rpc s = R_Pause \<or> rpc s = R_Gone) \<and>
    (pending s \<longrightarrow> rpc s = R_Gone)"
proof -
  have "parent_entry s = None" "child_entry ok s = None" "deliver_usr1 s = None"
    using assms ustep.intros by (metis not_None_eq)+
  then show ?thesis
    by (cases "spc s"; cases "rpc s")
      (auto simp: parent_entry_def child_entry_def deliver_usr1_def split: option.splits if_splits)
qed

section \<open>Properties\<close>

text \<open>
  C19: Every run of the two processes is finite, and it ends in one of three ways: the child
  exits with 8 after five handled signals and the parent has reaped it; a signal that came
  before \<open>sigaction\<close> took effect kills the child; or the child is in \<open>pause\<close> with no signal
  left to come, and the parent waits for it for ever.
\<close>

theorem usr1_outcomes:
  "wf {(s', s). signalling ok ppid cpid s \<and> ustep ok s s'} \<and>
   (signalling ok ppid cpid s \<and> (\<nexists>s'. ustep ok s s') \<longrightarrow>
      spc s = S_Done \<and> status s = Some (wait_status (Exit EXIT_VALUE)) \<and> rcount s = 5 \<or>
      spc s = S_Done \<and> status s = Some (word_of_int SIGUSR1) \<and> \<not> handled s \<or>
      spc s = S_Wait \<and> rpc s = R_Pause \<and> \<not> pending s \<and> status s = None)"
proof (intro conjI impI usr1_wf)
  assume s: "signalling ok ppid cpid s \<and> (\<nexists>s'. ustep ok s s')"
  then have "uinv s" using usr1.reachable_inv by blast
  with stuck_usr1 [of ok s] s
  show "spc s = S_Done \<and> status s = Some (wait_status (Exit EXIT_VALUE)) \<and> rcount s = 5 \<or>
      spc s = S_Done \<and> status s = Some (word_of_int SIGUSR1) \<and> \<not> handled s \<or>
      spc s = S_Wait \<and> rpc s = R_Pause \<and> \<not> pending s \<and> status s = None"
    by (cases "status s") (auto simp: uinv_def receiver_ok_def end_ok_def)
qed

text \<open>Schedules, to build runs.\<close>

datatype turn = Parent | Child | Deliver

fun run_usr :: "turn list \<Rightarrow> usr \<Rightarrow> usr option" where
  "run_usr [] s = Some s"
| "run_usr (Parent # ts) s = (case parent_entry s of None \<Rightarrow> None | Some u \<Rightarrow> run_usr ts u)"
| "run_usr (Child # ts) s = (case child_entry True s of None \<Rightarrow> None | Some u \<Rightarrow> run_usr ts u)"
| "run_usr (Deliver # ts) s = (case deliver_usr1 s of None \<Rightarrow> None | Some u \<Rightarrow> run_usr ts u)"

lemma run_usr_reachable:
  "run_usr ts s = Some s' \<Longrightarrow> signalling True p c s \<Longrightarrow> signalling True p c s'"
  by (induction ts s rule: run_usr.induct)
    (auto split: option.splits intro: reachable.reach_step ustep.intros)

definition one_round :: "turn list" where
  "one_round = [Parent, Parent, Parent, Deliver, Child, Child]"

text \<open>The fifth signal is delivered between the child's test and its \<open>pause\<close>.\<close>

definition unlucky :: "turn list" where
  "unlucky = [Child, Child, Child] @ one_round @ one_round @ one_round @
     [Parent, Parent, Parent, Deliver, Child, Parent, Parent, Parent, Deliver, Child, Parent]"

text \<open>
  C20: The third end is possible: testing the count and calling \<open>pause\<close> is not one step, and a
  fifth signal delivered between the two is counted but wakes nobody. Child and parent then
  hang, the count being 5.
\<close>

theorem usr1_can_hang:
  "\<exists>s. signalling True ppid cpid s \<and> (\<nexists>s'. ustep True s s') \<and>
     spc s = S_Wait \<and> rpc s = R_Pause \<and> rcount s = 5 \<and> status s = None"
proof -
  obtain s where s: "run_usr unlucky (ustart ppid cpid) = Some s"
      "spc s = S_Wait" "rpc s = R_Pause" "rcount s = 5" "status s = None" "\<not> pending s"
    by (simp add: unlucky_def one_round_def ustart_def parent_entry_def child_entry_def
        deliver_usr1_def handle_usr1_def)
  moreover have "signalling True ppid cpid s"
    by (rule run_usr_reachable [OF s(1)]) (simp add: reachable.reach_init)
  moreover have "\<not> ustep True s s'" for s'
    using s by (auto elim!: ustep.cases simp: parent_entry_def child_entry_def deliver_usr1_def)
  ultimately show ?thesis by blast
qed

text \<open>A schedule in which each signal wakes the child, to instantiate the outcomes.\<close>

definition lucky :: "turn list" where
  "lucky = [Child, Child, Child] @ one_round @ one_round @ one_round @ one_round @
     [Parent, Parent, Parent, Deliver, Child, Parent, Parent]"

theorem usr1_outcomes_witness:
  "\<exists>s. signalling True 1 2 s \<and> (\<nexists>s'. ustep True s s') \<and> spc s = S_Done \<and>
     status s = Some (wait_status (Exit EXIT_VALUE)) \<and> rcount s = 5"
proof -
  obtain s where s: "run_usr lucky (ustart 1 2) = Some s" "spc s = S_Done" "rpc s = R_Gone" "handled s"
    by (simp add: lucky_def one_round_def ustart_def parent_entry_def child_entry_def
        deliver_usr1_def handle_usr1_def)
  have reach: "signalling True 1 2 s"
    by (rule run_usr_reachable [OF s(1)]) (simp add: reachable.reach_init)
  have stuck: "\<nexists>s'. ustep True s s'"
    using s by (auto elim!: ustep.cases simp: parent_entry_def child_entry_def deliver_usr1_def)
  from usr1_outcomes [of 1 2 True s] reach stuck s show ?thesis by auto
qed

section \<open>main\<close>

definition main_usr1 :: "int \<Rightarrow> int \<Rightarrow> (log_call list \<times> outcome) + usr" where
  "main_usr1 pid child_id =
     (if child_id < 0 then Inl ([log_error_ne ''Fork failure'' []], Returns (-1))
      else Inr (ustart pid child_id))"

end
