(* ===== verification/TaskQueue.thy ===== *)
theory TaskQueue
  imports StrUtils Log ErrorHandler
begin

text \<open>
  \<open>7-Queue\<close>: dispatchers that send a task with a priority to a POSIX message queue, and the
  worker that takes the tasks out and prints them, until a SIGINT. The queue behaves as
  \<open>mq_overview\<close> documents: highest priority first, oldest first within a priority; a name that is
  unlinked cannot be opened any more. A dispatcher may be stopped between \<open>mq_open\<close> and \<open>mq_send\<close>,
  the worker between any two of its calls, and a SIGINT reaches the worker anywhere. Printed means
  handed to \<open>printf\<close>: what standard output buffers is not modelled.
\<close>

section \<open>The queue\<close>

record mq =
  mq_maxmsg :: nat
  mq_msgsize :: nat
  msgs :: "(nat \<times> string) list"

definition MQ_PRIO_MAX :: nat where
  "MQ_PRIO_MAX = 32768"

fun enqueue :: "nat \<times> string \<Rightarrow> (nat \<times> string) list \<Rightarrow> (nat \<times> string) list" where
  "enqueue x [] = [x]"
| "enqueue x (y # ys) = (if fst x \<le> fst y then y # enqueue x ys else x # y # ys)"

datatype send_result = SendFails | SendBlocks | Sent mq

definition mq_send :: "mq \<Rightarrow> string \<Rightarrow> u32 \<Rightarrow> send_result" where
  "mq_send q m prio =
     (if mq_msgsize q < length m \<or> MQ_PRIO_MAX \<le> unat prio then SendFails
      else if mq_maxmsg q \<le> length (msgs q) then SendBlocks
      else Sent (q\<lparr>msgs := enqueue (unat prio, m) (msgs q)\<rparr>))"

section \<open>dispatcher\<close>

text \<open>
  The dispatcher up to \<open>mq_open\<close>, which may end it, and from \<open>mq_send\<close> on. \<open>None\<close> is undefined
  behaviour. An argument of the program is a C string, with its NUL.
\<close>

datatype opened = Quit "log_call list" outcome | Ready u32 string

definition dispatcher_open :: "string option \<Rightarrow> bool \<Rightarrow> string list \<Rightarrow> opened option" where
  "dispatcher_open dumpcore open_ok args =
     (case args of
        [prog, a1, a2] \<Rightarrow>
          (case str_to_int (Some (a1 @ [NUL])) (word_of_nat (length a1)) of
             None \<Rightarrow> None
           | Some prio \<Rightarrow>
               Some (if prio = INT32_MAX
                     then Quit [log_error ''Invalid priority value'' []]
                            (Ends (terminate dumpcore EXIT_FAILURE False))
                     else if \<not> open_ok then Quit [log_error_ne ''mq_open'' []] (Returns 1)
                     else Ready prio a2))
      | _ \<Rightarrow> Some (Quit [log_error ''Usage: %s <priority> <task description>''
                      [ArgS (case args of [] \<Rightarrow> ''(null)'' | prog # _ \<Rightarrow> prog)]]
                    (Ends (terminate dumpcore EXIT_FAILURE False))))"

datatype dispatch = Over outcome | Blocked

definition dispatcher_send :: "u32 \<Rightarrow> string \<Rightarrow> mq \<Rightarrow> log_call list \<times> dispatch \<times> mq" where
  "dispatcher_send prio m q =
     (case mq_send q m prio of
        SendFails \<Rightarrow> ([log_error_ne ''mq_send'' []], Over (Returns 1), q)
      | SendBlocks \<Rightarrow> ([], Blocked, q)
      | Sent q' \<Rightarrow> ([], Over (Returns 0), q'))"

definition main_dispatcher :: "string option \<Rightarrow> bool \<Rightarrow> string list \<Rightarrow> mq \<Rightarrow>
    (log_call list \<times> dispatch \<times> mq) option" where
  "main_dispatcher dumpcore open_ok args q =
     (case dispatcher_open dumpcore open_ok args of
        None \<Rightarrow> None
      | Some (Quit l e) \<Rightarrow> Some (l, Over e, q)
      | Some (Ready prio m) \<Rightarrow> Some (dispatcher_send prio m q))"

section \<open>worker\<close>

datatype worker_pc =
    AtTest          \<comment> \<open>at \<open>while (is_running)\<close>\<close>
  | AtReceive       \<comment> \<open>at \<open>mq_receive\<close>\<close>
  | AtTerminate     \<comment> \<open>about to write the NUL\<close>
  | AtPrint         \<comment> \<open>about to print\<close>
  | AtClose         \<comment> \<open>behind the loop: \<open>free\<close>, \<open>mq_close\<close>\<close>
  | AtUnlink        \<comment> \<open>about to unlink the name\<close>

datatype worker_end = InLoop | Left | KilledByInt | FailedInHandler ending

text \<open>
  The queue, the dispatchers that have opened it and not yet sent, and the worker. The queue
  outlives its name as long as somebody has it open. \<open>accepted\<close> and \<open>in_hand\<close> only record what
  was sent, and what was received and is not yet printed: no step reads them.
\<close>

record qsys =
  queue :: mq
  linked :: bool                  \<comment> \<open>the name of the queue exists\<close>
  clients :: "(u32 \<times> string) list"
  accepted :: "(nat \<times> string) list"
  is_running :: bool
  caught :: bool                  \<comment> \<open>SIGINT has the handler\<close>
  wpc :: worker_pc
  cells :: string                 \<comment> \<open>the memory of \<open>malloc(attr.mq_msgsize)\<close>\<close>
  prio_read :: nat
  bytes_read :: nat
  in_hand :: "(nat \<times> string) list"
  printed :: "(nat \<times> string) list"
  life :: worker_end
  wlogs :: "log_call list"

text \<open>\<open>mq_receive\<close> copies a message to the start of the buffer; \<open>buffer[bytes_read] = '\0'\<close>.\<close>

definition receive :: "string \<Rightarrow> string \<Rightarrow> string" where
  "receive mem m = m @ drop (length m) mem"

definition put_nul :: "string \<Rightarrow> nat \<Rightarrow> string option" where
  "put_nul mem n = (if n < length mem then Some (mem[n := NUL]) else None)"

text \<open>
  What \<open>mq_receive\<close> does: its work, which is to fail with \<open>EAGAIN\<close> on an empty queue, or to be
  interrupted, or to fail otherwise. It fails if the buffer is smaller than a message may be.
\<close>

datatype recv = Works | Interrupted | Fails

definition receive_fails :: "qsys \<Rightarrow> qsys" where
  "receive_fails s = s\<lparr>wpc := AtClose, wlogs := wlogs s @ [log_error_ne ''mq_receive'' []]\<rparr>"

definition worker_step :: "recv \<Rightarrow> qsys \<Rightarrow> qsys option" where
  "worker_step r s =
     (if life s \<noteq> InLoop then Some s
      else (case wpc s of
              AtTest \<Rightarrow> Some (s\<lparr>wpc := if is_running s then AtReceive else AtClose\<rparr>)
            | AtReceive \<Rightarrow>
                Some (case r of
                        Fails \<Rightarrow> receive_fails s
                      | Interrupted \<Rightarrow> s\<lparr>wpc := AtTest\<rparr>
                      | Works \<Rightarrow>
                          (if length (cells s) < mq_msgsize (queue s) then receive_fails s
                           else (case msgs (queue s) of
                                   [] \<Rightarrow> s\<lparr>wpc := AtTest\<rparr>
                                 | (prio, m) # ms \<Rightarrow>
                                     s\<lparr>queue := (queue s)\<lparr>msgs := ms\<rparr>, cells := receive (cells s) m,
                                       prio_read := prio, bytes_read := length m,
                                       in_hand := [(prio, m)], wpc := AtTerminate\<rparr>)))
            | AtTerminate \<Rightarrow>
                (case put_nul (cells s) (bytes_read s) of
                   None \<Rightarrow> None
                 | Some b \<Rightarrow> Some (s\<lparr>cells := b, wpc := AtPrint\<rparr>))
            | AtPrint \<Rightarrow>
                Some (s\<lparr>printed := printed s @ [(prio_read s, cstr (cells s))], in_hand := [], wpc := AtTest\<rparr>)
            | AtClose \<Rightarrow> Some (s\<lparr>wpc := AtUnlink\<rparr>)
            | AtUnlink \<Rightarrow> Some (s\<lparr>linked := False, life := Left\<rparr>)))"

text \<open>The handler runs with all signals blocked; \<open>signal_ok\<close> if its call of \<open>signal\<close> succeeds.\<close>

definition sigint_handler :: "string option \<Rightarrow> bool \<Rightarrow> qsys \<Rightarrow> qsys" where
  "sigint_handler dumpcore signal_ok s =
     (let s = s\<lparr>is_running := False,
                wlogs := wlogs s @ [log_info ''SIGINT received, shutting down gracefully...'' []]\<rparr>
      in if signal_ok then s\<lparr>caught := False\<rparr>
         else s\<lparr>wlogs := wlogs s @ [log_error_ne ''signal failure'' []],
                life := FailedInHandler (terminate dumpcore EXIT_FAILURE True)\<rparr>)"

text \<open>A SIGINT to the worker, wherever it is.\<close>

definition interrupt :: "string option \<Rightarrow> bool \<Rightarrow> qsys \<Rightarrow> qsys" where
  "interrupt dumpcore signal_ok s =
     (if life s \<noteq> InLoop then s
      else if caught s then sigint_handler dumpcore signal_ok s
      else s\<lparr>life := KilledByInt\<rparr>)"

section \<open>Both together\<close>

text \<open>
  A dispatcher starts and gets as far as \<open>mq_open\<close>; the \<open>i\<close>-th of those that have the queue open
  calls \<open>mq_send\<close>, and stays if it blocks.
\<close>

definition arrive :: "string list \<Rightarrow> qsys \<Rightarrow> qsys option" where
  "arrive args s =
     (case dispatcher_open None (linked s) args of
        None \<Rightarrow> None
      | Some (Quit _ _) \<Rightarrow> Some s
      | Some (Ready prio m) \<Rightarrow> Some (s\<lparr>clients := clients s @ [(prio, m)]\<rparr>))"

definition send :: "nat \<Rightarrow> qsys \<Rightarrow> qsys" where
  "send i s =
     (if i < length (clients s)
      then (let (prio, m) = clients s ! i
            in case dispatcher_send prio m (queue s) of
                 (_, Blocked, _) \<Rightarrow> s
               | (_, Over e, q) \<Rightarrow>
                   s\<lparr>queue := q, clients := take i (clients s) @ drop (Suc i) (clients s),
                     accepted := accepted s @ (if e = Returns 0 then [(unat prio, m)] else [])\<rparr>)
      else s)"

datatype qevent = Arrive "string list" | Send nat | Step recv | Interrupt bool

fun qstep :: "qevent \<Rightarrow> qsys \<Rightarrow> qsys option" where
  "qstep (Arrive args) s = arrive args s"
| "qstep (Send i) s = Some (send i s)"
| "qstep (Step r) s = worker_step r s"
| "qstep (Interrupt ok) s = Some (interrupt None ok s)"

fun qrun :: "qevent list \<Rightarrow> qsys \<Rightarrow> qsys option" where
  "qrun [] s = Some s"
| "qrun (e # es) s = (case qstep e s of None \<Rightarrow> None | Some s' \<Rightarrow> qrun es s')"

lemma qrun_append: "qrun (xs @ ys) s = (case qrun xs s of None \<Rightarrow> None | Some t \<Rightarrow> qrun ys t)"
  by (induction xs arbitrary: s) (auto split: option.splits)

text \<open>
  The worker up to its loop, by what \<open>sigaction\<close>, \<open>mq_open\<close>, \<open>mq_getattr\<close> and \<open>malloc\<close> give.
\<close>

record worker_answers =
  sigaction_r :: bool
  mq_open_r :: bool
  mq_getattr_r :: bool
  malloc_r :: "string option"

definition main_worker :: "string option \<Rightarrow> worker_answers \<Rightarrow> mq \<Rightarrow> (log_call list \<times> outcome) + qsys" where
  "main_worker dumpcore a q =
     (let fail = (\<lambda>l. Inl ([l], Ends (terminate dumpcore EXIT_FAILURE True)))
      in if \<not> sigaction_r a then fail (log_error_ne ''Error: cannot handle SIGINT'' [])
         else if \<not> mq_open_r a then fail (log_error_ne ''mq_open'' [])
         else if \<not> mq_getattr_r a then fail (log_error_ne ''mq_getattr'' [])
         else (case malloc_r a of
                 None \<Rightarrow> fail (log_error_ne ''malloc'' [])
               | Some mem \<Rightarrow>
                   Inr \<lparr>queue = q, linked = True, clients = [], accepted = [], is_running = True, caught = True,
                        wpc = AtTest, cells = mem, prio_read = 0, bytes_read = 0, in_hand = [], printed = [],
                        life = InLoop, wlogs = []\<rparr>))"

section \<open>Order\<close>

abbreviation urgency :: "nat \<times> string \<Rightarrow> int" where
  "urgency x \<equiv> - int (fst x)"

definition by_priority :: "(nat \<times> string) list \<Rightarrow> bool" where
  "by_priority xs \<longleftrightarrow> sorted (map urgency xs)"

lemma set_enqueue [simp]: "set (enqueue x xs) = insert x (set xs)"
  by (induction xs) auto

lemma mset_enqueue [simp]: "mset (enqueue x xs) = add_mset x (mset xs)"
  by (induction xs) auto

lemma length_enqueue [simp]: "length (enqueue x xs) = Suc (length xs)"
  by (induction xs) auto

lemma enqueue_by_priority: "by_priority xs \<Longrightarrow> by_priority (enqueue x xs)"
  by (induction xs) (auto simp: by_priority_def)

lemma enqueue_same_priority:
  "by_priority xs \<Longrightarrow>
    filter (\<lambda>y. urgency y = k) (enqueue x xs) =
    filter (\<lambda>y. urgency y = k) xs @ (if urgency x = k then [x] else [])"
proof (induction xs)
  case (Cons y ys)
  show ?case
  proof (cases "fst x \<le> fst y")
    case False
    have "urgency z \<noteq> k" if "z \<in> set (y # ys)" "urgency x = k" for z
    proof -
      have "urgency y \<le> urgency z" using Cons.prems that(1) by (auto simp: by_priority_def)
      then show ?thesis using False that(2) by simp
    qed
    then have "filter (\<lambda>y. urgency y = k) (y # ys) = []" if "urgency x = k"
      using that by (simp add: filter_empty_conv)
    with False show ?thesis by auto
  next
    case True
    then show ?thesis using Cons by (simp add: by_priority_def)
  qed
qed simp

text \<open>
  What the programs rely on: a message is added, the messages stay in order of their urgency, and
  those of one urgency in the order they came. Then messages that came one after the other stand
  in the order of a stable sort.
\<close>

locale message_queue =
  fixes put :: "'m \<Rightarrow> 'm list \<Rightarrow> 'm list" and key :: "'m \<Rightarrow> 'k :: linorder"
  assumes put_mset: "mset (put x xs) = add_mset x (mset xs)"
    and put_sorted: "sorted (map key xs) \<Longrightarrow> sorted (map key (put x xs))"
    and put_last: "sorted (map key xs) \<Longrightarrow>
      filter (\<lambda>y. key y = k) (put x xs) = filter (\<lambda>y. key y = k) xs @ (if key x = k then [x] else [])"
begin

lemma fold_put:
  "sorted (map key ys) \<Longrightarrow> sorted (map key (fold put xs ys)) \<and> mset (fold put xs ys) = mset xs + mset ys \<and>
    filter (\<lambda>y. key y = k) (fold put xs ys) = filter (\<lambda>y. key y = k) ys @ filter (\<lambda>y. key y = k) xs"
proof (induction xs arbitrary: ys)
  case (Cons x xs)
  from Cons.IH [OF put_sorted [OF Cons.prems, of x]] show ?case
    by (simp add: put_mset put_last [OF Cons.prems])
qed simp

lemma fold_put_sorts: "fold put xs [] = sort_key key xs"
proof (rule sym, rule properties_for_sort_key)
  show "mset (fold put xs []) = mset xs" using fold_put [of "[]" xs] by simp
  show "sorted (map key (fold put xs []))" using fold_put [of "[]" xs] by simp
  show "filter (\<lambda>x. key k = key x) (fold put xs []) = filter (\<lambda>x. key k = key x) xs" for k
    using fold_put [of "[]" xs "key k"] by (simp add: eq_commute [of _ "key k"])
qed

end

interpretation posix: message_queue enqueue urgency
  using enqueue_by_priority enqueue_same_priority by unfold_locales (simp_all add: by_priority_def)

section \<open>The dispatcher's priority\<close>

definition plain :: "string \<Rightarrow> bool" where
  "plain s \<longleftrightarrow> NUL \<notin> set s \<and> length s < 4294967296"

lemma parse_priority:
  assumes "plain s" "s \<noteq> []"
  shows "str_to_int (Some (s @ [NUL])) (word_of_nat (length s)) = Some (int_of_str s)"
proof -
  have len: "unat (word_of_nat (length s) :: u32) = length s"
    using assms(1) by (simp add: plain_def unat_of_nat take_bit_nat_eq_self)
  then have "(0 :: u32) < word_of_nat (length s)" using assms(2) by (simp add: word_less_nat_alt)
  from str_to_int_eq [OF _ this, of "s @ [NUL]"] len assms(1) show ?thesis by (simp add: plain_def)
qed

definition good_task :: "nat \<times> string \<Rightarrow> bool" where
  "good_task x \<longleftrightarrow> fst x < MQ_PRIO_MAX \<and> NUL \<notin> set (snd x)"

text \<open>The command line for a task.\<close>

definition task_args :: "nat \<times> string \<Rightarrow> string list" where
  "task_args x = [''dispatcher'', show_nat (fst x), snd x]"

lemma open_good:
  assumes "good_task x"
  shows "dispatcher_open d True (task_args x) = Some (Ready (word_of_nat (fst x)) (snd x))"
    and "unat (word_of_nat (fst x) :: u32) = fst x"
proof -
  have prio: "fst x < 32768" using assms by (simp add: good_task_def MQ_PRIO_MAX_def)
  have "length (show_nat (fst x)) \<le> Suc 4" by (rule length_show_nat) (use prio in simp)
  then have "plain (show_nat (fst x))" by (simp add: plain_def show_nat_no_NUL)
  from parse_priority [OF this show_nat_nonempty]
  have parse: "str_to_int (Some (show_nat (fst x) @ [NUL])) (word_of_nat (length (show_nat (fst x)))) =
      Some (int_of_str (show_nat (fst x)))" .
  have val: "int_of_str (show_nat (fst x)) = word_of_nat (fst x)"
    using int_of_show_int [of "int (fst x)"] by (simp add: show_int_def)
  show u: "unat (word_of_nat (fst x) :: u32) = fst x"
    using prio by (intro unat_of_nat_lt [of _ 32768]) simp_all
  then have "(word_of_nat (fst x) :: u32) \<noteq> INT32_MAX" using prio by (auto simp: word_unat_eq_iff)
  with parse val show "dispatcher_open d True (task_args x) = Some (Ready (word_of_nat (fst x)) (snd x))"
    by (simp add: dispatcher_open_def task_args_def)
qed

text \<open>A dispatcher that is alone and finds room.\<close>

definition dispatch_task :: "nat \<times> string \<Rightarrow> qevent list" where
  "dispatch_task x = [Arrive (task_args x), Send 0]"

lemma dispatch_good:
  assumes "good_task x" "linked s" "clients s = []" "length (snd x) \<le> mq_msgsize (queue s)"
    and "length (msgs (queue s)) < mq_maxmsg (queue s)"
  shows "qrun (dispatch_task x @ es) s = qrun es
    (s\<lparr>queue := (queue s)\<lparr>msgs := enqueue x (msgs (queue s))\<rparr>, accepted := accepted s @ [x]\<rparr>)"
proof -
  let ?p = "word_of_nat (fst x) :: u32"
  have "fst x < MQ_PRIO_MAX" using assms(1) by (simp add: good_task_def)
  then have "mq_send (queue s) (snd x) ?p = Sent ((queue s)\<lparr>msgs := enqueue x (msgs (queue s))\<rparr>)"
    using assms(4,5) open_good(2) [OF assms(1)] by (simp add: mq_send_def)
  then have "send 0 (s\<lparr>clients := [(?p, snd x)]\<rparr>) =
      s\<lparr>queue := (queue s)\<lparr>msgs := enqueue x (msgs (queue s))\<rparr>, accepted := accepted s @ [x]\<rparr>"
    using assms(3) open_good(2) [OF assms(1)] by (simp add: send_def dispatcher_send_def)
  then show ?thesis
    using assms(2,3) open_good(1) [OF assms(1), of None] by (simp add: dispatch_task_def arrive_def)
qed

lemma dispatch_all:
  assumes "\<forall>x \<in> set xs. good_task x \<and> length (snd x) \<le> mq_msgsize (queue s)"
    and "linked s" and "clients s = []" and "length (msgs (queue s)) + length xs \<le> mq_maxmsg (queue s)"
  shows "qrun (concat (map dispatch_task xs) @ es) s =
    qrun es (s\<lparr>queue := (queue s)\<lparr>msgs := fold enqueue xs (msgs (queue s))\<rparr>, accepted := accepted s @ xs\<rparr>)"
  using assms
proof (induction xs arbitrary: s)
  case (Cons x xs)
  let ?t = "s\<lparr>queue := (queue s)\<lparr>msgs := enqueue x (msgs (queue s))\<rparr>, accepted := accepted s @ [x]\<rparr>"
  have "qrun (dispatch_task x @ (concat (map dispatch_task xs) @ es)) s =
      qrun (concat (map dispatch_task xs) @ es) ?t"
    using Cons.prems by (intro dispatch_good) auto
  also have "\<dots> = qrun es (?t\<lparr>queue := (queue ?t)\<lparr>msgs := fold enqueue xs (msgs (queue ?t))\<rparr>, accepted := accepted ?t @ xs\<rparr>)"
    using Cons.prems by (intro Cons.IH) auto
  finally show ?case by simp
qed simp

section \<open>The worker\<close>

lemma cstr_terminated: "NUL \<notin> set m \<Longrightarrow> cstr (m @ NUL # r) = m"
  by (induction m) auto

lemma put_nul_cstr:
  assumes "put_nul b n = Some b'" "take n b = m" "NUL \<notin> set m"
  shows "cstr b' = m" "length b' = length b"
proof -
  have n: "n < length b" and b': "b' = b[n := NUL]"
    using assms(1) by (auto simp: put_nul_def split: if_splits)
  then show "length b' = length b" by simp
  have "b' = take n b @ NUL # drop (Suc n) b" unfolding b' using n by (rule upd_conv_take_nth_drop)
  then show "cstr b' = m" using assms(2,3) by (simp add: cstr_terminated)
qed

text \<open>Four steps of the worker print a task.\<close>

definition one_turn :: "qevent list" where
  "one_turn = replicate 4 (Step Works)"

lemma turn_prints:
  assumes "life s = InLoop" "is_running s" "wpc s = AtTest" "mq_msgsize (queue s) \<le> length (cells s)"
    and "msgs (queue s) = x # ms" and "length (snd x) < length (cells s)" "NUL \<notin> set (snd x)"
  shows "\<exists>b. length b = length (cells s) \<and> qrun (one_turn @ es) s = qrun es
    (s\<lparr>queue := (queue s)\<lparr>msgs := ms\<rparr>, prio_read := fst x, bytes_read := length (snd x), cells := b,
       printed := printed s @ [x], in_hand := [], wpc := AtTest\<rparr>)"
proof -
  obtain p m where x: "x = (p, m)" by (cases x)
  let ?r = "receive (cells s) m"
  have len: "length ?r = length (cells s)" using assms(6) x by (simp add: receive_def)
  then obtain b where b: "put_nul ?r (length m) = Some b" using assms(6) x by (simp add: put_nul_def)
  from put_nul_cstr [OF this, of m] assms(7) x have "cstr b = m" "length b = length (cells s)"
    using len by (simp_all add: receive_def)
  then show ?thesis
    using assms b x by (intro exI [of _ b])
      (simp add: one_turn_def numeral_eq_Suc worker_step_def not_less [symmetric])
qed

lemma drain:
  assumes "life s = InLoop" "is_running s" "wpc s = AtTest" "in_hand s = []"
    and "mq_msgsize (queue s) \<le> length (cells s)"
    and "\<forall>x \<in> set (msgs (queue s)). length (snd x) < length (cells s) \<and> NUL \<notin> set (snd x)"
  shows "\<exists>t. qrun (concat (replicate (length (msgs (queue s))) one_turn)) s = Some t \<and>
    msgs (queue t) = [] \<and> printed t = printed s @ msgs (queue s)"
  using assms
proof (induction "msgs (queue s)" arbitrary: s)
  case Nil
  then show ?case by simp
next
  case (Cons x xs)
  have x: "length (snd x) < length (cells s)" "NUL \<notin> set (snd x)"
    and xs: "\<forall>y \<in> set xs. length (snd y) < length (cells s) \<and> NUL \<notin> set (snd y)"
    using Cons.prems(6) unfolding Cons.hyps(2) [symmetric] by simp_all
  from turn_prints [OF Cons.prems(1,2,3,5) Cons.hyps(2) [symmetric] x]
  obtain b where b: "length b = length (cells s)"
    "qrun (one_turn @ concat (replicate (length xs) one_turn)) s = qrun (concat (replicate (length xs) one_turn))
      (s\<lparr>queue := (queue s)\<lparr>msgs := xs\<rparr>, prio_read := fst x, bytes_read := length (snd x), cells := b,
         printed := printed s @ [x], in_hand := [], wpc := AtTest\<rparr>)" (is "_ = qrun _ ?t") by blast
  have "\<exists>t. qrun (concat (replicate (length (msgs (queue ?t))) one_turn)) ?t = Some t \<and>
      msgs (queue t) = [] \<and> printed t = printed ?t @ msgs (queue ?t)"
    by (rule Cons.hyps(1)) (use Cons.prems xs b(1) in simp_all)
  with b(2) show ?case unfolding Cons.hyps(2) [symmetric] by simp
qed

section \<open>Conservation\<close>

definition event_ok :: "qevent \<Rightarrow> bool" where
  "event_ok e \<longleftrightarrow> (case e of Arrive args \<Rightarrow> \<forall>a \<in> set args. NUL \<notin> set a | _ \<Rightarrow> True)"

text \<open>What the worker has taken out of the queue and how far it is with it.\<close>

fun hand_ok :: "worker_pc \<Rightarrow> nat \<Rightarrow> nat \<Rightarrow> string \<Rightarrow> (nat \<times> string) list \<Rightarrow> bool" where
  "hand_ok AtTerminate p n b h \<longleftrightarrow> h = [(p, take n b)] \<and> NUL \<notin> set (take n b)"
| "hand_ok AtPrint p n b h \<longleftrightarrow> h = [(p, cstr b)]"
| "hand_ok _ p n b h \<longleftrightarrow> h = []"

definition qinv :: "qsys \<Rightarrow> bool" where
  "qinv s \<longleftrightarrow> by_priority (msgs (queue s)) \<and> length (msgs (queue s)) \<le> mq_maxmsg (queue s) \<and>
     (\<forall>x \<in> set (msgs (queue s)). NUL \<notin> set (snd x)) \<and> (\<forall>x \<in> set (clients s). NUL \<notin> set (snd x)) \<and>
     mset (accepted s) = mset (printed s) + mset (in_hand s) + mset (msgs (queue s)) \<and>
     hand_ok (wpc s) (prio_read s) (bytes_read s) (cells s) (in_hand s) \<and>
     (linked s \<longleftrightarrow> life s \<noteq> Left) \<and> (life s = Left \<longrightarrow> wpc s = AtUnlink)"

lemma qinv_arrive:
  assumes "qinv s" "event_ok (Arrive args)" "arrive args s = Some s'"
  shows "qinv s'"
proof (cases "\<exists>prio m. dispatcher_open None (linked s) args = Some (Ready prio m)")
  case True
  then obtain prio m where r: "dispatcher_open None (linked s) args = Some (Ready prio m)" by blast
  then have "m \<in> set args"
    by (auto simp: dispatcher_open_def split: list.splits option.splits if_splits)
  then have "NUL \<notin> set m" using assms(2) by (simp add: event_ok_def)
  with assms(1,3) r show ?thesis by (auto simp: arrive_def qinv_def)
next
  case False
  then have "s' = s" using assms(3) by (auto simp: arrive_def split: option.splits opened.splits)
  with assms(1) show ?thesis by simp
qed

lemma qinv_send:
  assumes "qinv s"
  shows "qinv (send i s)"
proof (cases "i < length (clients s)")
  case True
  obtain prio m where c: "clients s ! i = (prio, m)" by (cases "clients s ! i")
  then have m: "NUL \<notin> set m" using True assms by (auto simp: qinv_def dest!: nth_mem)
  have cl: "\<forall>x \<in> set (take i (clients s) @ drop (Suc i) (clients s)). NUL \<notin> set (snd x)"
    using assms by (auto simp: qinv_def dest: in_set_takeD in_set_dropD)
  show ?thesis
  proof (cases "mq_send (queue s) m prio")
    case SendFails
    then show ?thesis using True c cl assms by (simp add: send_def dispatcher_send_def qinv_def)
  next
    case SendBlocks
    then show ?thesis using True c assms by (simp add: send_def dispatcher_send_def)
  next
    case (Sent q)
    then have q: "q = (queue s)\<lparr>msgs := enqueue (unat prio, m) (msgs (queue s))\<rparr>"
        "length (msgs (queue s)) < mq_maxmsg (queue s)"
      by (auto simp: mq_send_def split: if_splits)
    then show ?thesis
      using True c cl m assms Sent
      by (simp add: send_def dispatcher_send_def qinv_def enqueue_by_priority)
  qed
qed (use assms in \<open>simp add: send_def\<close>)

lemma qinv_worker:
  assumes inv: "qinv s" and step: "worker_step r s = Some s'"
  shows "qinv s'"
proof (cases "life s = InLoop")
  case True
  show ?thesis
  proof (cases "wpc s")
    case AtReceive
    show ?thesis
    proof (cases "r = Works \<and> \<not> length (cells s) < mq_msgsize (queue s) \<and> msgs (queue s) \<noteq> []")
      case True
      then obtain p m ms where ms: "msgs (queue s) = (p, m) # ms" by (cases "msgs (queue s)") auto
      then have "s' = s\<lparr>queue := (queue s)\<lparr>msgs := ms\<rparr>, cells := receive (cells s) m, prio_read := p,
          bytes_read := length m, in_hand := [(p, m)], wpc := AtTerminate\<rparr>"
        using True AtReceive step \<open>life s = InLoop\<close> by (simp add: worker_step_def)
      then show ?thesis using inv ms AtReceive by (simp add: qinv_def by_priority_def receive_def)
    next
      case False
      then have "s' = receive_fails s \<or> s' = s\<lparr>wpc := AtTest\<rparr>"
        using AtReceive step \<open>life s = InLoop\<close> by (cases r) (auto simp: worker_step_def split: if_splits list.splits)
      then show ?thesis using inv AtReceive \<open>life s = InLoop\<close> by (auto simp: qinv_def receive_fails_def)
    qed
  next
    case AtTerminate
    then obtain b where b: "put_nul (cells s) (bytes_read s) = Some b" "s' = s\<lparr>cells := b, wpc := AtPrint\<rparr>"
      using step True by (auto simp: worker_step_def split: option.splits)
    have "NUL \<notin> set (take (bytes_read s) (cells s))" using inv AtTerminate by (simp add: qinv_def)
    from put_nul_cstr(1) [OF b(1) refl this] show ?thesis
      using inv AtTerminate b(2) True by (simp add: qinv_def)
  qed (use inv step True in \<open>auto simp: worker_step_def qinv_def\<close>)
qed (use inv step in \<open>simp add: worker_step_def\<close>)

lemma qinv_interrupt: "qinv s \<Longrightarrow> qinv (interrupt d ok s)"
  by (simp add: interrupt_def sigint_handler_def qinv_def Let_def)

lemma qinv_step: "qinv s \<Longrightarrow> event_ok e \<Longrightarrow> qstep e s = Some t \<Longrightarrow> qinv t"
  using qinv_arrive [of s _ t] qinv_send [of s] qinv_worker [of s _ t] qinv_interrupt [of s]
  by (cases e) auto

lemma qinv_run: "qrun es s = Some s' \<Longrightarrow> \<forall>e \<in> set es. event_ok e \<Longrightarrow> qinv s \<Longrightarrow> qinv s'"
  by (induction es s rule: qrun.induct) (auto split: option.splits intro: qinv_step)

section \<open>Properties\<close>

definition empty_queue :: "nat \<Rightarrow> nat \<Rightarrow> mq" where
  "empty_queue maxmsg msgsize = \<lparr>mq_maxmsg = maxmsg, mq_msgsize = msgsize, msgs = []\<rparr>"

text \<open>The worker at the top of its loop, with the memory \<open>malloc\<close> gave it.\<close>

definition at_work :: "string \<Rightarrow> mq \<Rightarrow> qsys" where
  "at_work mem q = \<lparr>queue = q, linked = True, clients = [], accepted = [], is_running = True, caught = True,
     wpc = AtTest, cells = mem, prio_read = 0, bytes_read = 0, in_hand = [], printed = [],
     life = InLoop, wlogs = []\<rparr>"

lemma main_worker_at_work:
  "main_worker d \<lparr>sigaction_r = True, mq_open_r = True, mq_getattr_r = True, malloc_r = Some mem\<rparr> q =
    Inr (at_work mem q)"
  by (simp add: main_worker_def at_work_def)

text \<open>
  C17: Tasks dispatched to an idle worker are printed, each once and unchanged, most urgent
  first and in the order of their dispatch within a priority: a stable sort. The priority
  passes through its decimal notation. Each text must leave room for the NUL in the buffer.
\<close>

theorem queue_priority_order:
  assumes "main_worker d \<lparr>sigaction_r = True, mq_open_r = True, mq_getattr_r = True, malloc_r = Some mem\<rparr>
      (empty_queue maxmsg (length mem)) = Inr s"
    and "\<forall>x \<in> set xs. good_task x \<and> length (snd x) < length mem" and "length xs \<le> maxmsg"
  shows "\<exists>t. qrun (concat (map dispatch_task xs) @ concat (replicate (length xs) one_turn)) s = Some t \<and>
    printed t = sort_key urgency xs \<and> msgs (queue t) = []"
proof -
  have s: "s = at_work mem (empty_queue maxmsg (length mem))"
    using assms(1) by (simp add: main_worker_at_work)
  let ?u = "s\<lparr>queue := (queue s)\<lparr>msgs := sort_key urgency xs\<rparr>, accepted := accepted s @ xs\<rparr>"
  have "qrun (concat (map dispatch_task xs) @ concat (replicate (length xs) one_turn)) s =
      qrun (concat (replicate (length xs) one_turn)) ?u"
    using assms(2,3) dispatch_all [of xs s]
    by (simp add: s at_work_def empty_queue_def posix.fold_put_sorts less_imp_le)
  moreover have "\<exists>t. qrun (concat (replicate (length (msgs (queue ?u))) one_turn)) ?u = Some t \<and>
      msgs (queue t) = [] \<and> printed t = printed ?u @ msgs (queue ?u)"
    by (rule drain) (use assms(2) in \<open>auto simp: s at_work_def empty_queue_def good_task_def\<close>)
  ultimately show ?thesis by (auto simp: s at_work_def)
qed

theorem queue_priority_order_witness:
  "\<exists>t. printed t = [(7, ''b''), (7, ''c''), (0, ''a'')] \<and>
     qrun (concat (map dispatch_task [(0, ''a''), (7, ''b''), (7, ''c'')]) @ one_turn @ one_turn @ one_turn)
       (at_work ''....'' (empty_queue 10 (length ''....''))) = Some t"
  using queue_priority_order
    [of None "''....''" 10 "at_work ''....'' (empty_queue 10 (length ''....''))" "[(0, ''a''), (7, ''b''), (7, ''c'')]"]
  by (auto simp: main_worker_at_work good_task_def MQ_PRIO_MAX_def simp del: qrun.simps)

text \<open>What is still there to be received, and what is gone with the queue's name.\<close>

definition pending :: "qsys \<Rightarrow> (nat \<times> string) list" where
  "pending s = (if linked s then msgs (queue s) else [])"

definition discarded :: "qsys \<Rightarrow> (nat \<times> string) list" where
  "discarded s = (if linked s then [] else msgs (queue s))"

text \<open>
  C18: Whatever order dispatchers, the worker and SIGINTs take their steps in, and whatever
  \<open>mq_receive\<close> does: as long as the worker has not written behind its buffer, every accepted task
  was handed to \<open>printf\<close>, or is the one the worker has received and not yet printed, or is pending
  in the queue, or was discarded with the queue; none twice and none changed. A worker that left
  its loop has nothing in hand, but discards what is pending; one that was killed may have a task
  in hand, which is lost. The queue keeps its bound and its order.
\<close>

theorem queue_conserves_tasks:
  assumes "qrun es (at_work mem (empty_queue maxmsg (length mem))) = Some s"
    and "\<forall>e \<in> set es. event_ok e"
  shows "mset (accepted s) = mset (printed s) + mset (in_hand s) + mset (pending s) + mset (discarded s) \<and>
    length (in_hand s) \<le> 1 \<and> (life s = Left \<longrightarrow> in_hand s = [] \<and> pending s = []) \<and>
    (life s \<noteq> Left \<longrightarrow> discarded s = []) \<and>
    length (msgs (queue s)) \<le> mq_maxmsg (queue s) \<and> sorted (map urgency (msgs (queue s)))"
proof -
  have "qinv (at_work mem (empty_queue maxmsg (length mem)))"
    by (simp add: qinv_def at_work_def empty_queue_def by_priority_def)
  from qinv_run [OF assms this] have inv: "qinv s" .
  then have "length (in_hand s) \<le> 1" by (cases "wpc s") (simp_all add: qinv_def)
  with inv show ?thesis by (auto simp: qinv_def by_priority_def pending_def discarded_def)
qed

text \<open>
  Three tasks: the first is printed, the second received when a second SIGINT kills the worker,
  the third still pending.
\<close>

theorem queue_conserves_tasks_witness:
  "\<exists>s. qrun (concat (map dispatch_task [(5, ''a''), (3, ''b''), (1, ''c'')]) @ one_turn @
       [Step Works, Step Works, Interrupt True, Interrupt True])
       (at_work ''....'' (empty_queue 10 (length ''....''))) = Some s \<and>
     mset (accepted s) = mset (printed s) + mset (in_hand s) + mset (pending s) + mset (discarded s) \<and>
     printed s = [(5, ''a'')] \<and> in_hand s = [(3, ''b'')] \<and> pending s = [(1, ''c'')] \<and> life s = KilledByInt"
proof -
  let ?s = "at_work ''....'' (empty_queue 10 (length ''....''))"
  let ?tasks = "[(5, ''a''), (3, ''b''), (1, ''c'')] :: (nat \<times> string) list"
  let ?es = "concat (map dispatch_task ?tasks) @ one_turn @ [Step Works, Step Works, Interrupt True, Interrupt True]"
  let ?u = "?s\<lparr>queue := (queue ?s)\<lparr>msgs := ?tasks\<rparr>, accepted := ?tasks\<rparr>"
  have sent: "qrun ?es ?s = qrun (one_turn @ [Step Works, Step Works, Interrupt True, Interrupt True]) ?u"
    using dispatch_all [of ?tasks ?s] by (simp add: at_work_def empty_queue_def good_task_def MQ_PRIO_MAX_def)
  obtain b where b: "length b = 4" "qrun (one_turn @ [Step Works, Step Works, Interrupt True, Interrupt True]) ?u =
      qrun [Step Works, Step Works, Interrupt True, Interrupt True]
        (?u\<lparr>queue := (queue ?u)\<lparr>msgs := [(3, ''b''), (1, ''c'')]\<rparr>, prio_read := 5, bytes_read := 1, cells := b,
          printed := [(5, ''a'')], in_hand := [], wpc := AtTest\<rparr>)"
  proof -
    have "\<exists>b. length b = length (cells ?u) \<and>
        qrun (one_turn @ [Step Works, Step Works, Interrupt True, Interrupt True]) ?u =
        qrun [Step Works, Step Works, Interrupt True, Interrupt True]
          (?u\<lparr>queue := (queue ?u)\<lparr>msgs := [(3, ''b''), (1, ''c'')]\<rparr>, prio_read := fst (5 :: nat, ''a''),
            bytes_read := length (snd (5 :: nat, ''a'')), cells := b,
            printed := printed ?u @ [(5, ''a'')], in_hand := [], wpc := AtTest\<rparr>)"
      by (rule turn_prints) (simp_all add: at_work_def empty_queue_def)
    then show thesis by (elim exE conjE, intro that) (simp_all add: at_work_def del: qrun.simps)
  qed
  obtain s where s: "qrun ?es ?s = Some s" "printed s = [(5, ''a'')]" "in_hand s = [(3, ''b'')]"
      "pending s = [(1, ''c'')]" "life s = KilledByInt"
    unfolding sent b(2) using b(1)
    by (auto simp: at_work_def empty_queue_def worker_step_def interrupt_def sigint_handler_def pending_def)
  have "\<forall>e \<in> set ?es. event_ok e"
    by (simp add: event_ok_def dispatch_task_def task_args_def one_turn_def show_nat_no_NUL)
  from queue_conserves_tasks [OF s(1) this] s show ?thesis by blast
qed

text \<open>
  C33: A task whose text is exactly as long as the queue allows makes the worker write its NUL
  one byte behind the buffer it allocated.
\<close>

theorem worker_overrun:
  assumes "good_task x" and "length (snd x) = length mem" and "0 < maxmsg"
  shows "qrun (dispatch_task x @ one_turn) (at_work mem (empty_queue maxmsg (length mem))) = None"
  using assms dispatch_good [of x "at_work mem (empty_queue maxmsg (length mem))" one_turn]
  by (cases x) (simp add: at_work_def empty_queue_def one_turn_def numeral_eq_Suc worker_step_def
      receive_def put_nul_def)

theorem worker_overrun_witness:
  "qrun (dispatch_task (1, ''four'') @ one_turn) (at_work ''....'' (empty_queue 10 (length ''....''))) = None"
  using worker_overrun [of "(1, ''four'')" "''....''" 10] by (simp add: good_task_def MQ_PRIO_MAX_def)

text \<open>
  C34: A priority that does not fit 32 bits is not rejected: any string of digits whose value is
  below 32768 modulo \<open>2 ^ 32\<close> is sent with that remainder as its priority.
\<close>

theorem dispatcher_wraps_priority:
  assumes "plain s" "s \<noteq> []" "\<forall>c \<in> set s. is_digit c" "dec_value s mod 4294967296 < MQ_PRIO_MAX"
    and "length m \<le> mq_msgsize q" "length (msgs q) < mq_maxmsg q"
  shows "main_dispatcher d True [prog, s, m] q =
    Some ([], Over (Returns 0), q\<lparr>msgs := enqueue (dec_value s mod 4294967296, m) (msgs q)\<rparr>)"
proof -
  have "\<not> is_digit (CHR ''-'')" by (simp add: is_digit_def)
  then have "hd s \<noteq> CHR ''-''" using assms(2,3) hd_in_set by metis
  then have val: "int_of_str s = word_of_nat (dec_value s)"
    using assms(3) by (simp add: int_of_str_def)
  have u: "unat (word_of_nat (dec_value s) :: u32) = dec_value s mod 4294967296"
    by (simp add: unat_of_nat)
  then have "(word_of_nat (dec_value s) :: u32) \<noteq> INT32_MAX"
    using assms(4) by (auto simp: word_unat_eq_iff MQ_PRIO_MAX_def)
  then show ?thesis
    using parse_priority [OF assms(1,2)] val u assms(4-6) by (simp add: main_dispatcher_def dispatcher_open_def dispatcher_send_def mq_send_def)
qed

theorem dispatcher_wraps_priority_witness:
  "main_dispatcher None True [''d'', ''4294967299'', ''m''] (empty_queue 10 8192) =
     Some ([], Over (Returns 0), (empty_queue 10 8192)\<lparr>msgs := [(3, ''m'')]\<rparr>)"
  using dispatcher_wraps_priority [of "''4294967299''" "''m''" "empty_queue 10 8192" None "''d''"]
  by (simp add: plain_def is_digit_def dec_value_def MQ_PRIO_MAX_def empty_queue_def)

end
