(* ===== verification/Processes.thy ===== *)
theory Processes
  imports Children
begin

text \<open>
  \<open>3-Process\<close>: a child reaped by its parent (\<open>task1\<close>), a command handed to the child through
  the environment and executed there (\<open>task2\<close>), a child that stays a zombie (\<open>task3\<close>) and one
  that outlives its parent (\<open>task4\<close>). What \<open>fork\<close>, \<open>waitpid\<close>, \<open>setenv\<close> and \<open>execlp\<close> do is an
  argument; \<open>fork\<close>'s result says in which of the two processes the function runs.
\<close>

section \<open>task1\<close>

definition EXIT_VALUE1 :: int where
  "EXIT_VALUE1 = 20"

text \<open>Shared by \<open>task1\<close> and \<open>task2\<close>: the report on a child's status.\<close>

definition report_status :: "i32 \<Rightarrow> log_call" where
  "report_status status =
     (if WIFEXITED status
      then log_info ''Child process exit normally with exit status = %d'' [ArgI (WEXITSTATUS status)]
      else log_error ''Child process exit abnormally'' [])"

definition waiting_log :: "int \<Rightarrow> int \<Rightarrow> log_call" where
  "waiting_log pid child =
     log_info ''This is parent process, parent pid = %d, child pid = %d. Wait child process...''
       [ArgI pid, ArgI child]"

definition main_status :: "string option \<Rightarrow> int \<Rightarrow> int \<Rightarrow> i32 \<Rightarrow> log_call list \<times> outcome" where
  "main_status dumpcore pid child_id status =
     (if 0 < child_id then ([waiting_log pid child_id, report_status status], Returns 0)
      else if child_id = 0
      then ([log_info ''This is child process, pid = %d'' [ArgI pid]],
            Ends (terminate dumpcore EXIT_VALUE1 False))
      else ([log_error ''Fork error'' []], Ends (terminate dumpcore EXIT_FAILURE True)))"

section \<open>task2\<close>

definition CMD_SIZE :: nat where
  "CMD_SIZE = 64"

definition COMMAND_ENV :: string where
  "COMMAND_ENV = ''MY_COMMAND''"

definition COMMAND_DEFAULT :: string where
  "COMMAND_DEFAULT = ''ls''"

type_synonym env = "string \<Rightarrow> string option"

text \<open>\<open>setenv\<close> with \<open>COMMAND_OVERRIDE\<close> 1; \<open>ok\<close> is whether it works.\<close>

definition set_cmd :: "bool \<Rightarrow> string \<Rightarrow> env \<Rightarrow> log_call list \<times> env" where
  "set_cmd ok cmd e =
     (if ok then ([], e(COMMAND_ENV \<mapsto> cmd)) else ([log_error ''Set environment variable failed'' []], e))"

definition get_cmd :: "nat \<Rightarrow> env \<Rightarrow> string" where
  "get_cmd n e = (case e COMMAND_ENV of Some c \<Rightarrow> snprintf_s n c | None \<Rightarrow> '''')"

definition wait_process :: "i32 \<Rightarrow> log_call list" where
  "wait_process status = [report_status status]"

text \<open>\<open>Execs c\<close>: the child runs the program \<open>c\<close> with itself as only argument.\<close>

datatype command_run = Execs string | Quits outcome

record command_answers =
  setenv_ok :: bool
  fork_pid :: int
  own_pid :: int
  child_status :: i32
  exec_works :: "string \<Rightarrow> bool"

definition main_command :: "string option \<Rightarrow> command_answers \<Rightarrow> string list \<Rightarrow> env \<Rightarrow>
    log_call list \<times> command_run" where
  "main_command dumpcore a args e =
     (let (l1, e) = set_cmd (setenv_ok a) (if length args > 1 then args ! 1 else COMMAND_DEFAULT) e
      in if 0 < fork_pid a
         then (l1 @ [waiting_log (own_pid a) (fork_pid a)] @ wait_process (child_status a), Quits (Returns 0))
         else if fork_pid a = 0
         then (let command = get_cmd CMD_SIZE e
               in if command = ''''
                  then (l1 @ [log_error ''No command to execute'' []],
                        Quits (Ends (terminate dumpcore EXIT_FAILURE False)))
                  else
                    let l2 = l1 @ [log_info ''This is child process, pid = %d, execute command: %s''
                                     [ArgI (own_pid a), ArgS command]]
                    in if exec_works a command then (l2, Execs command)
                       else (l2 @ [log_error ''Execute command failed'' []],
                             Quits (Ends (terminate dumpcore EXIT_FAILURE False))))
         else (l1 @ [log_error (''fork failed'' @ [CHR 0x0A]) []],
               Quits (Ends (terminate dumpcore EXIT_FAILURE True))))"

section \<open>task3 and task4\<close>

text \<open>The parent sleeps and returns without waiting; the child has ended at once.\<close>

definition main_zombie :: "string option \<Rightarrow> int \<Rightarrow> log_call list \<times> outcome" where
  "main_zombie dumpcore child_id =
     (if 0 < child_id then ([], Returns 0)
      else if child_id = 0 then ([], Ends (terminate dumpcore EXIT_FAILURE False))
      else ([log_error (''fork failed'' @ [CHR 0x0A]) []], Ends (terminate dumpcore EXIT_FAILURE True)))"

text \<open>The parent ends at once; \<open>ppid i\<close> is what the child's \<open>i\<close>-th \<open>getppid\<close> returns.\<close>

definition main_orphan :: "string option \<Rightarrow> int \<Rightarrow> (nat \<Rightarrow> int) \<Rightarrow> log_call list \<times> int list \<times> outcome" where
  "main_orphan dumpcore child_id ppid =
     (if 0 < child_id then ([], [], Ends (terminate dumpcore EXIT_FAILURE True))
      else if child_id = 0 then ([], map ppid [0..<10], Returns 0)
      else ([log_error (''fork failed'' @ [CHR 0x0A]) []], [], Ends (terminate dumpcore EXIT_FAILURE True)))"

section \<open>Properties\<close>

text \<open>The status the parent sees is that of the end the child came to.\<close>

definition child_ending :: "log_call list \<times> outcome \<Rightarrow> ending" where
  "child_ending r = (case snd r of Ends e \<Rightarrow> e | Returns c \<Rightarrow> Exit c)"

lemma wait_status_abort: "\<not> WIFEXITED (wait_status Abort)"
  by (simp add: WIFEXITED_def WTERMSIG_def SIGABRT_def)

text \<open>
  The parent reports the exit status 20 of its child, and it reports an abnormal end if
  \<open>EF_DUMPCORE\<close> is set to a non-empty string, which makes the same \<open>terminate\<close> abort.
\<close>

theorem status_reaches_parent:
  assumes "0 < child"
  shows "main_status dumpcore pid child (wait_status (child_ending (main_status dumpcore child 0 any))) =
    ([waiting_log pid child,
      if dumpcore \<noteq> None \<and> cstr (the dumpcore) \<noteq> []
      then log_error ''Child process exit abnormally'' []
      else log_info ''Child process exit normally with exit status = %d'' [ArgI 20]], Returns 0)"
  using assms wait_status_exit [of 20] wait_status_abort
  by (simp add: main_status_def child_ending_def report_status_def terminate_def EXIT_VALUE1_def)

theorem status_reaches_parent_witness:
  "main_status None 1 2 (wait_status (child_ending (main_status None 2 0 0))) =
    ([waiting_log 1 2, log_info ''Child process exit normally with exit status = %d'' [ArgI 20]], Returns 0)"
  by (subst status_reaches_parent) simp_all

text \<open>
  C40: The child executes the first 63 characters of the command it is given, \<open>ls\<close> if there is
  none: a longer command is cut without a warning and another program runs. If \<open>setenv\<close>
  fails the program goes on with what the environment held before.
\<close>

theorem command_is_cut:
  assumes "fork_pid a = 0" and "\<And>c. exec_works a c"
    and "NUL \<notin> set cmd" "cmd \<noteq> ''''" and "setenv_ok a \<and> args = [prog, cmd] \<or> \<not> setenv_ok a \<and> e COMMAND_ENV = Some cmd"
  shows "snd (main_command dumpcore a args e) = Execs (take 63 cmd)"
  using assms by (auto simp: main_command_def set_cmd_def get_cmd_def snprintf_s_def CMD_SIZE_def Let_def)

definition sample_command :: "bool \<Rightarrow> command_answers" where
  "sample_command ok = \<lparr>setenv_ok = ok, fork_pid = 0, own_pid = 7, child_status = 0, exec_works = \<lambda>_. True\<rparr>"

theorem command_is_cut_witness:
  "snd (main_command None (sample_command True) [''task2'', ''date''] (\<lambda>_. None)) = Execs ''date'' \<and>
   snd (main_command None (sample_command False) [''task2'', ''date''] [COMMAND_ENV \<mapsto> ''old'']) = Execs ''old'' \<and>
   snd (main_command None (sample_command True) [''task2'', replicate 70 (CHR ''x'')] (\<lambda>_. None)) =
     Execs (replicate 63 (CHR ''x''))"
  using command_is_cut [of "sample_command True" "''date''" "[''task2'', ''date'']" "''task2''" "\<lambda>_. None" None]
    command_is_cut [of "sample_command False" "''old''" "[''task2'', ''date'']" "''task2''" "[COMMAND_ENV \<mapsto> ''old'']" None]
    command_is_cut [of "sample_command True" "replicate 70 (CHR ''x'')"
      "[''task2'', replicate 70 (CHR ''x'')]" "''task2''" "\<lambda>_. None" None]
  by (simp add: sample_command_def)

end
