(* ===== verification/FileType.thy ===== *)
theory FileType
  imports Log ErrorHandler
begin

text \<open>
  \<open>2-FileSystem/main.c\<close>: the type of a file from the format bits of its mode, and the report
  \<open>main\<close> logs. What \<open>lstat\<close> and \<open>ctime\<close> return is an argument.
\<close>

text \<open>\<open>S_IFMT\<close> and the formats of \<open>sys/stat.h\<close>.\<close>

definition S_IFMT :: u32 where
  "S_IFMT = 0xF000"

definition is_format :: "u32 \<Rightarrow> u32 \<Rightarrow> bool" where
  "is_format f mode \<longleftrightarrow> mode AND S_IFMT = f"

definition get_file_type :: "u32 \<Rightarrow> string" where
  "get_file_type mode =
     (if is_format 0x8000 mode then ''Regular File''
      else if is_format 0x4000 mode then ''Directory''
      else if is_format 0x2000 mode then ''Character Device''
      else if is_format 0x6000 mode then ''Block Device''
      else if is_format 0x1000 mode then ''FIFO''
      else if is_format 0xA000 mode then ''Symbolic Link''
      else if is_format 0xC000 mode then ''Socket''
      else ''Unknown'')"

record stat =
  st_mode :: u32
  st_size :: int
  st_mtime :: int

text \<open>\<open>None\<close> is a failing \<open>lstat\<close>; \<open>ctime\<close> writes a time as a line.\<close>

definition main_file :: "string option \<Rightarrow> (string \<Rightarrow> stat option) \<Rightarrow> (int \<Rightarrow> string) \<Rightarrow> string list \<Rightarrow>
    log_call list \<times> outcome" where
  "main_file dumpcore lstat ctime args =
     (case args of
        prog # file # _ \<Rightarrow>
          (case lstat file of
             None \<Rightarrow> ([log_error_ne ''Failed to retrieve file info for: %s'' [ArgS file]],
                      Ends (terminate dumpcore EXIT_FAILURE True))
           | Some fs \<Rightarrow>
               ([log_info ([CHR 0x0A] @ ''File:               %s'' @ [CHR 0x0A] @
                           ''File Type:          %s'' @ [CHR 0x0A] @
                           ''Size:               %lld Byte'' @ [CHR 0x0A] @
                           ''Last Modified:      %s'')
                   [ArgS file, ArgS (get_file_type (st_mode fs)), ArgI (st_size fs), ArgS (ctime (st_mtime fs))]],
                Returns 0))
      | _ \<Rightarrow> ([log_info ''Usage: %s <file_path>''
                [ArgS (case args of [] \<Rightarrow> ''(null)'' | prog # _ \<Rightarrow> prog)]],
              Ends (terminate dumpcore EXIT_FAILURE True)))"

section \<open>Properties\<close>

text \<open>
  The permission bits do not matter, and the name tells the format: two modes get the same
  known name only if their format bits agree.
\<close>

theorem file_type_from_format:
  "get_file_type (mode AND S_IFMT) = get_file_type mode \<and>
   (get_file_type mode = get_file_type mode' \<longrightarrow>
      get_file_type mode = ''Unknown'' \<or> mode AND S_IFMT = mode' AND S_IFMT)"
proof (intro conjI impI)
  show "get_file_type (mode AND S_IFMT) = get_file_type mode"
    by (simp add: get_file_type_def is_format_def and.assoc)
  assume same: "get_file_type mode = get_file_type mode'"
  show "get_file_type mode = ''Unknown'' \<or> mode AND S_IFMT = mode' AND S_IFMT"
    using same unfolding get_file_type_def is_format_def by (simp split: if_splits)
qed

theorem file_type_from_format_witness:
  "get_file_type 0x81A4 = get_file_type 0x8000 \<and> get_file_type 0x81A4 = ''Regular File''"
  using file_type_from_format [of "0x81A4" "0x8000"] by (simp add: S_IFMT_def get_file_type_def is_format_def)

end
