(* ===== verification/ShareMemory.thy ===== *)
theory ShareMemory
  imports Log ErrorHandler
begin

text \<open>
  \<open>9-ShareMemory\<close>: a producer that copies a \<open>ProductInfo\<close> into a shared memory object and a
  consumer that copies it out of the mapping and prints it. The struct is its bytes, little
  endian, as on the x86-64 the repository builds for. Objects by name are state; whether a
  call fails is an argument.
\<close>

section \<open>Bytes of the struct\<close>


definition int_bytes :: "i32 \<Rightarrow> u8 list" where
  "int_bytes w = [ucast w, ucast (drop_bit 8 w), ucast (drop_bit 16 w), ucast (drop_bit 24 w)]"

fun bytes_int :: "u8 list \<Rightarrow> i32" where
  "bytes_int [a, b, c, d] =
     ucast a OR push_bit 8 (ucast b) OR push_bit 16 (ucast c) OR push_bit 24 (ucast d)"
| "bytes_int _ = 0"

definition name_bytes :: "string \<Rightarrow> u8 list" where
  "name_bytes s = map of_char s @ replicate (256 - length s) 0"

definition byte_char :: "u8 \<Rightarrow> char" where
  "byte_char b = char_of (unat b)"




lemma bytes_int_bytes [simp]: "bytes_int (int_bytes w) = w"
proof (rule bit_eqI)
  fix n
  assume "possible_bit TYPE(i32) n"
  then have "n < 32" by (simp add: possible_bit_word)
  then show "bit (bytes_int (int_bytes w)) n \<longleftrightarrow> bit w n"
    by (cases "n < 8"; cases "n < 16"; cases "n < 24") (auto simp: int_bytes_def bit_simps)
qed

lemma length_bytes [simp]:
  "length (int_bytes w) = 4" "length s \<le> 256 \<Longrightarrow> length (name_bytes s) = 256"
  by (simp_all add: int_bytes_def name_bytes_def)

lemma unat_of_char: "unat (of_char c :: u8) = of_char c"
proof -
  have "(of_char c :: u8) = word_of_nat (of_char c)" by (simp add: of_nat_of_char)
  moreover have "(of_char c :: nat) < 256" by simp
  ultimately show ?thesis by (simp add: unat_of_nat take_bit_nat_eq_self)
qed

lemma byte_char_of_char [simp]: "byte_char (of_char c) = c" "byte_char 0 = NUL"
  by (simp_all add: byte_char_def unat_of_char) (simp add: char_of_def)

section \<open>The programs\<close>








section \<open>Properties\<close>








end
