(* ===== verification/Datagram.thy ===== *)
theory Datagram
  imports Log ErrorHandler
begin

text \<open>
  \<open>6-Socket/task2\<close> and \<open>task4\<close>: clients that send each argument as a datagram and print the
  answer, and servers that answer with the text in upper case, over UDP and over Unix domain
  sockets. A datagram is a list of characters; receiving into a buffer of \<open>BUF_SIZE\<close> keeps that
  many and drops the rest. Which calls fail is an argument.
\<close>

section \<open>The servers\<close>

definition BUF_SIZE :: nat where
  "BUF_SIZE = 10"

definition PORT_NUM :: int where
  "PORT_NUM = 50002"

text \<open>\<open>toupper\<close> in the C locale.\<close>

definition toupper :: "char \<Rightarrow> char" where
  "toupper c = (if 97 \<le> (of_char c :: nat) \<and> (of_char c :: nat) \<le> 122 then char_of ((of_char c :: nat) - 32) else c)"

text \<open>\<open>for (j = 0; j < numBytes; j++) buf[j] = toupper(buf[j])\<close>\<close>

function upcase_loop :: "string \<Rightarrow> nat \<Rightarrow> nat \<Rightarrow> string option" where
  "upcase_loop buf numBytes j =
     (if j < numBytes
      then (if j < length buf then upcase_loop (buf[j := toupper (buf ! j)]) numBytes (Suc j) else None)
      else Some buf)"
  by pat_completeness auto
termination
  by (relation "measure (\<lambda>(_, n, j). n - j)") auto

declare upcase_loop.simps [simp del]

text \<open>
  What one turn of a server meets: a failing \<open>recvfrom\<close> (\<open>None\<close>), or a datagram with the address
  it came from as text, if it has one, the port, and how many bytes \<open>sendto\<close> sends.
\<close>

record packet =
  payload :: string
  address :: "string option"
  port :: int
  sends :: "nat \<Rightarrow> int"

datatype served = Reply string | Line log_call | Print string

datatype server_run = Serving | Exits ending

text \<open>Receiving into the buffer: the bytes kept and their number.\<close>

definition received :: "string \<Rightarrow> string \<Rightarrow> string \<times> nat" where
  "received buf m = (take BUF_SIZE m @ drop (length (take BUF_SIZE m)) buf, length (take BUF_SIZE m))"

text \<open>\<open>None\<close> is undefined behaviour. The UDP server logs, the other one prints.\<close>

fun server2_loop :: "string \<Rightarrow> packet option list \<Rightarrow> (served list \<times> server_run) option" where
  "server2_loop buf [] = Some ([], Serving)"
| "server2_loop buf (None # ps) = Some ([Line (log_error_ne ''recvfrom'' [])], Exits (Exit EXIT_FAILURE))"
| "server2_loop buf (Some p # ps) =
     (let (buf, numBytes) = received buf (payload p);
          note = (case address p of
              None \<Rightarrow> Line (log_info (''Couldn'' @ [CHR 0x27] @ ''t convert client address to string'' @ [CHR 0x0A]) [])
            | Some a \<Rightarrow> Line (log_info (''Server received %ld bytes from (%s, %u)'' @ [CHR 0x0A])
                                [ArgI (int numBytes), ArgS a, ArgI (port p)]))
      in case upcase_loop buf numBytes 0 of
           None \<Rightarrow> None
         | Some buf \<Rightarrow>
             (if sends p numBytes \<noteq> int numBytes
              then Some ([note, Reply (take numBytes buf), Line (log_error_ne ''sendto'' [])], Exits (Exit EXIT_FAILURE))
              else (case server2_loop buf ps of
                      None \<Rightarrow> None
                    | Some (l, r) \<Rightarrow> Some (note # Reply (take numBytes buf) # l, r))))"

fun server4_loop :: "string \<Rightarrow> packet option list \<Rightarrow> (served list \<times> server_run) option" where
  "server4_loop buf [] = Some ([], Serving)"
| "server4_loop buf (None # ps) = Some ([Print (''recvfrom'' @ [CHR 0x0A])], Exits (Exit EXIT_FAILURE))"
| "server4_loop buf (Some p # ps) =
     (let (buf, numBytes) = received buf (payload p);
          note = Print (''Server received '' @ show_nat numBytes @ '' bytes from '' @
            (case address p of None \<Rightarrow> '''' | Some a \<Rightarrow> a) @ [CHR 0x0A])
      in case upcase_loop buf numBytes 0 of
           None \<Rightarrow> None
         | Some buf \<Rightarrow>
             (if sends p numBytes \<noteq> int numBytes
              then Some ([note, Reply (take numBytes buf), Print (''sendto'' @ [CHR 0x0A])], Exits (Exit EXIT_FAILURE))
              else (case server4_loop buf ps of
                      None \<Rightarrow> None
                    | Some (l, r) \<Rightarrow> Some (note # Reply (take numBytes buf) # l, r))))"

text \<open>The setups: \<open>socket\<close>, \<open>remove\<close> (task4 only) and \<open>bind\<close> may fail.\<close>

definition server2 :: "bool \<Rightarrow> bool \<Rightarrow> string \<Rightarrow> packet option list \<Rightarrow> (served list \<times> server_run) option" where
  "server2 socket_ok bind_ok buf ps =
     (if \<not> socket_ok then Some ([Line (log_error_ne (''socket'' @ [CHR 0x0A]) [])], Exits (Exit EXIT_FAILURE))
      else if \<not> bind_ok then Some ([Line (log_error_ne ''bind'' [])], Exits (Exit EXIT_FAILURE))
      else server2_loop buf ps)"

definition server4 :: "bool \<Rightarrow> bool \<Rightarrow> bool \<Rightarrow> string \<Rightarrow> packet option list \<Rightarrow> (served list \<times> server_run) option" where
  "server4 socket_ok remove_ok bind_ok buf ps =
     (if \<not> socket_ok then Some ([Print (''socket'' @ [CHR 0x0A])], Exits (Exit EXIT_FAILURE))
      else if \<not> remove_ok then Some ([Print (''remove'' @ [CHR 0x0A])], Exits (Exit EXIT_FAILURE))
      else if \<not> bind_ok then Some ([Print (''sockbindet'' @ [CHR 0x0A])], Exits (Exit EXIT_FAILURE))
      else server4_loop buf ps)"

section \<open>The clients\<close>

text \<open>
  Both send their messages one by one. \<open>send m\<close> is \<open>sendto\<close>'s result and \<open>answer m\<close> the datagram
  that comes back, \<open>None\<close> if \<open>recvfrom\<close> fails. The responses are numbered from 1.
\<close>

fun client_loop :: "string \<Rightarrow> (string \<Rightarrow> int) \<Rightarrow> (string \<Rightarrow> string option) \<Rightarrow> nat \<Rightarrow> string list \<Rightarrow>
    log_call list \<times> ending option" where
  "client_loop fmt send answer n [] = ([], None)"
| "client_loop fmt send answer n (m # ms) =
     (if send m \<noteq> int (length m) then ([log_error_ne ''sendto'' []], Some (Exit EXIT_FAILURE))
      else (case answer m of
              None \<Rightarrow> ([log_error_ne ''recvfrom'' []], Some (Exit EXIT_FAILURE))
            | Some r \<Rightarrow>
                (let (l, e) = client_loop fmt send answer (Suc n) ms
                 in (log_info fmt [ArgI (int n), ArgI (int (length (take BUF_SIZE r))), ArgS (cstr (take BUF_SIZE r))] # l, e))))"

definition program_name :: "string list \<Rightarrow> string" where
  "program_name args = (case args of [] \<Rightarrow> ''(null)'' | prog # _ \<Rightarrow> prog)"

definition client2 :: "bool \<Rightarrow> bool \<Rightarrow> (string \<Rightarrow> int) \<Rightarrow> (string \<Rightarrow> string option) \<Rightarrow> string list \<Rightarrow>
    log_call list \<times> outcome" where
  "client2 socket_ok address_ok send answer args =
     (if length args < 3 \<or> args ! 1 = ''--help''
      then ([log_error (''Usage: %s host-address msg...'' @ [CHR 0x0A]) [ArgS (program_name args)]],
            Ends (Exit EXIT_FAILURE))
      else if \<not> socket_ok then ([log_error_ne ''socket'' []], Ends (Exit EXIT_FAILURE))
      else if \<not> address_ok
      then ([log_error (''inet_pton failed for address '' @ squoted ''%s'') [ArgS (args ! 1)]], Ends (Exit EXIT_FAILURE))
      else (let (l, e) = client_loop (''Response %d: %.*s'' @ [CHR 0x0A]) send answer 1 (drop 2 args)
            in (l, case e of None \<Rightarrow> Returns 0 | Some e \<Rightarrow> Ends e)))"

text \<open>The name in the file system the client binds its socket to; it fits into \<open>sun_path\<close>.\<close>

definition client_path :: "nat \<Rightarrow> string" where
  "client_path pid = ''/tmp/ud_ucase_cl.'' @ show_nat pid"

text \<open>Besides the lines and the end, the names left in the file system: only the last lines remove it.\<close>

definition client4 :: "nat \<Rightarrow> bool \<Rightarrow> bool \<Rightarrow> (string \<Rightarrow> int) \<Rightarrow> (string \<Rightarrow> string option) \<Rightarrow> string list \<Rightarrow>
    log_call list \<times> string list \<times> outcome" where
  "client4 pid socket_ok bind_ok send answer args =
     (if length args < 2 \<or> args ! 1 = ''--help''
      then ([log_error ''Usage: %s msg...'' [ArgS (program_name args)]], [], Ends (Exit EXIT_FAILURE))
      else if \<not> socket_ok then ([log_error_ne ''socket'' []], [], Ends (Exit EXIT_FAILURE))
      else if \<not> bind_ok then ([log_error_ne ''bind'' []], [], Ends (Exit EXIT_FAILURE))
      else (case client_loop ''Response %d: %.*s'' send answer 1 (drop 1 args) of
              (l, None) \<Rightarrow> (l, [], Ends (Exit EXIT_SUCCESS))
            | (l, Some e) \<Rightarrow> (l, [client_path pid], Ends e)))"

section \<open>What a server answers\<close>

lemma upcase_loop_eq:
  "j \<le> n \<Longrightarrow> n \<le> length buf \<Longrightarrow>
    upcase_loop buf n j = Some (take j buf @ map toupper (drop j (take n buf)) @ drop n buf)"
proof (induction "n - j" arbitrary: buf j)
  case 0
  then show ?case by (subst upcase_loop.simps) simp
next
  case (Suc d)
  then have j: "j < n" "j < length buf" by simp_all
  have "upcase_loop (buf[j := toupper (buf ! j)]) n (Suc j) =
      Some (take (Suc j) (buf[j := toupper (buf ! j)]) @
        map toupper (drop (Suc j) (take n (buf[j := toupper (buf ! j)]))) @ drop n (buf[j := toupper (buf ! j)]))"
    using Suc j by (intro Suc.hyps(1)) simp_all
  moreover have "take (Suc j) (buf[j := toupper (buf ! j)]) = take j buf @ [toupper (buf ! j)]"
    using j by (simp add: take_Suc_conv_app_nth)
  moreover have "drop (Suc j) (take n (buf[j := toupper (buf ! j)])) = drop (Suc j) (take n buf)"
    using j by (simp add: take_update_swap)
  moreover have "drop j (take n buf) = buf ! j # drop (Suc j) (take n buf)"
    using j(1) Suc.prems(2) by (rule drop_take_Cons)
  ultimately show ?case using j by (subst upcase_loop.simps) simp
qed

lemma upcase_received:
  assumes "length buf = BUF_SIZE"
  shows "\<exists>b. upcase_loop (fst (received buf m)) (snd (received buf m)) 0 = Some b \<and> length b = BUF_SIZE \<and>
    take (snd (received buf m)) b = map toupper (take BUF_SIZE m)"
proof -
  have len: "length (fst (received buf m)) = BUF_SIZE" "snd (received buf m) \<le> BUF_SIZE"
    using assms by (simp_all add: received_def min_def)
  have "take (snd (received buf m)) (fst (received buf m)) = take BUF_SIZE m"
    by (cases "length m \<le> BUF_SIZE") (simp_all add: received_def)
  moreover have "snd (received buf m) = length (take BUF_SIZE m)" by (simp add: received_def)
  ultimately show ?thesis
    using upcase_loop_eq [of 0 "snd (received buf m)" "fst (received buf m)"] len
    by (simp del: length_take)
qed

definition replies :: "served list \<Rightarrow> string list" where
  "replies l = concat (map (\<lambda>x. case x of Reply r \<Rightarrow> [r] | _ \<Rightarrow> []) l)"

definition sent_whole :: "packet \<Rightarrow> bool" where
  "sent_whole p \<longleftrightarrow> (\<forall>n. sends p n = int n)"

lemma server2_replies:
  "length buf = BUF_SIZE \<Longrightarrow> \<forall>p \<in> set ps. sent_whole p \<Longrightarrow>
    \<exists>l. server2_loop buf (map Some ps) = Some (l, Serving) \<and>
      replies l = map (\<lambda>p. map toupper (take BUF_SIZE (payload p))) ps"
proof (induction ps arbitrary: buf)
  case (Cons p ps)
  obtain b where b: "upcase_loop (fst (received buf (payload p))) (snd (received buf (payload p))) 0 = Some b"
      "length b = BUF_SIZE" "take (snd (received buf (payload p))) b = map toupper (take BUF_SIZE (payload p))"
    using upcase_received [OF Cons.prems(1)] by blast
  from Cons.IH [OF b(2)] Cons.prems(2) obtain l where "server2_loop b (map Some ps) = Some (l, Serving)"
      "replies l = map (\<lambda>p. map toupper (take BUF_SIZE (payload p))) ps" by auto
  with b Cons.prems(2) show ?case
    by (auto simp: split_beta sent_whole_def replies_def split: option.splits)
qed (simp add: replies_def)

lemma server4_replies:
  "length buf = BUF_SIZE \<Longrightarrow> \<forall>p \<in> set ps. sent_whole p \<Longrightarrow>
    \<exists>l. server4_loop buf (map Some ps) = Some (l, Serving) \<and>
      replies l = map (\<lambda>p. map toupper (take BUF_SIZE (payload p))) ps"
proof (induction ps arbitrary: buf)
  case (Cons p ps)
  obtain b where b: "upcase_loop (fst (received buf (payload p))) (snd (received buf (payload p))) 0 = Some b"
      "length b = BUF_SIZE" "take (snd (received buf (payload p))) b = map toupper (take BUF_SIZE (payload p))"
    using upcase_received [OF Cons.prems(1)] by blast
  from Cons.IH [OF b(2)] Cons.prems(2) obtain l where "server4_loop b (map Some ps) = Some (l, Serving)"
      "replies l = map (\<lambda>p. map toupper (take BUF_SIZE (payload p))) ps" by auto
  with b Cons.prems(2) show ?case
    by (auto simp: split_beta sent_whole_def replies_def split: option.splits)
qed (simp add: replies_def)

section \<open>Properties\<close>

text \<open>
  C35: Both servers answer every datagram with its first ten characters in upper case, and go
  on, as long as the answers are sent whole; the loop never leaves the buffer, and nothing of
  one datagram shows in the answer to another.
\<close>

theorem servers_answer_upper:
  assumes "length buf = 10" and "\<forall>p \<in> set ps. sent_whole p"
  shows "(\<exists>l. server2 True True buf (map Some ps) = Some (l, Serving) \<and>
      replies l = map (\<lambda>p. map toupper (take 10 (payload p))) ps) \<and>
    (\<exists>l. server4 True True True buf (map Some ps) = Some (l, Serving) \<and>
      replies l = map (\<lambda>p. map toupper (take 10 (payload p))) ps)"
  using assms server2_replies [of buf ps] server4_replies [of buf ps]
  by (simp add: server2_def server4_def BUF_SIZE_def)

theorem servers_answer_upper_witness:
  "\<exists>l. server2 True True (replicate 10 CHR ''x'')
     [Some \<lparr>payload = ''hello, world'', address = None, port = 1, sends = int\<rparr>] = Some (l, Serving) \<and>
     replies l = [''HELLO, WOR'']"
proof -
  let ?p = "\<lparr>payload = ''hello, world'', address = None, port = 1, sends = int\<rparr>"
  have up: "map toupper ''hello, wor'' = ''HELLO, WOR''" by code_simp
  show ?thesis
    using servers_answer_upper [of "replicate 10 CHR ''x''" "[?p]"] up
    by (simp add: sent_whole_def)
qed

text \<open>What a server sends back for one message, and what that is.\<close>

definition answer_by :: "(packet option list \<Rightarrow> (served list \<times> server_run) option) \<Rightarrow> string \<Rightarrow> string option" where
  "answer_by serve m =
     (case serve [Some \<lparr>payload = m, address = None, port = 0, sends = int\<rparr>] of
        Some (l, Serving) \<Rightarrow> (case replies l of [r] \<Rightarrow> Some r | _ \<Rightarrow> None)
      | _ \<Rightarrow> None)"

definition upper_answer :: "string \<Rightarrow> string option" where
  "upper_answer m = Some (map toupper (take BUF_SIZE m))"

lemma answer_by_server:
  assumes "length buf = BUF_SIZE"
  shows "answer_by (server2 True True buf) = upper_answer" "answer_by (server4 True True True buf) = upper_answer"
proof -
  let ?p = "\<lambda>m. \<lparr>payload = m, address = None, port = 0, sends = int\<rparr>"
  have "answer_by (server2 True True buf) m = upper_answer m" for m
    using server2_replies [OF assms, of "[?p m]"]
    by (auto simp: answer_by_def server2_def upper_answer_def sent_whole_def simp del: server2_loop.simps)
  moreover have "answer_by (server4 True True True buf) m = upper_answer m" for m
    using server4_replies [OF assms, of "[?p m]"]
    by (auto simp: answer_by_def server4_def upper_answer_def sent_whole_def simp del: server4_loop.simps)
  ultimately show "answer_by (server2 True True buf) = upper_answer"
    "answer_by (server4 True True True buf) = upper_answer" by blast+
qed

lemma toupper_not_NUL: "c \<noteq> NUL \<Longrightarrow> toupper c \<noteq> NUL"
proof
  assume c: "c \<noteq> NUL" and up: "toupper c = NUL"
  then have k: "97 \<le> (of_char c :: nat)" "char_of ((of_char c :: nat) - 32) = NUL"
    by (auto simp: toupper_def split: if_splits)
  then have "(of_char (char_of ((of_char c :: nat) - 32)) :: nat) = 0" by simp
  moreover have "(of_char c :: nat) - 32 < 256"
  proof -
    have "(of_char c :: nat) < 256" by simp
    then show ?thesis by linarith
  qed
  ultimately show False using k(1) by (simp add: of_char_of)
qed

lemma cstr_upper:
  assumes "NUL \<notin> set m"
  shows "cstr (map toupper (take k m)) = map toupper (take k m)"
proof -
  have "NUL \<notin> set (map toupper (take k m))"
    using assms toupper_not_NUL by (force dest: in_set_takeD)
  then show ?thesis by simp
qed

text \<open>The line of the \<open>i\<close>-th answer.\<close>

definition response :: "string \<Rightarrow> nat \<times> string \<Rightarrow> log_call" where
  "response fmt = (\<lambda>(i, m).
     log_info fmt [ArgI (int i), ArgI (int (length (take 10 m))), ArgS (map toupper (take 10 m))])"

lemma client_loop_upper:
  "\<forall>m. send m = int (length m) \<Longrightarrow> \<forall>m \<in> set ms. NUL \<notin> set m \<Longrightarrow>
    client_loop fmt send upper_answer i ms = (map (response fmt) (zip [i..<i + length ms] ms), None)"
proof (induction ms arbitrary: i)
  case (Cons m ms)
  have ih: "client_loop fmt send upper_answer (Suc i) ms =
      (map (response fmt) (zip [Suc i..<Suc i + length ms] ms), None)"
    using Cons.prems by (intro Cons.IH) simp_all
  have up: "[i..<i + length (m # ms)] = i # [Suc i..<Suc i + length ms]" by (subst upt_conv_Cons) simp_all
  have r: "log_info fmt [ArgI (int i), ArgI (int (length (take BUF_SIZE (map toupper (take BUF_SIZE m))))),
      ArgS (cstr (take BUF_SIZE (map toupper (take BUF_SIZE m))))] = response fmt (i, m)"
    using cstr_upper [of m "10"] Cons.prems(2) by (simp add: response_def BUF_SIZE_def take_map)
  show ?case
    unfolding client_loop.simps(2) upper_answer_def option.case r ih [unfolded upper_answer_def] up zip_Cons_Cons list.map
    using Cons.prems(1) by simp
qed simp

text \<open>
  C38: Client and server together: each client prints, for each of its messages in order and numbered
  from 1, the answer of its server, which is the first ten characters in upper case; a longer
  message is cut. The Unix client then leaves no name behind.
\<close>

theorem clients_print_upper:
  assumes "\<forall>m. send m = int (length m)" and "\<forall>m \<in> set ms. NUL \<notin> set m" and "ms \<noteq> []"
    and "host \<noteq> ''--help''" "hd ms \<noteq> ''--help''" and "length buf = 10"
  shows "client2 True True send (answer_by (server2 True True buf)) (prog # host # ms) =
      (map (response (''Response %d: %.*s'' @ [CHR 0x0A])) (zip [1..<Suc (length ms)] ms), Returns 0) \<and>
    client4 pid True True send (answer_by (server4 True True True buf)) (prog # ms) =
      (map (response ''Response %d: %.*s'') (zip [1..<Suc (length ms)] ms), [], Ends (Exit EXIT_SUCCESS))"
proof -
  have buf: "length buf = BUF_SIZE" using assms(6) by (simp add: BUF_SIZE_def)
  obtain m ms' where ms: "ms = m # ms'" using assms(3) by (cases ms) auto
  show ?thesis
    unfolding answer_by_server [OF buf]
    using client_loop_upper [OF assms(1,2), of _ 1] assms(4,5) ms
    by (simp add: client2_def client4_def del: upt_Suc)
qed

theorem clients_print_upper_witness:
  "client4 7 True True (\<lambda>m. int (length m)) (answer_by (server4 True True True (replicate 10 (CHR ''x''))))
      [''client'', ''a much too long message''] =
    ([log_info ''Response %d: %.*s'' [ArgI 1, ArgI 10, ArgS ''A MUCH TOO'']], [], Ends (Exit EXIT_SUCCESS))"
proof -
  have up: "map toupper ''a much too'' = ''A MUCH TOO''" by code_simp
  show ?thesis
    using clients_print_upper [where send = "\<lambda>m. int (length m)" and ms = "[''a much too long message'']"
        and host = "''h''" and prog = "''client''" and pid = 7 and buf = "replicate 10 (CHR ''x'')"] up
    by (simp add: response_def)
qed

end
