(* ===== verification/StreamSocket.thy ===== *)
theory StreamSocket
  imports Datagram
begin

text \<open>
  \<open>6-Socket/task1\<close> and \<open>task3\<close>: a TCP server that greets each client, a client that prints what a
  server sends, and a pair over Unix domain sockets that copies standard input to the server's
  standard output. What a descriptor still delivers is a list of pieces, each at hand at once,
  followed by end of file or by an error. \<open>None\<close> stands for undefined behaviour.
\<close>

section \<open>Reading a descriptor\<close>

record source =
  pieces :: "string list"
  broken :: bool

text \<open>
  \<open>read(fd, buf, n)\<close>: at most \<open>n\<close> bytes of the next piece and what is left of the source; no bytes
  at end of file; \<open>None\<close> for -1.
\<close>

fun read_pieces :: "nat \<Rightarrow> string list \<Rightarrow> string \<times> string list" where
  "read_pieces n [] = ([], [])"
| "read_pieces n (p # ps) =
     (if p = [] then read_pieces n ps
      else (take n p, if length p \<le> n then ps else drop n p # ps))"

definition read_fd :: "nat \<Rightarrow> source \<Rightarrow> string option \<times> source" where
  "read_fd n s =
     (let (data, ps) = read_pieces n (pieces s)
      in (if data = [] \<and> broken s then None else Some data, s\<lparr>pieces := ps\<rparr>))"

lemma read_pieces_concat:
  "0 < n \<Longrightarrow> concat (pieces s) = fst (read_pieces n (pieces s)) @ concat (snd (read_pieces n (pieces s)))"
proof -
  assume "0 < n"
  have "concat ps = fst (read_pieces n ps) @ concat (snd (read_pieces n ps))" for ps
    by (induction n ps rule: read_pieces.induct) auto
  then show ?thesis .
qed

lemma read_pieces_length: "length (fst (read_pieces n ps)) \<le> n"
  by (induction n ps rule: read_pieces.induct) auto

lemma read_pieces_Nil: "0 < n \<Longrightarrow> fst (read_pieces n ps) = [] \<longleftrightarrow> concat ps = []"
  by (induction n ps rule: read_pieces.induct) auto

lemma read_fd_Some:
  assumes "read_fd n s = (Some data, s')" and "0 < n"
  shows "concat (pieces s) = data @ concat (pieces s')" "length data \<le> n" "broken s' = broken s"
  using assms read_pieces_concat [of n s] read_pieces_length [of n "pieces s"]
  by (auto simp: read_fd_def split_beta split: if_splits)

lemma read_fd_end:
  assumes "0 < n" and "concat (pieces s) = []"
  shows "fst (read_fd n s) = (if broken s then None else Some [])"
  using read_pieces_Nil [OF assms(1), of "pieces s"] assms(2) by (simp add: read_fd_def split_beta)

lemma read_fd_more:
  assumes "0 < n" and "concat (pieces s) \<noteq> []"
  obtains data s' where "read_fd n s = (Some data, s')" "data \<noteq> []"
    "concat (pieces s) = data @ concat (pieces s')" "length data \<le> n" "broken s' = broken s"
proof -
  have "fst (read_fd n s) = Some (fst (read_pieces n (pieces s)))"
    using read_pieces_Nil [OF assms(1), of "pieces s"] assms(2) by (simp add: read_fd_def split_beta)
  then have "read_fd n s = (Some (fst (read_pieces n (pieces s))), snd (read_fd n s))"
    by (metis prod.collapse)
  moreover have "fst (read_pieces n (pieces s)) \<noteq> []"
    using read_pieces_Nil [OF assms(1), of "pieces s"] assms(2) by simp
  ultimately show thesis using that read_fd_Some [OF _ assms(1)] by blast
qed

section \<open>The greeting client and server\<close>

definition sizeof_recvBuff :: nat where
  "sizeof_recvBuff = 1024"

text \<open>Writing \<open>data\<close> to the start of a buffer, and the NUL behind it.\<close>

definition store :: "string \<Rightarrow> string \<Rightarrow> string option" where
  "store buf data =
     (let buf = data @ drop (length data) buf
      in if length data < length buf then Some (buf[length data := NUL]) else None)"

text \<open>
  The loop of the client: what it prints and the last value of \<open>n\<close>. \<open>put s\<close> tells whether \<open>fputs\<close>
  succeeds on \<open>s\<close>.
\<close>

function client1_loop :: "(string \<Rightarrow> bool) \<Rightarrow> string \<Rightarrow> source \<Rightarrow> (string list \<times> int) option" where
  "client1_loop put buf s =
     (case read_fd (sizeof_recvBuff - 1) s of
        (None, _) \<Rightarrow> Some ([], -1)
      | (Some data, s) \<Rightarrow>
          (if data = [] then Some ([], 0)
           else (case store buf data of
                   None \<Rightarrow> None
                 | Some buf \<Rightarrow>
                     (case client1_loop put buf s of
                        None \<Rightarrow> None
                      | Some (l, n) \<Rightarrow>
                          Some ((if put (cstr buf) then [cstr buf]
                                 else [[CHR 0x0A] @ '' Error : Fputs error'' @ [CHR 0x0A]]) @ l, n)))))"
  by pat_completeness auto
termination
proof (relation "measure (\<lambda>(_, _, s). length (concat (pieces s)))", goal_cases)
  case (2 put buf s r s' data buf')
  then have "read_fd (sizeof_recvBuff - 1) s = (Some data, s')" by simp
  from read_fd_Some(1) [OF this] \<open>data \<noteq> []\<close> show ?case by (simp add: sizeof_recvBuff_def)
qed simp

declare client1_loop.simps [simp del]

definition main_client1 :: "string list \<Rightarrow> bool \<Rightarrow> bool \<Rightarrow> bool \<Rightarrow> (string \<Rightarrow> bool) \<Rightarrow> source \<Rightarrow>
    (string list \<times> int) option" where
  "main_client1 args socket_ok address_ok connect_ok put s =
     (if length args \<noteq> 2
      then Some ([[CHR 0x0A] @ '' Usage: '' @ program_name args @ '' <ip of server> '' @ [CHR 0x0A]], 1)
      else if \<not> socket_ok then Some ([[CHR 0x0A] @ '' Error : Could not create socket '' @ [CHR 0x0A]], 1)
      else if \<not> address_ok then Some ([[CHR 0x0A] @ '' inet_pton error occured'' @ [CHR 0x0A]], 1)
      else if \<not> connect_ok then Some ([[CHR 0x0A] @ '' Error : Connect Failed '' @ [CHR 0x0A]], 1)
      else (case client1_loop put (replicate sizeof_recvBuff (CHR ''0'')) s of
              None \<Rightarrow> None
            | Some (l, n) \<Rightarrow>
                Some (l @ (if n < 0 then [[CHR 0x0A] @ '' Read error '' @ [CHR 0x0A]] else []), 0)))"

text \<open>
  The server's calls, given the descriptor \<open>socket\<close> returns and a list of results of \<open>accept\<close>. It
  checks none of its calls: -1 is handed on as a descriptor.
\<close>

datatype server_call =
    Socket                  \<comment> \<open>\<open>AF_INET\<close>, \<open>SOCK_STREAM\<close>\<close>
  | Bind int nat            \<comment> \<open>to any address, with a port\<close>
  | Listen int nat
  | Accept int
  | Write int string
  | Close int
  | Sleep nat

text \<open>\<open>snprintf(send_buff, sizeof(send_buff), ...)\<close>, and then \<open>strlen\<close> of it is sent.\<close>

definition greeting :: string where
  "greeting = snprintf_s 1025 (''Hello client from server'' @ [CHR 0x0A])"

definition main_server1 :: "int \<Rightarrow> int list \<Rightarrow> server_call list" where
  "main_server1 listenfd accepts =
     [Socket, Bind listenfd 5000, Listen listenfd 10] @
     concat (map (\<lambda>connfd. [Accept listenfd, Write connfd greeting, Close connfd, Sleep 1]) accepts)"

text \<open>What a connection that got the descriptor \<open>fd\<close> receives before it is closed.\<close>

fun sent_on :: "int \<Rightarrow> server_call list \<Rightarrow> string list" where
  "sent_on fd [] = []"
| "sent_on fd (Write f m # cs) = (if f = fd then m # sent_on fd cs else sent_on fd cs)"
| "sent_on fd (Close f # cs) = (if f = fd then [] else sent_on fd cs)"
| "sent_on fd (_ # cs) = sent_on fd cs"

section \<open>The copying client and server\<close>

definition stream_BUF_SIZE :: nat where
  "stream_BUF_SIZE = 100"

text \<open>
  The client: the bytes it sends, what it logs and how it ends. The loop body ends with \<open>exit\<close>, so
  it runs once at most; \<open>sent data\<close> is the result of \<open>write\<close>.
\<close>

definition main_client3 :: "bool \<Rightarrow> bool \<Rightarrow> (string \<Rightarrow> int) \<Rightarrow> source \<Rightarrow> string \<times> log_call list \<times> outcome" where
  "main_client3 socket_ok connect_ok sent s =
     (if \<not> socket_ok then ([], [log_error_ne ''Error socket'' []], Ends (Exit EXIT_FAILURE))
      else if \<not> connect_ok then ([], [log_error_ne ''Error connect'' []], Ends (Exit EXIT_FAILURE))
      else (case fst (read_fd stream_BUF_SIZE s) of
              None \<Rightarrow> ([], [], Returns 0)
            | Some data \<Rightarrow>
                (if data = [] then ([], [], Returns 0)
                 else if sent data \<noteq> int (length data)
                 then (take (nat (sent data)) data, [log_error_ne ''Error partial/failed write'' []],
                       Ends (Exit EXIT_FAILURE))
                 else (data, [], Ends (Exit EXIT_SUCCESS)))))"

text \<open>Copying one connection to standard output: what is written, and the error that ends it.\<close>

function copy_loop :: "(string \<Rightarrow> int) \<Rightarrow> source \<Rightarrow> string \<times> log_call option" where
  "copy_loop put s =
     (case read_fd stream_BUF_SIZE s of
        (None, _) \<Rightarrow> ([], Some (log_error_ne ''Error read'' []))
      | (Some data, s) \<Rightarrow>
          (if data = [] then ([], None)
           else if put data \<noteq> int (length data)
           then (take (nat (put data)) data, Some (log_error_ne ''Error write'' []))
           else (let (l, e) = copy_loop put s in (data @ l, e))))"
  by pat_completeness auto
termination
proof (relation "measure (\<lambda>(_, s). length (concat (pieces s)))", goal_cases)
  case (2 put s r s' data)
  then have "read_fd stream_BUF_SIZE s = (Some data, s')" by simp
  from read_fd_Some(1) [OF this] \<open>data \<noteq> []\<close> show ?case by (simp add: stream_BUF_SIZE_def)
qed simp

declare copy_loop.simps [simp del]

text \<open>The connections in the order \<open>accept\<close> returns them, \<open>None\<close> if it fails; \<open>close\<close> may fail.\<close>

fun server3_loop :: "(string \<Rightarrow> int) \<Rightarrow> (source \<times> bool) option list \<Rightarrow> string \<times> log_call list \<times> server_run" where
  "server3_loop put [] = ([], [], Serving)"
| "server3_loop put (None # cs) = ([], [log_error_ne ''Error accept'' []], Exits (Exit EXIT_FAILURE))"
| "server3_loop put (Some (s, close_ok) # cs) =
     (case copy_loop put s of
        (out, Some e) \<Rightarrow> (out, [e], Exits (Exit EXIT_FAILURE))
      | (out, None) \<Rightarrow>
          (if \<not> close_ok then (out, [log_error_ne ''Error close'' []], Exits (Exit EXIT_FAILURE))
           else (let (out', l, r) = server3_loop put cs in (out @ out', l, r))))"

text \<open>\<open>remove_ok\<close> holds also when there was nothing to remove.\<close>

definition main_server3 :: "bool \<Rightarrow> bool \<Rightarrow> bool \<Rightarrow> bool \<Rightarrow> (string \<Rightarrow> int) \<Rightarrow> (source \<times> bool) option list \<Rightarrow>
    string \<times> log_call list \<times> server_run" where
  "main_server3 socket_ok remove_ok bind_ok listen_ok put cs =
     (if \<not> socket_ok then ([], [log_error_ne ''Error socket'' []], Exits (Exit EXIT_FAILURE))
      else if \<not> remove_ok
      then ([], [log_error_ne ''remove %s failure'' [ArgS ''/tmp/us_xfr'']], Exits (Exit EXIT_FAILURE))
      else if \<not> bind_ok then ([], [log_error_ne ''Error bind'' []], Exits (Exit EXIT_FAILURE))
      else if \<not> listen_ok then ([], [log_error_ne ''Error listen'' []], Exits (Exit EXIT_FAILURE))
      else server3_loop put cs)"

section \<open>What arrives\<close>

lemma store_ok:
  "length buf = n \<Longrightarrow> length data < n \<Longrightarrow>
    \<exists>b. store buf data = Some b \<and> length b = n \<and> cstr b = cstr data"
proof -
  assume len: "length buf = n" "length data < n"
  let ?b = "data @ drop (length data) buf"
  have "?b[length data := NUL] = data @ NUL # drop (Suc (length data)) buf"
    using len by (simp add: list_update_append Cons_nth_drop_Suc [symmetric])
  moreover have "cstr (data @ NUL # x) = cstr data" for x by (induction data) simp_all
  moreover have "length (?b[length data := NUL]) = n" "length data < length ?b" using len by simp_all
  ultimately show ?thesis by (simp add: store_def)
qed

lemma client1_loop_prints:
  "length buf = sizeof_recvBuff \<Longrightarrow> \<forall>m. put m \<Longrightarrow> NUL \<notin> set (concat (pieces s)) \<Longrightarrow>
    \<exists>l. client1_loop put buf s = Some (l, if broken s then -1 else 0) \<and> concat l = concat (pieces s)"
proof (induction put buf s rule: client1_loop.induct)
  case (1 put buf s)
  have pos: "0 < sizeof_recvBuff - 1" by (simp add: sizeof_recvBuff_def)
  show ?case
  proof (cases "concat (pieces s) = []")
    case True
    obtain r s' where r: "read_fd (sizeof_recvBuff - 1) s = (r, s')" by fastforce
    with read_fd_end [OF pos True] have "r = (if broken s then None else Some [])" by simp
    with r True show ?thesis by (subst client1_loop.simps) simp
  next
    case False
    then obtain data s' where d: "read_fd (sizeof_recvBuff - 1) s = (Some data, s')" "data \<noteq> []"
        "concat (pieces s) = data @ concat (pieces s')" "length data \<le> sizeof_recvBuff - 1" "broken s' = broken s"
      using read_fd_more [OF pos] by metis
    have "length data < sizeof_recvBuff" using d(4) pos by linarith
    then obtain b where b: "store buf data = Some b" "length b = sizeof_recvBuff" "cstr b = cstr data"
      using store_ok [OF "1.prems"(1)] by blast
    have clean: "NUL \<notin> set data" "NUL \<notin> set (concat (pieces s'))" using "1.prems"(3) d(3) by auto
    from "1.IH" [OF d(1) [symmetric] refl d(2) b(1) b(2) "1.prems"(2) clean(2)]
    obtain l where l: "client1_loop put b s' = Some (l, if broken s' then -1 else 0)"
        "concat l = concat (pieces s')" by blast
    have "client1_loop put buf s = Some (data # l, if broken s then -1 else 0)"
      by (subst client1_loop.simps) (simp add: d(1,2,5) b(1,3) l(1) "1.prems"(2) clean(1) del: One_nat_def)
    then show ?thesis using d(3) l(2) by simp
  qed
qed

lemma copy_loop_all:
  "\<forall>m. put m = int (length m) \<Longrightarrow> \<not> broken s \<Longrightarrow> copy_loop put s = (concat (pieces s), None)"
proof (induction put s rule: copy_loop.induct)
  case (1 put s)
  have pos: "0 < stream_BUF_SIZE" by (simp add: stream_BUF_SIZE_def)
  show ?case
  proof (cases "concat (pieces s) = []")
    case True
    obtain r s' where r: "read_fd stream_BUF_SIZE s = (r, s')" by fastforce
    with read_fd_end [OF pos True] "1.prems"(2) have "r = Some []" by simp
    with r True show ?thesis by (subst copy_loop.simps) simp
  next
    case False
    then obtain data s' where d: "read_fd stream_BUF_SIZE s = (Some data, s')" "data \<noteq> []"
        "concat (pieces s) = data @ concat (pieces s')" "broken s' = broken s"
      using read_fd_more [OF pos] by metis
    have "copy_loop put s' = (concat (pieces s'), None)"
      using "1.prems"(2) d(4) by (intro "1.IH" [OF d(1) [symmetric] refl d(2) _ "1.prems"(1)]) (simp_all add: "1.prems"(1))
    then show ?thesis by (subst copy_loop.simps) (simp add: d "1.prems"(1))
  qed
qed

lemma server3_loop_all:
  assumes "\<forall>m. put m = int (length m)" and "\<forall>s \<in> set ss. \<not> broken s"
  shows "server3_loop put (map (\<lambda>s. Some (s, True)) ss) = (concat (map (\<lambda>s. concat (pieces s)) ss), [], Serving)"
  using assms(2) by (induction ss) (simp_all add: copy_loop_all [OF assms(1)])

lemma greeting_eq: "greeting = ''Hello client from server'' @ [CHR 0x0A]"
  by (simp add: greeting_def snprintf_s_def)

section \<open>Properties\<close>

text \<open>
  C36: A greeting client prints everything the server sends, however the bytes arrive, and then
  stops: nothing is lost or repeated between the reads, the terminating NUL is always inside the
  buffer, and a broken connection only adds an error line, the result being 0 all the same. From
  the greeting server it prints the greeting: a fixed text, where the comments of both programs
  announce the date and the time.
\<close>

theorem stream_client_prints:
  assumes "\<forall>m. put m" and "NUL \<notin> set (concat (pieces s))"
  shows "\<exists>l. main_client1 [prog, ip] True True True put s =
      Some (l @ (if broken s then [[CHR 0x0A] @ '' Read error '' @ [CHR 0x0A]] else []), 0) \<and>
    concat l = concat (pieces s) \<and>
    (concat (pieces s) = concat (sent_on fd (main_server1 listenfd (fd # fds))) \<longrightarrow>
      concat l = ''Hello client from server'' @ [CHR 0x0A])"
proof -
  obtain l where l: "client1_loop put (replicate sizeof_recvBuff (CHR ''0'')) s =
      Some (l, if broken s then -1 else 0)" "concat l = concat (pieces s)"
    using client1_loop_prints [OF length_replicate assms] by blast
  have "sent_on fd (main_server1 listenfd (fd # fds)) = [greeting]" by (simp add: main_server1_def)
  with l show ?thesis by (auto simp: main_client1_def greeting_eq)
qed

theorem stream_client_prints_witness:
  "\<exists>l. main_client1 [''client'', ''127.0.0.1''] True True True (\<lambda>_. True)
      \<lparr>pieces = [''Hello cl'', ''ient from server'' @ [CHR 0x0A]], broken = False\<rparr> = Some (l, 0) \<and>
    concat l = ''Hello client from server'' @ [CHR 0x0A]"
  using stream_client_prints [where put = "\<lambda>_. True" and prog = "''client''" and ip = "''127.0.0.1''"
      and s = "\<lparr>pieces = [''Hello cl'', ''ient from server'' @ [CHR 0x0A]], broken = False\<rparr>"
      and fd = 4 and listenfd = 3 and fds = "[4]"]
  by (simp add: main_server1_def greeting_eq)

text \<open>
  C37: The copying server writes what its clients send, all of it and in the order of the
  connections, however the bytes arrive. A client, though, ends after its first read of standard
  input: of an input that is not a single piece of at most 100 bytes the rest never gets there.
\<close>

theorem copy_server_first_reads:
  assumes "\<forall>m. put m = int (length m)" and "\<forall>s \<in> set conns. \<not> broken s" and "\<forall>s \<in> set inputs. \<not> broken s"
    and "map (\<lambda>s. concat (pieces s)) conns =
      map (\<lambda>s. fst (main_client3 True True (\<lambda>m. int (length m)) s)) inputs"
  shows "main_server3 True True True True put (map (\<lambda>s. Some (s, True)) conns) =
    (concat (map (\<lambda>s. fst (read_pieces 100 (pieces s))) inputs), [], Serving)"
proof -
  have "fst (main_client3 True True (\<lambda>m. int (length m)) s) = fst (read_pieces 100 (pieces s))"
    if "\<not> broken s" for s
    using that by (simp add: main_client3_def read_fd_def split_beta stream_BUF_SIZE_def)
  then have eq: "map (\<lambda>s. fst (main_client3 True True (\<lambda>m. int (length m)) s)) inputs =
      map (\<lambda>s. fst (read_pieces 100 (pieces s))) inputs"
    using assms(3) by (intro map_cong) auto
  show ?thesis
    unfolding main_server3_def using server3_loop_all [OF assms(1,2)] unfolding assms(4) eq by simp
qed

theorem copy_server_first_reads_witness:
  "main_server3 True True True True (\<lambda>m. int (length m))
     (map (\<lambda>s. Some (s, True)) [\<lparr>pieces = [''on'', ''e''], broken = False\<rparr>, \<lparr>pieces = [], broken = False\<rparr>]) =
   (''one'', [], Serving)"
  using copy_server_first_reads [of "\<lambda>m. int (length m)"
      "[\<lparr>pieces = [''on'', ''e''], broken = False\<rparr>, \<lparr>pieces = [], broken = False\<rparr>]"
      "[\<lparr>pieces = [''one'', ''two''], broken = False\<rparr>, \<lparr>pieces = [], broken = False\<rparr>]"]
  by (simp add: main_client3_def read_fd_def stream_BUF_SIZE_def)

end
