(* ===== verification/Spec2Isabelle.thy ===== *)
theory Spec2Isabelle
  imports Prelude StrUtils ErrorHandler Log General Tray Locks Restaurant RestaurantInv
    RestaurantProps Children RestaurantMain Pipe ThreadMains Counter CondVar RWLock
    Signals Usr1 TaskQueue Processes FileType ShareMemory Datagram StreamSocket
begin

text \<open>
  The LinuxPrograming repository: a small common library (logging, error handling, strings) and,
  one directory per topic, programs that use the system calls of Linux. The programs share no
  state with each other, only the library, so there is one theory or one group of theories for
  each program. The largest one is the restaurant of \<open>10-Semaphore\<close>: a parent, two cooking and
  three eating processes over two shared buffers.

  \<^bold>\<open>Parts and theories\<close>

  \<^item> \<open>Prelude\<close>: 32-bit words, NUL-terminated strings and \<open>snprintf\<close>, decimal notation, and the
    locales \<open>invariant_of\<close> (an invariant of a step relation) and \<open>refines\<close> (a simulation between
    two step relations), with what they give for reachable states.
  \<^item> \<open>StrUtils\<close> (\<open>1-GeneralKnowlegde/strutils.c\<close>): \<open>str_reverse\<close>, \<open>str_trim\<close>, \<open>str_to_int\<close> on
    bounded memory with \<open>uint32_t\<close> indices; \<open>General\<close> is \<open>main.c\<close> beside it.
  \<^item> \<open>ErrorHandler\<close> (\<open>CmnBase/error_handler.c\<close>): the names of the errors, \<open>terminate\<close>.
  \<^item> \<open>Log\<close> (\<open>CmnBase/log.c\<close>): the logger record \<open>L\<close>, its callbacks, \<open>log_log\<close>.
  \<^item> \<open>Tray\<close>, \<open>Restaurant\<close>, \<open>RestaurantInv\<close>, \<open>RestaurantProps\<close> (\<open>10-Semaphore/main.c\<close>): the food
    buffer and the critical sections; the five processes as program counters with locals, and
    their interleaving \<open>rstep\<close>; its invariant; the properties. \<open>RestaurantMain\<close> is the parent:
    \<open>shmInit\<close>, the loop of \<open>main\<close>, \<open>cleanup\<close> and the kernel's names.
  \<^item> \<open>Children\<close>: forking by table and reaping, which the restaurant and \<open>8-Pipe\<close> have in common.
  \<^item> \<open>Pipe\<close> (\<open>8-Pipe/main.c\<close>): the descriptor tables of parent and children of \<open>ls -l | wc -l\<close>;
    each \<open>waitpid\<close> sees the table the parent has then.
  \<^item> \<open>Locks\<close>: a lock and a shared lock as locales, interpreted on the semaphore, the mutex and the
    read-write lock of the programs.
  \<^item> \<open>ThreadMains\<close> (\<open>4-Thread\<close>): creating and joining threads in the four \<open>main\<close>s; \<open>Counter\<close>
    (\<open>task2.c\<close>), \<open>CondVar\<close> (\<open>task3.c\<close>) and \<open>RWLock\<close> (\<open>task4.c\<close>) are their threads, interleaved at
    the granularity of single reads, writes and lock operations.
  \<^item> \<open>Signals\<close> (\<open>5-Signal/task1.c\<close>, \<open>task2.c\<close>, \<open>task4.c\<close>): lists of events, a function from them to
    what is shown and how the program ends; \<open>Usr1\<close> (\<open>task3.c\<close>): two processes and the delivery
    of a signal as a step relation.
  \<^item> \<open>TaskQueue\<close> (\<open>7-Queue\<close>): dispatchers (\<open>arrive\<close>, \<open>send\<close>), worker (\<open>worker_step\<close>) and SIGINT
    (\<open>interrupt\<close>) over one message queue, interleaved at the granularity of their calls; what the
    model relies on of the queue is the locale \<open>message_queue\<close>.
  \<^item> \<open>Processes\<close> (\<open>3-Process\<close>), \<open>FileType\<close> (\<open>2-FileSystem\<close>), \<open>ShareMemory\<close> (\<open>9-ShareMemory\<close>).
  \<^item> \<open>Datagram\<close> (\<open>6-Socket/task2\<close>, \<open>task4\<close>) and \<open>StreamSocket\<close> (\<open>6-Socket/task1\<close>, \<open>task3\<close>).

  \<^bold>\<open>How code becomes definitions\<close>

  A process or thread is a program counter with its locals, and a step function that takes it one
  atomic action further; the system state is a record; a step relation lets any process go next.
  Programs without interleaving are functions from the results of their system calls to what they
  log or print and how they end (\<open>outcome\<close>: a returned value, or an \<open>ending\<close> by \<open>exit\<close>, \<open>_exit\<close> or
  \<open>abort\<close>). \<open>None\<close> as the result of such a function is undefined behaviour, a read or write outside
  an object in particular. A logging call is the value \<open>log_call\<close> of its macro, level, format and
  arguments; \<open>Log\<close> says what the logger makes of it. What the kernel, the C library or the
  environment decide (failing calls, process numbers, the order of events, spurious wake-ups, how
  bytes are cut into pieces) is an argument of the definitions or left open by the step relation,
  so the properties hold for every behaviour of it, except where their hypotheses say otherwise.

  \<^bold>\<open>What is shown\<close>

  For the interleaved programs: mutual exclusion, conservation of the data handed over, absence of
  deadlock (as long as nobody was killed inside a section), bounds on the buffers; refinement of an atomic counter (\<open>Counter\<close>) and of a one-place
  mailbox (\<open>CondVar\<close>); that runs end (\<open>Counter\<close>, \<open>Usr1\<close>). For the functions: what they compute on
  every input and in which cases they fail, a round trip (\<open>str_to_int\<close> with decimal notation), and independence of how input arrives (\<open>StreamSocket\<close>). Several properties
  state what goes wrong where the code has a flaw: a full food buffer overruns, a killed process
  keeps its semaphore, the thread programs always report failure, producer and customer or parent
  and child can wait for ever, the worker writes behind its buffer. Where a theorem has
  hypotheses, the theorem \<open>..._witness\<close> behind it applies it to a concrete run.

  \<^bold>\<open>Bounds and termination\<close>

  Loops are \<open>fun\<close> or \<open>function\<close> with a measure; nothing runs on fuel. Loops without end
  (servers, \<open>main\<close> of the restaurant, signal loops) run over a list of what happens in each turn,
  and the properties quantify over all lists. A SIGINT can fall between any two steps; an item of
  a tray is copied in one step, so a kill in the middle of copying one item is not covered. The numbers of the sources (ten items on a tray,
  1000000 increments, ten-byte datagrams) are kept. Machine integers are 32-bit words where the
  code counts or parses with them; counts that cannot reach the bound are natural numbers.

  \<^bold>\<open>Not modelled\<close>

  The text \<open>printf\<close> makes of a format, times and sleeping periods, scheduling fairness,
  the programs started by \<open>execlp\<close>, weak memory,
  the struct addresses filled in before socket calls, Makefiles and documentation.
\<close>

end
